(* ===== verification/Sbx_Prelude.thy ===== *)
theory Sbx_Prelude
  imports Main "HOL-Library.Sublist" "HOL-Library.Char_ord" "HOL-Library.List_Lexorder"
begin

text \<open>
  Shared ground of the development: the result type of Go's \<open>(value, error)\<close> functions, the
  collections of facts the component proofs draw on, generic lemmas on lists and maps, and the
  interface of a transition system, whose invariant rule every concurrent component uses.
\<close>

named_theorems res_simps \<open>equations of the result combinators\<close>
named_theorems gostr \<open>facts on the modelled part of the strings package\<close>

section \<open>Results: a value or an error\<close>

text \<open>
  A Go function that returns \<open>(T, error)\<close> is modelled as a value of \<open>'e + 'a\<close>: \<open>Inl e\<close> is the
  error return and \<open>Inr a\<close> the value.
\<close>

type_synonym ('e, 'a) res = "'e + 'a"

definition is_ok :: "('e, 'a) res \<Rightarrow> bool" where
  "is_ok r = (case r of Inl _ \<Rightarrow> False | Inr _ \<Rightarrow> True)"

definition bind_res :: "('e, 'a) res \<Rightarrow> ('a \<Rightarrow> ('e, 'b) res) \<Rightarrow> ('e, 'b) res" where
  "bind_res r f = (case r of Inl e \<Rightarrow> Inl e | Inr a \<Rightarrow> f a)"

text \<open>\<open>guard_res c e\<close> is \<open>if c { return e }\<close>; \<open>then_res\<close> sequences checks that return only an
  error.\<close>

definition guard_res :: "bool \<Rightarrow> 'e \<Rightarrow> ('e, unit) res" where
  "guard_res c e = (if c then Inl e else Inr ())"

definition then_res :: "('e, unit) res \<Rightarrow> ('e, 'b) res \<Rightarrow> ('e, 'b) res" where
  "then_res r s = (case r of Inl e \<Rightarrow> Inl e | Inr _ \<Rightarrow> s)"

definition map_err :: "('e \<Rightarrow> 'f) \<Rightarrow> ('e, 'a) res \<Rightarrow> ('f, 'a) res" where
  "map_err g r = (case r of Inl e \<Rightarrow> Inl (g e) | Inr a \<Rightarrow> Inr a)"

text \<open>A loop that stops at the first error, with and without collecting values.\<close>

fun traverse :: "('a \<Rightarrow> ('e, 'b) res) \<Rightarrow> 'a list \<Rightarrow> ('e, 'b list) res" where
  "traverse f [] = Inr []"
| "traverse f (x # xs) = (case f x of Inl e \<Rightarrow> Inl e
     | Inr y \<Rightarrow> (case traverse f xs of Inl e \<Rightarrow> Inl e | Inr ys \<Rightarrow> Inr (y # ys)))"

fun check_all :: "('a \<Rightarrow> ('e, unit) res) \<Rightarrow> 'a list \<Rightarrow> ('e, unit) res" where
  "check_all f [] = Inr ()"
| "check_all f (x # xs) = (case f x of Inl e \<Rightarrow> Inl e | Inr _ \<Rightarrow> check_all f xs)"

lemma is_ok_simps [simp, res_simps]: "is_ok (Inl e) = False" "is_ok (Inr a) = True"
  by (simp_all add: is_ok_def)

lemma bind_res_simps [simp, res_simps]:
  "bind_res (Inl e) f = Inl e" "bind_res (Inr a) f = f a"
  by (simp_all add: bind_res_def)

lemma then_res_simps [simp, res_simps]:
  "then_res (Inl e) s = Inl e" "then_res (Inr u) s = s"
  by (simp_all add: then_res_def)

lemma guard_res_simps [simp, res_simps]:
  "guard_res True e = Inl e" "guard_res False e = Inr ()"
  by (simp_all add: guard_res_def)

lemma map_err_simps [simp, res_simps]:
  "map_err g (Inl e) = Inl (g e)" "map_err g (Inr a) = Inr a"
  by (simp_all add: map_err_def)

lemma then_res_eq_Inr [simp]: "then_res r s = Inr b \<longleftrightarrow> r = Inr () \<and> s = Inr b"
  by (cases r) auto

lemma guard_res_eq_Inr [simp]: "guard_res c e = Inr u \<longleftrightarrow> \<not> c"
  by (cases c) auto

lemma map_err_eq_Inr [simp]: "map_err g r = Inr a \<longleftrightarrow> r = Inr a"
  by (cases r) auto

lemma bind_res_eq_Inr: "bind_res r f = Inr b \<longleftrightarrow> (\<exists>a. r = Inr a \<and> f a = Inr b)"
  by (cases r) auto

lemma check_all_ok [simp]: "check_all f xs = Inr u \<longleftrightarrow> (\<forall>x \<in> set xs. f x = Inr ())"
  by (induction xs) (auto split: sum.splits)

lemma check_all_err: "check_all f xs = Inl e \<Longrightarrow> \<exists>x \<in> set xs. f x = Inl e"
  by (induction xs) (auto split: sum.splits)

lemma check_all_append:
  "check_all f (xs @ ys) = then_res (check_all f xs) (check_all f ys)"
  by (induction xs) (auto split: sum.splits)

lemma traverse_eq_Inr: "traverse f xs = Inr ys \<longleftrightarrow> list_all2 (\<lambda>x y. f x = Inr y) xs ys"
proof (induction xs arbitrary: ys)
  case Nil
  then show ?case by auto
next
  case (Cons x xs)
  show ?case
    by (cases ys; cases "f x"; cases "traverse f xs") (auto simp flip: Cons.IH)
qed

lemma traverse_set: "traverse f xs = Inr ys \<Longrightarrow> y \<in> set ys \<Longrightarrow> \<exists>x \<in> set xs. f x = Inr y"
  by (induction xs arbitrary: ys) (auto split: sum.splits)

lemma traverse_id: "(\<And>x. x \<in> set xs \<Longrightarrow> f x = Inr x) \<Longrightarrow> traverse f xs = Inr xs"
  by (induction xs) auto

section \<open>Lists\<close>

lemma find_map_None: "find P xs = None \<Longrightarrow> x \<in> set xs \<Longrightarrow> \<not> P x"
  by (auto simp: find_None_iff)

lemma find_SomeD: "find P xs = Some x \<Longrightarrow> x \<in> set xs \<and> P x"
  by (induction xs) (auto split: if_splits)

lemma dropWhile_idem_hd: "xs = [] \<or> \<not> P (hd xs) \<Longrightarrow> dropWhile P xs = xs"
  by (cases xs) auto

lemma hd_dropWhile_neg: "dropWhile P xs \<noteq> [] \<Longrightarrow> \<not> P (hd (dropWhile P xs))"
  by (rule hd_dropWhile)

lemma suffix_Cons_iff: "suffix ys (x # xs) \<longleftrightarrow> ys = x # xs \<or> suffix ys xs"
  by (rule suffix_Cons)

text \<open>Keeping the first of each key: Go's \<open>seen\<close> idiom.\<close>

fun keep_first :: "('a \<Rightarrow> 'k) \<Rightarrow> 'k list \<Rightarrow> 'a list \<Rightarrow> 'a list" where
  "keep_first key seen [] = []"
| "keep_first key seen (x # xs) =
     (if key x \<in> set seen then keep_first key seen xs
      else x # keep_first key (key x # seen) xs)"

lemma set_keep_first: "set (keep_first key seen xs) \<subseteq> set xs"
  by (induction xs arbitrary: seen) auto

lemma keep_first_keys:
  "key ` set (keep_first key seen xs) = key ` set xs - set seen"
  by (induction xs arbitrary: seen) auto

lemma keep_first_distinct: "distinct (map key (keep_first key seen xs))"
proof (induction xs arbitrary: seen)
  case Nil
  then show ?case by simp
next
  case (Cons x xs)
  have "key x \<notin> key ` set (keep_first key (key x # seen) xs)"
    by (simp add: keep_first_keys)
  with Cons show ?case by auto
qed

lemma keep_first_find:
  "k \<notin> set seen \<Longrightarrow>
   find (\<lambda>x. key x = k) (keep_first key seen xs) = find (\<lambda>x. key x = k) xs"
  by (induction xs arbitrary: seen) auto

lemma keep_first_find_gen:
  assumes "\<And>x y. key x = key y \<Longrightarrow> P x = P y"
  shows "find P (keep_first key seen xs) = find P (filter (\<lambda>x. key x \<notin> set seen) xs)"
proof (induction xs arbitrary: seen)
  case Nil
  then show ?case by simp
next
  case (Cons x xs)
  have same: "find P (filter (\<lambda>y. key y \<notin> set (key x # seen)) xs) = find P (filter (\<lambda>y. key y \<notin> set seen) xs)"
    if "\<not> P x"
  proof (induction xs)
    case Nil
    then show ?case by simp
  next
    case (Cons y ys)
    have "key y = key x \<Longrightarrow> \<not> P y" using assms [of y x] that by simp
    with Cons show ?case by auto
  qed
  show ?case using same by (simp add: Cons.IH)
qed

lemma keep_first_id:
  "distinct (map key xs) \<Longrightarrow> set seen \<inter> key ` set xs = {} \<Longrightarrow> keep_first key seen xs = xs"
  by (induction xs arbitrary: seen) auto

section \<open>Transition systems\<close>

text \<open>
  The interface of a component with state: what it may start as and how it may move. A component
  that gives an invariant kept by every move gets it for every reachable state.
\<close>

inductive reach :: "('s \<Rightarrow> bool) \<Rightarrow> ('s \<Rightarrow> 's \<Rightarrow> bool) \<Rightarrow> 's \<Rightarrow> bool" for ini step where
  reach_init: "ini s \<Longrightarrow> reach ini step s"
| reach_step: "reach ini step s \<Longrightarrow> step s t \<Longrightarrow> reach ini step t"

locale invariant_system =
  fixes ini :: "'s \<Rightarrow> bool" and step :: "'s \<Rightarrow> 's \<Rightarrow> bool" and inv :: "'s \<Rightarrow> bool"
  assumes inv_init: "ini s \<Longrightarrow> inv s"
    and inv_step: "inv s \<Longrightarrow> step s t \<Longrightarrow> inv t"
begin

lemma reach_inv: "reach ini step s \<Longrightarrow> inv s"
  by (induction rule: reach.induct) (auto intro: inv_init inv_step)

lemma reach_run: "reach ini step s \<Longrightarrow> step\<^sup>*\<^sup>* s t \<Longrightarrow> reach ini step t"
  by (rotate_tac, induction rule: rtranclp_induct) (auto intro: reach_step)

lemma run_inv: "inv s \<Longrightarrow> step\<^sup>*\<^sup>* s t \<Longrightarrow> inv t"
  by (rotate_tac, induction rule: rtranclp_induct) (auto intro: inv_step)

end

end
