(* ===== verification/Go_Strings.thy ===== *)
theory Go_Strings
  imports Sbx_Prelude
begin

text \<open>
  The part of Go's \<^verbatim>\<open>strings\<close>, \<^verbatim>\<open>strconv\<close>, \<^verbatim>\<open>sort\<close> and \<^verbatim>\<open>net\<close> packages the modelled code calls. A Go
  string is a sequence of bytes, and so is an Isabelle \<open>string\<close> (a \<open>char\<close> is one byte). Case
  mapping and white space follow the library on the ASCII range; the library's treatment of other
  Unicode letters and spaces is left out, so the model speaks of ASCII text.
\<close>

section \<open>Bytes\<close>

abbreviation byte_of :: "char \<Rightarrow> int" where "byte_of c \<equiv> of_char c"

definition isSpaceByte :: "char \<Rightarrow> bool" where
  "isSpaceByte c = (byte_of c = 32 \<or> (9 \<le> byte_of c \<and> byte_of c \<le> 13))"

definition isDigit :: "char \<Rightarrow> bool" where
  "isDigit c = (48 \<le> byte_of c \<and> byte_of c \<le> 57)"

definition isLower :: "char \<Rightarrow> bool" where
  "isLower c = (97 \<le> byte_of c \<and> byte_of c \<le> 122)"

definition isUpper :: "char \<Rightarrow> bool" where
  "isUpper c = (65 \<le> byte_of c \<and> byte_of c \<le> 90)"

definition lowerByte :: "char \<Rightarrow> char" where
  "lowerByte c = (if isUpper c then char_of (byte_of c + 32) else c)"

definition upperByte :: "char \<Rightarrow> char" where
  "upperByte c = (if isLower c then char_of (byte_of c - 32) else c)"

lemma lowerByte_idem [simp]: "lowerByte (lowerByte c) = lowerByte c"
  by (auto simp: lowerByte_def isUpper_def)

lemma lowerByte_notUpper [simp]: "\<not> isUpper (lowerByte c)"
  by (auto simp: lowerByte_def isUpper_def)

lemma lowerByte_id [gostr]: "\<not> isUpper c \<Longrightarrow> lowerByte c = c"
  by (simp add: lowerByte_def)

lemma isSpaceByte_not_digit: "isDigit c \<Longrightarrow> \<not> isSpaceByte c"
  by (auto simp: isDigit_def isSpaceByte_def)

lemma isDigit_notUpper: "isDigit c \<Longrightarrow> \<not> isUpper c"
  by (auto simp: isDigit_def isUpper_def)

section \<open>Package strings\<close>

definition ToLower :: "string \<Rightarrow> string" where "ToLower s = map lowerByte s"

definition ToUpper :: "string \<Rightarrow> string" where "ToUpper s = map upperByte s"

definition TrimSpace :: "string \<Rightarrow> string" where
  "TrimSpace s = rev (dropWhile isSpaceByte (rev (dropWhile isSpaceByte s)))"

definition HasPrefix :: "string \<Rightarrow> string \<Rightarrow> bool" where "HasPrefix s p = prefix p s"

definition HasSuffix :: "string \<Rightarrow> string \<Rightarrow> bool" where "HasSuffix s p = suffix p s"

definition TrimPrefix :: "string \<Rightarrow> string \<Rightarrow> string" where
  "TrimPrefix s p = (if prefix p s then drop (length p) s else s)"

definition TrimSuffix :: "string \<Rightarrow> string \<Rightarrow> string" where
  "TrimSuffix s p = (if suffix p s then take (length s - length p) s else s)"

text \<open>\<open>IndexByte\<close> and \<open>LastIndexByte\<close>: \<open>None\<close> is Go's -1.\<close>

fun IndexByte :: "string \<Rightarrow> char \<Rightarrow> nat option" where
  "IndexByte [] c = None"
| "IndexByte (x # xs) c = (if x = c then Some 0 else map_option Suc (IndexByte xs c))"

definition LastIndexByte :: "string \<Rightarrow> char \<Rightarrow> nat option" where
  "LastIndexByte s c = map_option (\<lambda>i. length s - Suc i) (IndexByte (rev s) c)"

definition Contains :: "string \<Rightarrow> string \<Rightarrow> bool" where
  "Contains s sub = list_ex (\<lambda>t. prefix sub t) (suffixes s)"

definition ContainsAny :: "string \<Rightarrow> string \<Rightarrow> bool" where
  "ContainsAny s cs = list_ex (\<lambda>c. c \<in> set cs) s"

fun Split :: "string \<Rightarrow> char \<Rightarrow> string list" where
  "Split [] c = [[]]"
| "Split (x # xs) c = (if x = c then [] # Split xs c
     else (case Split xs c of [] \<Rightarrow> [[x]] | w # ws \<Rightarrow> (x # w) # ws))"

fun Join :: "string list \<Rightarrow> string \<Rightarrow> string" where
  "Join [] sep = []"
| "Join [s] sep = s"
| "Join (s # t # ts) sep = s @ sep @ Join (t # ts) sep"

definition Cut :: "string \<Rightarrow> char \<Rightarrow> (string \<times> string) option" where
  "Cut s c = map_option (\<lambda>i. (take i s, drop (Suc i) s)) (IndexByte s c)"

text \<open>\<open>Fields\<close>: the maximal runs of non-space bytes. \<open>cur\<close> is the run being read, reversed.\<close>

fun fields_from :: "string \<Rightarrow> string \<Rightarrow> string list" where
  "fields_from cur [] = (if cur = [] then [] else [rev cur])"
| "fields_from cur (x # xs) =
     (if isSpaceByte x then (if cur = [] then fields_from [] xs else rev cur # fields_from [] xs)
      else fields_from (x # cur) xs)"

definition Fields :: "string \<Rightarrow> string list" where "Fields s = fields_from [] s"

subsection \<open>Facts\<close>

lemma ToLower_simps [simp, gostr]:
  "ToLower [] = []" "ToLower (s @ t) = ToLower s @ ToLower t" "length (ToLower s) = length s"
  "ToLower (c # s) = lowerByte c # ToLower s" "ToLower s = [] \<longleftrightarrow> s = []"
  by (simp_all add: ToLower_def)

lemma ToLower_idem [simp, gostr]: "ToLower (ToLower s) = ToLower s"
  by (simp add: ToLower_def comp_def)

lemma ToLower_id [gostr]: "(\<And>c. c \<in> set s \<Longrightarrow> \<not> isUpper c) \<Longrightarrow> ToLower s = s"
  by (simp add: ToLower_def map_idI lowerByte_def)

lemma TrimSpace_id [gostr]:
  "s = [] \<or> (\<not> isSpaceByte (hd s) \<and> \<not> isSpaceByte (last s)) \<Longrightarrow> TrimSpace s = s"
  by (auto simp: TrimSpace_def dropWhile_idem_hd hd_rev)

lemma TrimSpace_no_space [gostr]: "\<forall>c \<in> set s. \<not> isSpaceByte c \<Longrightarrow> TrimSpace s = s"
  by (rule TrimSpace_id) (cases "s = []", auto)

lemma TrimSpace_ends:
  "TrimSpace s \<noteq> [] \<Longrightarrow> \<not> isSpaceByte (hd (TrimSpace s)) \<and> \<not> isSpaceByte (last (TrimSpace s))"
proof -
  define t where "t = dropWhile isSpaceByte s"
  define u where "u = dropWhile isSpaceByte (rev t)"
  assume ne: "TrimSpace s \<noteq> []"
  then have u: "TrimSpace s = rev u" "u \<noteq> []" by (auto simp: TrimSpace_def t_def u_def)
  then have last: "\<not> isSpaceByte (hd u)" using hd_dropWhile [of isSpaceByte "rev t"] by (simp add: u_def)
  have "suffix u (rev t)" by (simp add: u_def suffix_dropWhile)
  then obtain v where "rev t = v @ u" by (auto simp: suffix_def)
  then have t: "t = rev u @ rev v" by (metis rev_append rev_rev_ident)
  with u(2) have "hd t = hd (rev u)" by simp
  moreover have "t \<noteq> []" using t u(2) by simp
  then have "\<not> isSpaceByte (hd t)" unfolding t_def by (rule hd_dropWhile)
  ultimately show ?thesis using u last by (simp add: last_rev)
qed

lemma TrimSpace_idem [simp, gostr]: "TrimSpace (TrimSpace s) = TrimSpace s"
  using TrimSpace_ends [of s] by (cases "TrimSpace s = []") (auto intro: TrimSpace_id)

lemma ToLower_space: "isSpaceByte (lowerByte c) = isSpaceByte c"
  by (auto simp: lowerByte_def isUpper_def isSpaceByte_def)

lemma TrimSpace_ToLower: "TrimSpace (ToLower s) = ToLower (TrimSpace s)"
proof -
  have dw: "dropWhile isSpaceByte (map lowerByte t) = map lowerByte (dropWhile isSpaceByte t)" for t
    by (induction t) (auto simp: ToLower_space)
  show ?thesis by (simp add: TrimSpace_def ToLower_def dw rev_map)
qed

lemma IndexByte_None: "IndexByte s c = None \<longleftrightarrow> c \<notin> set s"
  by (induction s) auto

lemma IndexByte_notin [simp]: "c \<notin> set s \<Longrightarrow> IndexByte s c = None"
  by (simp add: IndexByte_None)

lemma IndexByte_SomeD:
  "IndexByte s c = Some i \<Longrightarrow>
     i < length s \<and> s ! i = c \<and> c \<notin> set (take i s) \<and> s = take i s @ c # drop (Suc i) s"
proof (induction s arbitrary: i)
  case Nil
  then show ?case by simp
next
  case (Cons x xs)
  show ?case
  proof (cases "x = c")
    case True
    with Cons.prems show ?thesis by auto
  next
    case False
    with Cons.prems obtain j where j: "IndexByte xs c = Some j" "i = Suc j" by auto
    with Cons.IH [OF j(1)] False show ?thesis by auto
  qed
qed

lemma IndexByte_append: "c \<notin> set s \<Longrightarrow> IndexByte (s @ c # t) c = Some (length s)"
  by (induction s) auto

lemma LastIndexByte_append:
  assumes "c \<notin> set t" shows "LastIndexByte (s @ c # t) c = Some (length s)"
  using IndexByte_append [of c "rev t" "rev s"] assms by (simp add: LastIndexByte_def)

lemma LastIndexByte_None: "LastIndexByte s c = None \<longleftrightarrow> c \<notin> set s"
  by (simp add: LastIndexByte_def IndexByte_None)

lemma LastIndexByte_notin [simp]: "c \<notin> set s \<Longrightarrow> LastIndexByte s c = None"
  by (simp add: LastIndexByte_None)

lemma Split_ne [simp]: "Split s c \<noteq> []"
  by (cases s) (auto split: list.splits)

lemma Split_none: "c \<notin> set s \<Longrightarrow> Split s c = [s]"
  by (induction s) auto

lemma Split_append: "c \<notin> set s \<Longrightarrow> Split (s @ c # t) c = s # Split t c"
  by (induction s) auto

lemma Split_Join:
  "ss \<noteq> [] \<Longrightarrow> (\<And>s. s \<in> set ss \<Longrightarrow> c \<notin> set s) \<Longrightarrow> Split (Join ss [c]) c = ss"
  by (induction ss "[c]" rule: Join.induct) (auto simp: Split_none Split_append)

lemma Split_no_sep: "w \<in> set (Split s c) \<Longrightarrow> c \<notin> set w"
  by (induction s arbitrary: w) (auto split: if_splits list.splits)

lemma Join_Split: "Join (Split s c) [c] = s"
proof (induction s)
  case Nil
  then show ?case by simp
next
  case (Cons x s)
  then show ?case by (cases "Split s c"; cases "tl (Split s c)") (auto split: list.splits)
qed

lemma Contains_iff: "Contains s sub \<longleftrightarrow> (\<exists>a b. s = a @ sub @ b)"
  by (force simp: Contains_def list_ex_iff suffix_def prefix_def)

lemma ContainsAny_iff [gostr]: "ContainsAny s cs \<longleftrightarrow> (\<exists>c \<in> set s. c \<in> set cs)"
  by (simp add: ContainsAny_def list_ex_iff)

lemma Cut_iff: "Cut s c = Some (a, b) \<longleftrightarrow> s = a @ c # b \<and> c \<notin> set a"
proof
  assume "Cut s c = Some (a, b)"
  then obtain i where i: "IndexByte s c = Some i" "a = take i s" "b = drop (Suc i) s"
    by (auto simp: Cut_def)
  with IndexByte_SomeD [OF i(1)] show "s = a @ c # b \<and> c \<notin> set a" by simp
next
  assume "s = a @ c # b \<and> c \<notin> set a"
  then show "Cut s c = Some (a, b)" by (simp add: Cut_def IndexByte_append)
qed

lemma suffix_single: "suffix [c] s \<longleftrightarrow> s \<noteq> [] \<and> last s = c"
  by (cases s rule: rev_cases) auto

lemma TrimSuffix_dot: "TrimSuffix s [c] = (if s \<noteq> [] \<and> last s = c then butlast s else s)"
proof (cases s rule: rev_cases)
  case Nil
  then show ?thesis by (simp add: TrimSuffix_def)
next
  case (snoc ys y)
  then show ?thesis by (auto simp: TrimSuffix_def)
qed

section \<open>Package strconv\<close>

definition digit_char :: "int \<Rightarrow> char" where "digit_char d = char_of (48 + d)"

function itoa_pos :: "int \<Rightarrow> string" where
  "itoa_pos n = (if n < 10 then [digit_char n] else itoa_pos (n div 10) @ [digit_char (n mod 10)])"
  by pat_completeness auto
termination
  by (relation "measure nat") auto

declare itoa_pos.simps [simp del]

definition Itoa :: "int \<Rightarrow> string" where
  "Itoa i = (if i < 0 then CHR ''-'' # itoa_pos (- i) else itoa_pos i)"

fun dec_val :: "int \<Rightarrow> string \<Rightarrow> int option" where
  "dec_val acc [] = Some acc"
| "dec_val acc (c # cs) = (if isDigit c then dec_val (10 * acc + (byte_of c - 48)) cs else None)"

definition parse_dec :: "string \<Rightarrow> int option" where
  "parse_dec s = (if s = [] then None else dec_val 0 s)"

text \<open>\<open>Atoi\<close> on a 64-bit machine: an optional sign, at least one digit, and the value in range.\<close>

definition int_in_range :: "int \<Rightarrow> bool" where
  "int_in_range i = (- (2 ^ 63) \<le> i \<and> i < 2 ^ 63)"

definition Atoi :: "string \<Rightarrow> int option" where
  "Atoi s = (let (neg, body) = (case s of
        [] \<Rightarrow> (False, [])
      | c # cs \<Rightarrow> if c = CHR ''-'' then (True, cs) else if c = CHR ''+'' then (False, cs) else (False, s))
     in (case parse_dec body of
        None \<Rightarrow> None
      | Some n \<Rightarrow> let v = (if neg then - n else n) in if int_in_range v then Some v else None))"

lemma byte_digit_char [simp]: "0 \<le> d \<Longrightarrow> d < 10 \<Longrightarrow> byte_of (digit_char d) = 48 + d"
  by (simp add: digit_char_def)

lemma isDigit_digit_char [simp]: "0 \<le> d \<Longrightarrow> d < 10 \<Longrightarrow> isDigit (digit_char d)"
  by (simp add: isDigit_def)

lemma itoa_pos_ne [simp]: "itoa_pos n \<noteq> []"
  by (subst itoa_pos.simps) simp

lemma itoa_pos_digits: "0 \<le> n \<Longrightarrow> c \<in> set (itoa_pos n) \<Longrightarrow> isDigit c"
proof (induction n rule: itoa_pos.induct)
  case (1 n)
  then show ?case by (cases "n < 10") (auto simp: itoa_pos.simps [of n])
qed

lemma dec_val_append:
  "dec_val acc (s @ t) = (case dec_val acc s of None \<Rightarrow> None | Some a \<Rightarrow> dec_val a t)"
  by (induction s arbitrary: acc) auto

lemma dec_val_itoa: "0 \<le> n \<Longrightarrow> dec_val 0 (itoa_pos n) = Some n"
proof (induction n rule: itoa_pos.induct)
  case (1 n)
  then show ?case by (cases "n < 10") (auto simp: itoa_pos.simps [of n] dec_val_append)
qed

lemma parse_itoa [simp]: "0 \<le> n \<Longrightarrow> parse_dec (itoa_pos n) = Some n"
  by (simp add: parse_dec_def dec_val_itoa)

lemma Itoa_digits: "0 \<le> i \<Longrightarrow> c \<in> set (Itoa i) \<Longrightarrow> isDigit c"
  by (auto simp: Itoa_def dest: itoa_pos_digits)

lemma Itoa_ne [simp]: "Itoa i \<noteq> []"
  by (simp add: Itoa_def)

lemma hd_itoa_pos: "0 \<le> n \<Longrightarrow> hd (itoa_pos n) \<noteq> CHR ''-'' \<and> hd (itoa_pos n) \<noteq> CHR ''+''"
  using itoa_pos_digits [of n "hd (itoa_pos n)"] by (auto simp: isDigit_def)

lemma Atoi_Itoa: "int_in_range i \<Longrightarrow> Atoi (Itoa i) = Some i"
proof (cases "i < 0")
  case True
  assume "int_in_range i"
  with True show ?thesis by (simp add: Itoa_def Atoi_def)
next
  case False
  assume r: "int_in_range i"
  obtain c cs where c: "itoa_pos i = c # cs" by (cases "itoa_pos i") auto
  with hd_itoa_pos [of i] False have "c \<noteq> CHR ''-''" "c \<noteq> CHR ''+''" by auto
  moreover have "parse_dec (c # cs) = Some i" using parse_itoa [of i] c False by simp
  ultimately show ?thesis using False r c by (simp add: Itoa_def Atoi_def)
qed

lemma Atoi_range: "Atoi s = Some i \<Longrightarrow> int_in_range i"
  by (auto simp: Atoi_def Let_def split: option.splits if_splits list.splits prod.splits)

section \<open>net.SplitHostPort\<close>

datatype split_error = Missing_port | Too_many_colons | Missing_bracket | Unexpected_open | Unexpected_close

definition SplitHostPort :: "string \<Rightarrow> (split_error, string \<times> string) res" where
  "SplitHostPort hp = (case LastIndexByte hp CHR '':'' of
      None \<Rightarrow> Inl Missing_port
    | Some i \<Rightarrow>
       let tail = (\<lambda>host j k.
             if CHR ''['' \<in> set (drop j hp) then Inl Unexpected_open
             else if CHR '']'' \<in> set (drop k hp) then Inl Unexpected_close
             else Inr (host, drop (Suc i) hp))
       in if hd hp = CHR ''['' then
            (case IndexByte hp CHR '']'' of
               None \<Rightarrow> Inl Missing_bracket
             | Some e \<Rightarrow>
                 if e + 1 = length hp then Inl Missing_port
                 else if e + 1 = i then tail (drop 1 (take e hp)) 1 (e + 1)
                 else if hp ! (e + 1) = CHR '':'' then Inl Too_many_colons
                 else Inl Missing_port)
          else if CHR '':'' \<in> set (take i hp) then Inl Too_many_colons
          else tail (take i hp) 0 0)"

lemma SplitHostPort_plain:
  assumes "CHR '':'' \<notin> set h" "CHR ''['' \<notin> set h" "CHR '']'' \<notin> set h"
    and "CHR '':'' \<notin> set p" "CHR ''['' \<notin> set p" "CHR '']'' \<notin> set p"
  shows "SplitHostPort (h @ CHR '':'' # p) = Inr (h, p)"
proof -
  have "hd (h @ CHR '':'' # p) \<noteq> CHR ''[''" using assms(2) by (cases h) auto
  then show ?thesis using assms by (simp add: SplitHostPort_def LastIndexByte_append)
qed

lemma SplitHostPort_bracket:
  assumes "CHR ''['' \<notin> set h" "CHR '']'' \<notin> set h"
    and "CHR '':'' \<notin> set p" "CHR ''['' \<notin> set p" "CHR '']'' \<notin> set p"
  shows "SplitHostPort (CHR ''['' # h @ CHR '']'' # CHR '':'' # p) = Inr (h, p)"
proof -
  let ?s = "CHR ''['' # h @ CHR '']'' # CHR '':'' # p"
  have e: "IndexByte (h @ CHR '']'' # CHR '':'' # p) CHR '']'' = Some (length h)"
    using assms(2) by (rule IndexByte_append)
  have l: "LastIndexByte ?s CHR '':'' = Some (length h + 2)"
    using LastIndexByte_append [of "CHR '':''" p "CHR ''['' # h @ [CHR '']'']"] assms(3) by simp
  show ?thesis using assms by (simp add: SplitHostPort_def e l)
qed

lemma SplitHostPort_no_colon: "CHR '':'' \<notin> set s \<Longrightarrow> SplitHostPort s = Inl Missing_port"
  by (simp add: SplitHostPort_def)

lemma SplitHostPort_sub: "SplitHostPort s = Inr (h, p) \<Longrightarrow> set h \<subseteq> set s \<and> set p \<subseteq> set s"
  by (auto simp: SplitHostPort_def Let_def split: option.splits if_splits
      dest: in_set_dropD in_set_takeD)

lemma TrimSuffix_sub: "set (TrimSuffix s t) \<subseteq> set s"
  by (auto simp: TrimSuffix_def dest: in_set_takeD)

lemma TrimPrefix_sub: "set (TrimPrefix s t) \<subseteq> set s"
  by (auto simp: TrimPrefix_def dest: in_set_dropD)

end
