(* ===== verification/Go_Netip.thy ===== *)
theory Go_Netip
  imports Go_Strings "HOL-Library.Word"
begin

text \<open>
  The part of Go's \<^verbatim>\<open>net/netip\<close> package the egress filter is built on: addresses with IPv6 zones,
  prefixes, their parsers, and the address classes. Parse errors are \<open>None\<close>: the modelled code only
  asks whether a parse succeeded.
\<close>

unbundle bit_operations_syntax

section \<open>Addresses\<close>

text \<open>An IPv6 address carries a zone, empty for none. The invalid zero \<open>Addr\<close> is never produced by
  a successful parse or by \<open>AddrFromSlice\<close>.\<close>

datatype addr = Addr4 "32 word" | Addr6 "128 word" string

definition Is4 :: "addr \<Rightarrow> bool" where
  "Is4 a = (case a of Addr4 _ \<Rightarrow> True | Addr6 _ _ \<Rightarrow> False)"

definition Is6 :: "addr \<Rightarrow> bool" where
  "Is6 a = (case a of Addr4 _ \<Rightarrow> False | Addr6 _ _ \<Rightarrow> True)"

definition hasZone :: "addr \<Rightarrow> bool" where
  "hasZone a = (case a of Addr4 _ \<Rightarrow> False | Addr6 _ z \<Rightarrow> z \<noteq> [])"

definition BitLen :: "addr \<Rightarrow> nat" where
  "BitLen a = (case a of Addr4 _ \<Rightarrow> 32 | Addr6 _ _ \<Rightarrow> 128)"

text \<open>\<open>::ffff:a.b.c.d\<close>\<close>

definition Is4In6 :: "addr \<Rightarrow> bool" where
  "Is4In6 a = (case a of Addr4 _ \<Rightarrow> False | Addr6 w _ \<Rightarrow> drop_bit 32 w = 0xffff)"

definition Unmap :: "addr \<Rightarrow> addr" where
  "Unmap a = (case a of Addr4 w \<Rightarrow> Addr4 w
     | Addr6 w z \<Rightarrow> if Is4In6 (Addr6 w z) then Addr4 (ucast w) else Addr6 w z)"

definition withoutZone :: "addr \<Rightarrow> addr" where
  "withoutZone a = (case a of Addr4 w \<Rightarrow> Addr4 w | Addr6 w _ \<Rightarrow> Addr6 w [])"

section \<open>Address classes\<close>

definition IsLoopback :: "addr \<Rightarrow> bool" where
  "IsLoopback a = (case a of Addr4 w \<Rightarrow> drop_bit 24 w = 127 | Addr6 w _ \<Rightarrow> w = 1)"

definition IsLinkLocalUnicast :: "addr \<Rightarrow> bool" where
  "IsLinkLocalUnicast a = (case a of Addr4 w \<Rightarrow> drop_bit 16 w = 0xa9fe
     | Addr6 w _ \<Rightarrow> drop_bit 112 w AND 0xffc0 = 0xfe80)"

definition IsLinkLocalMulticast :: "addr \<Rightarrow> bool" where
  "IsLinkLocalMulticast a = (case a of Addr4 w \<Rightarrow> drop_bit 8 w = 0xe00000
     | Addr6 w _ \<Rightarrow> drop_bit 112 w AND 0xff0f = 0xff02)"

definition IsInterfaceLocalMulticast :: "addr \<Rightarrow> bool" where
  "IsInterfaceLocalMulticast a = (case a of Addr4 w \<Rightarrow> False
     | Addr6 w _ \<Rightarrow> drop_bit 112 w AND 0xff0f = 0xff01)"

definition IsMulticast :: "addr \<Rightarrow> bool" where
  "IsMulticast a = (case a of Addr4 w \<Rightarrow> drop_bit 24 w AND 0xf0 = 0xe0
     | Addr6 w _ \<Rightarrow> drop_bit 120 w = 0xff)"

text \<open>\<open>IsUnspecified\<close> compares whole addresses, so \<open>::\<close> with a zone is not unspecified.\<close>

definition IsUnspecified :: "addr \<Rightarrow> bool" where
  "IsUnspecified a = (a = Addr4 0 \<or> a = Addr6 0 [])"

section \<open>Prefixes\<close>

datatype pfx = Pfx (pfx_addr: addr) (pfx_bits: nat)

definition PrefixFrom :: "addr \<Rightarrow> nat \<Rightarrow> pfx" where
  "PrefixFrom a n = Pfx (withoutZone a) n"

definition valid_pfx :: "pfx \<Rightarrow> bool" where
  "valid_pfx p = (pfx_bits p \<le> BitLen (pfx_addr p) \<and> \<not> hasZone (pfx_addr p))"

definition Masked :: "pfx \<Rightarrow> pfx" where
  "Masked p = (case pfx_addr p of
      Addr4 w \<Rightarrow> Pfx (Addr4 (push_bit (32 - pfx_bits p) (drop_bit (32 - pfx_bits p) w))) (pfx_bits p)
    | Addr6 w _ \<Rightarrow> Pfx (Addr6 (push_bit (128 - pfx_bits p) (drop_bit (128 - pfx_bits p) w)) []) (pfx_bits p))"

text \<open>\<open>Addr.Prefix\<close>: the masked prefix of that length, an error when the length is out of range.\<close>

definition AddrPrefix :: "addr \<Rightarrow> int \<Rightarrow> pfx option" where
  "AddrPrefix a n = (if n < 0 \<or> n > int (BitLen a) then None
     else Some (Masked (PrefixFrom a (nat n))))"

text \<open>\<open>Prefix.Contains\<close>: an address with a zone is in no prefix, and the families must agree.\<close>

definition PfxContains :: "pfx \<Rightarrow> addr \<Rightarrow> bool" where
  "PfxContains p a = (valid_pfx p \<and> \<not> hasZone a \<and> (case (pfx_addr p, a) of
      (Addr4 v, Addr4 w) \<Rightarrow> drop_bit (32 - pfx_bits p) (w XOR v) = 0
    | (Addr6 v _, Addr6 w _) \<Rightarrow> drop_bit (128 - pfx_bits p) (w XOR v) = 0
    | _ \<Rightarrow> False))"

section \<open>Parsing\<close>

text \<open>\<open>parseIPv4Fields\<close>: \<open>fresh\<close> is "at the start or just after a dot"; \<open>fs\<close> are the octets read.\<close>

fun ipv4_fields :: "int \<Rightarrow> nat \<Rightarrow> int list \<Rightarrow> bool \<Rightarrow> string \<Rightarrow> int list option" where
  "ipv4_fields val digLen fs fresh [] = (if length fs < 3 then None else Some (fs @ [val]))"
| "ipv4_fields val digLen fs fresh (c # cs) =
     (if isDigit c then
        (if digLen = 1 \<and> val = 0 then None
         else if val * 10 + (byte_of c - 48) > 255 then None
         else ipv4_fields (val * 10 + (byte_of c - 48)) (digLen + 1) fs False cs)
      else if c = CHR ''.'' then
        (if fresh \<or> cs = [] then None
         else if length fs = 3 then None
         else ipv4_fields 0 0 (fs @ [val]) True cs)
      else None)"

definition parseIPv4Fields :: "string \<Rightarrow> int list option" where
  "parseIPv4Fields s = ipv4_fields 0 0 [] True s"

definition parseIPv4 :: "string \<Rightarrow> addr option" where
  "parseIPv4 s = map_option (\<lambda>fs. Addr4 (of_int (fold (\<lambda>f n. n * 256 + f) fs 0))) (parseIPv4Fields s)"

definition hexVal :: "char \<Rightarrow> int option" where
  "hexVal c = (if isDigit c then Some (byte_of c - 48)
     else if 97 \<le> byte_of c \<and> byte_of c \<le> 102 then Some (byte_of c - 87)
     else if 65 \<le> byte_of c \<and> byte_of c \<le> 70 then Some (byte_of c - 55)
     else None)"

fun hex_group :: "nat \<Rightarrow> int \<Rightarrow> string \<Rightarrow> (nat \<times> int \<times> string) option" where
  "hex_group off acc [] = Some (off, acc, [])"
| "hex_group off acc (c # cs) = (case hexVal c of
      None \<Rightarrow> Some (off, acc, c # cs)
    | Some v \<Rightarrow> if off > 3 then None else hex_group (off + 1) (acc * 16 + v) cs)"

text \<open>The loop of \<open>parseIPv6\<close>: the first argument is how many of the eight 16-bit groups are still
  free, \<open>gs\<close> the groups read, \<open>ell\<close> where the ellipsis was.\<close>

fun ipv6_groups :: "nat \<Rightarrow> int list \<Rightarrow> nat option \<Rightarrow> string \<Rightarrow> (int list \<times> nat option \<times> string) option" where
  "ipv6_groups 0 gs ell s = Some (gs, ell, s)"
| "ipv6_groups (Suc n) gs ell s = (case hex_group 0 0 s of
      None \<Rightarrow> None
    | Some (off, acc, rest) \<Rightarrow>
        if off = 0 then None
        else if rest \<noteq> [] \<and> hd rest = CHR ''.'' then
          (if (ell = None \<and> length gs \<noteq> 6) \<or> length gs > 6 then None
           else (case parseIPv4Fields s of
               Some [a, b, c, d] \<Rightarrow> Some (gs @ [a * 256 + b, c * 256 + d], ell, [])
             | _ \<Rightarrow> None))
        else if rest = [] then Some (gs @ [acc], ell, [])
        else if hd rest \<noteq> CHR '':'' then None
        else if tl rest = [] then None
        else if hd (tl rest) = CHR '':'' then
          (if ell \<noteq> None then None
           else if tl (tl rest) = [] then Some (gs @ [acc], Some (length gs + 1), [])
           else ipv6_groups n (gs @ [acc]) (Some (length gs + 1)) (tl (tl rest)))
        else ipv6_groups n (gs @ [acc]) ell (tl rest))"

definition ipv6_expand :: "int list \<Rightarrow> nat option \<Rightarrow> int list option" where
  "ipv6_expand gs ell = (if length gs < 8
     then (case ell of None \<Rightarrow> None
           | Some e \<Rightarrow> Some (take e gs @ replicate (8 - length gs) 0 @ drop e gs))
     else if ell \<noteq> None then None else Some gs)"

definition parseIPv6 :: "string \<Rightarrow> addr option" where
  "parseIPv6 s0 =
     (let (s, zone, zoned) = (case Cut s0 CHR ''%'' of
            None \<Rightarrow> (s0, [], False) | Some (a, z) \<Rightarrow> (a, z, True))
      in if zoned \<and> zone = [] then None
         else let (s, ell) = (if prefix ''::'' s then (drop 2 s, Some 0) else (s, None))
         in if ell \<noteq> None \<and> s = [] then Some (Addr6 0 zone)
            else (case ipv6_groups 8 [] ell s of
                 Some (gs, ell', []) \<Rightarrow>
                   map_option (\<lambda>hs. Addr6 (of_int (fold (\<lambda>g n. n * 65536 + g) hs 0)) zone)
                     (ipv6_expand gs ell')
               | _ \<Rightarrow> None))"

text \<open>\<open>ParseAddr\<close> decides the family by the first of \<open>.\<close>, \<open>:\<close> and \<open>%\<close>.\<close>

definition ParseAddr :: "string \<Rightarrow> addr option" where
  "ParseAddr s = (case find (\<lambda>c. c \<in> {CHR ''.'', CHR '':'', CHR ''%''}) s of
      Some c \<Rightarrow> if c = CHR ''.'' then parseIPv4 s
               else if c = CHR '':'' then parseIPv6 s else None
    | None \<Rightarrow> None)"

definition ParsePrefix :: "string \<Rightarrow> pfx option" where
  "ParsePrefix s = (case LastIndexByte s CHR ''/'' of
      None \<Rightarrow> None
    | Some i \<Rightarrow> (case ParseAddr (take i s) of
        None \<Rightarrow> None
      | Some a \<Rightarrow>
          let bits = drop (Suc i) s
          in if Is6 a \<and> hasZone a then None
             else if length bits > 1 \<and> (byte_of (hd bits) < 49 \<or> byte_of (hd bits) > 57) then None
             else (case Atoi bits of
                 None \<Rightarrow> None
               | Some n \<Rightarrow> if n < 0 \<or> n > int (BitLen a) then None
                          else Some (PrefixFrom a (nat n)))))"

section \<open>Facts\<close>

named_theorems netip \<open>equations of the address operations\<close>

lemma addr_simps [simp, netip]:
  "Is4 (Addr4 w)" "\<not> Is4 (Addr6 v z)" "\<not> Is6 (Addr4 w)" "Is6 (Addr6 v z)"
  "\<not> hasZone (Addr4 w)" "hasZone (Addr6 v z) \<longleftrightarrow> z \<noteq> []"
  "BitLen (Addr4 w) = 32" "BitLen (Addr6 v z) = 128"
  "withoutZone (Addr4 w) = Addr4 w" "withoutZone (Addr6 v z) = Addr6 v []"
  by (simp_all add: Is4_def Is6_def hasZone_def BitLen_def withoutZone_def)

lemma withoutZone_facts [simp]:
  "\<not> hasZone (withoutZone a)" "BitLen (withoutZone a) = BitLen a"
  by (cases a; simp)+

lemma withoutZone_id: "\<not> hasZone a \<Longrightarrow> withoutZone a = a"
  by (cases a) auto

lemma Unmap_idem [simp]: "Unmap (Unmap a) = Unmap a"
  by (cases a) (auto simp: Unmap_def)

lemma Unmap_not_4in6 [simp]: "\<not> Is4In6 (Unmap a)"
  by (cases a) (auto simp: Unmap_def Is4In6_def)

lemma Unmap_Addr4 [simp]: "Unmap (Addr4 w) = Addr4 w"
  by (simp add: Unmap_def)

lemma PfxContains_zone: "hasZone a \<Longrightarrow> \<not> PfxContains p a"
  by (simp add: PfxContains_def)

lemma drop_push_drop [simp]:
  "drop_bit k (push_bit k (drop_bit k (v :: 'a :: len word))) = drop_bit k v"
  by (rule bit_eqI) (auto simp: bit_drop_bit_eq bit_push_bit_iff dest: bit_imp_le_length)

lemma xor_zero_iff: "(v XOR w = 0) = (v = (w :: 'a :: len word))"
  by (metis xor.left_neutral xor.right_neutral xor_self_eq xor.assoc)

lemma PfxContains_Masked [simp]: "valid_pfx p \<Longrightarrow> PfxContains (Masked p) a = PfxContains p a"
  by (cases "pfx_addr p"; cases a)
     (auto simp: PfxContains_def Masked_def valid_pfx_def xor_zero_iff drop_bit_xor)

lemma valid_PrefixFrom [simp]: "valid_pfx (PrefixFrom a n) \<longleftrightarrow> n \<le> BitLen a"
  by (cases a) (auto simp: valid_pfx_def PrefixFrom_def)

lemma valid_Masked [simp]: "valid_pfx p \<Longrightarrow> valid_pfx (Masked p)"
  by (cases "pfx_addr p") (auto simp: valid_pfx_def Masked_def)

text \<open>A full-length prefix holds exactly its address.\<close>

lemma PfxContains_host:
  "PfxContains (PrefixFrom a (BitLen a)) b \<longleftrightarrow> \<not> hasZone b \<and> b = withoutZone a"
  by (cases a; cases b) (auto simp: PfxContains_def PrefixFrom_def valid_pfx_def xor_zero_iff)

lemma ParsePrefix_valid: "ParsePrefix s = Some p \<Longrightarrow> valid_pfx p"
  by (auto simp: ParsePrefix_def Let_def nat_le_iff split: option.splits if_splits)

lemma AddrPrefix_contains: "AddrPrefix a n = Some p \<Longrightarrow> \<not> hasZone a \<Longrightarrow> PfxContains p a"
  by (cases a) (auto simp: AddrPrefix_def PfxContains_def PrefixFrom_def valid_pfx_def Masked_def
      xor_zero_iff drop_bit_xor split: if_splits)

text \<open>What a successful parse says of the text.\<close>

lemma parseIPv4_Is4: "parseIPv4 s = Some a \<Longrightarrow> Is4 a"
  by (auto simp: parseIPv4_def)

lemma parseIPv6_Is6: "parseIPv6 s = Some a \<Longrightarrow> Is6 a"
  by (auto simp: parseIPv6_def Let_def split: option.splits prod.splits if_splits list.splits)

lemma ParseAddr_cases:
  assumes "ParseAddr s = Some a"
  obtains "CHR ''.'' \<in> set s" "parseIPv4 s = Some a" | "CHR '':'' \<in> set s" "parseIPv6 s = Some a"
  using assms by (auto simp: ParseAddr_def split: option.splits if_splits dest!: find_SomeD)

lemma ParseAddr_colon: "ParseAddr s = Some a \<Longrightarrow> Is6 a \<Longrightarrow> CHR '':'' \<in> set s"
  by (erule ParseAddr_cases) (auto dest: parseIPv4_Is4 simp: Is4_def Is6_def split: addr.splits)

lemma ParseAddr_no_mark:
  "CHR ''.'' \<notin> set s \<Longrightarrow> CHR '':'' \<notin> set s \<Longrightarrow> ParseAddr s = None"
  by (cases "ParseAddr s") (auto elim: ParseAddr_cases)

section \<open>Parsing does not depend on letter case\<close>

definition lowerZone :: "addr \<Rightarrow> addr" where
  "lowerZone a = (case a of Addr4 w \<Rightarrow> Addr4 w | Addr6 w z \<Rightarrow> Addr6 w (ToLower z))"

lemma lowerByte_eq: "\<not> isLower d \<Longrightarrow> \<not> isUpper d \<Longrightarrow> lowerByte c = d \<longleftrightarrow> c = d"
  by (auto simp: lowerByte_def isLower_def isUpper_def)

lemma lowerByte_marks [simp]:
  "lowerByte c = CHR ''.'' \<longleftrightarrow> c = CHR ''.''" "lowerByte c = CHR '':'' \<longleftrightarrow> c = CHR '':''"
  "lowerByte c = CHR ''%'' \<longleftrightarrow> c = CHR ''%''" "lowerByte c = CHR ''/'' \<longleftrightarrow> c = CHR ''/''"
  "lowerByte c = CHR ''-'' \<longleftrightarrow> c = CHR ''-''" "lowerByte c = CHR ''+'' \<longleftrightarrow> c = CHR ''+''"
  by (rule lowerByte_eq; simp add: isLower_def isUpper_def)+

lemma lowerByte_marks_sym [simp]:
  "CHR ''.'' = lowerByte c \<longleftrightarrow> c = CHR ''.''" "CHR '':'' = lowerByte c \<longleftrightarrow> c = CHR '':''"
  by (metis lowerByte_marks)+

lemma lowerByte_mark_ids [simp]:
  "lowerByte CHR ''.'' = CHR ''.''" "lowerByte CHR '':'' = CHR '':''" "lowerByte CHR ''%'' = CHR ''%''"
  "lowerByte CHR ''/'' = CHR ''/''"
  by simp_all

lemma isDigit_lower [simp]: "isDigit (lowerByte c) = isDigit c"
  by (auto simp: lowerByte_def isUpper_def isDigit_def)

lemma lowerByte_digit: "isDigit c \<Longrightarrow> lowerByte c = c"
  by (auto simp: lowerByte_def isUpper_def isDigit_def)

lemma hexVal_lower [simp]: "hexVal (lowerByte c) = hexVal c"
  by (auto simp: hexVal_def lowerByte_def isUpper_def isDigit_def)

lemma ipv4_fields_lower [simp]: "ipv4_fields v d fs b (ToLower s) = ipv4_fields v d fs b s"
  by (induction v d fs b s rule: ipv4_fields.induct) (auto simp: lowerByte_digit)

lemma hex_group_lower [simp]:
  "hex_group off acc (ToLower s) = map_option (\<lambda>(o1, a, r). (o1, a, ToLower r)) (hex_group off acc s)"
  by (induction off acc s rule: hex_group.induct) (auto split: option.splits)

lemma hd_tl_ToLower: "s \<noteq> [] \<Longrightarrow> hd (ToLower s) = lowerByte (hd s)" "tl (ToLower s) = ToLower (tl s)"
  by (simp_all add: ToLower_def hd_map map_tl)

lemma ipv6_groups_lower:
  "ipv6_groups n gs ell (ToLower s) = map_option (\<lambda>(g, e, r). (g, e, ToLower r)) (ipv6_groups n gs ell s)"
proof (induction n arbitrary: gs ell s)
  case 0
  then show ?case by simp
next
  case (Suc n)
  have v4: "(case parseIPv4Fields s of Some [a, b, c, d] \<Rightarrow> Some (f a b c d, ell, []) | _ \<Rightarrow> None) =
      map_option (\<lambda>(g, e, r). (g, e, ToLower r))
        (case parseIPv4Fields s of Some [a, b, c, d] \<Rightarrow> Some (f a b c d, ell, []) | _ \<Rightarrow> None)" for f
    by (simp split: option.splits list.splits)
  have p: "parseIPv4Fields (ToLower s) = parseIPv4Fields s" by (simp add: parseIPv4Fields_def)
  show ?case
  proof (cases "hex_group 0 0 s")
    case None
    then show ?thesis by simp
  next
    case (Some t)
    obtain off acc rest where t: "t = (off, acc, rest)" by (cases t)
    consider "rest = []" | c where "rest = [c]" | c d ds where "rest = c # d # ds"
      by (cases rest; cases "tl rest") auto
    then show ?thesis
    proof cases
      case (3 c d ds)
      have IH: "ipv6_groups n gs ell (lowerByte d # ToLower ds) =
        map_option (\<lambda>(g, e, r). (g, e, ToLower r)) (ipv6_groups n gs ell (d # ds))" for gs ell
        using Suc.IH [of gs ell "d # ds"] by simp
      from 3 Some t show ?thesis by (simp only: ipv6_groups.simps) (simp add: p v4 [symmetric] IH Suc.IH)
    qed (use Some t in \<open>simp_all only: ipv6_groups.simps, simp_all add: p v4 [symmetric]\<close>)
  qed
qed

lemma Cut_lower:
  "Cut (ToLower s) CHR ''%'' = map_option (\<lambda>(a, b). (ToLower a, ToLower b)) (Cut s CHR ''%'')"
proof -
  have "IndexByte (ToLower s) CHR ''%'' = IndexByte s CHR ''%''"
    by (induction s) auto
  then show ?thesis by (cases "IndexByte s CHR ''%''") (auto simp: Cut_def ToLower_def take_map drop_map)
qed

lemma prefix_colons_lower: "prefix ''::'' (ToLower s) = prefix ''::'' s"
  by (cases s; cases "tl s") auto

lemma drop_ToLower: "drop n (ToLower s) = ToLower (drop n s)" "take n (ToLower s) = ToLower (take n s)"
  by (simp_all add: ToLower_def drop_map take_map)

definition ipv6_body :: "string \<Rightarrow> string \<Rightarrow> addr option" where
  "ipv6_body s zone =
     (let (s, ell) = (if prefix ''::'' s then (drop 2 s, Some 0) else (s, None))
      in if ell \<noteq> None \<and> s = [] then Some (Addr6 0 zone)
         else (case ipv6_groups 8 [] ell s of
              Some (gs, ell', []) \<Rightarrow>
                map_option (\<lambda>hs. Addr6 (of_int (fold (\<lambda>g n. n * 65536 + g) hs 0)) zone)
                  (ipv6_expand gs ell')
            | _ \<Rightarrow> None))"

lemma parseIPv6_body:
  "parseIPv6 s = (case Cut s CHR ''%'' of None \<Rightarrow> ipv6_body s []
     | Some (a, z) \<Rightarrow> if z = [] then None else ipv6_body a z)"
  by (simp add: parseIPv6_def ipv6_body_def split: option.splits prod.splits)

lemma ipv6_body_lower: "ipv6_body (ToLower s) (ToLower z) = map_option lowerZone (ipv6_body s z)"
proof -
  have g: "(case ipv6_groups 8 [] ell (ToLower t) of
       Some (gs, ell', []) \<Rightarrow> map_option (\<lambda>hs. Addr6 (f hs) (ToLower z)) (ipv6_expand gs ell') | _ \<Rightarrow> None) =
     map_option lowerZone (case ipv6_groups 8 [] ell t of
       Some (gs, ell', []) \<Rightarrow> map_option (\<lambda>hs. Addr6 (f hs) z) (ipv6_expand gs ell') | _ \<Rightarrow> None)" for ell t f
    by (simp only: ipv6_groups_lower)
       (auto simp: lowerZone_def option.map_comp comp_def split: option.splits list.splits)
  show ?thesis
    by (simp only: ipv6_body_def prefix_colons_lower drop_ToLower Let_def split: if_split)
       (auto simp: g lowerZone_def simp del: ipv6_groups.simps)
qed

lemma parseIPv6_lower: "parseIPv6 (ToLower s) = map_option lowerZone (parseIPv6 s)"
  using ipv6_body_lower [of _ "[]"]
  by (auto simp: parseIPv6_body Cut_lower ipv6_body_lower split: option.splits)

lemma find_mark_lower:
  "find (\<lambda>c. c \<in> {CHR ''.'', CHR '':'', CHR ''%''}) (ToLower s) =
   find (\<lambda>c. c \<in> {CHR ''.'', CHR '':'', CHR ''%''}) s"
  by (induction s) auto

lemma ParseAddr_lower: "ParseAddr (ToLower s) = map_option lowerZone (ParseAddr s)"
proof -
  have "parseIPv4 (ToLower s) = map_option lowerZone (parseIPv4 s)"
    by (auto simp: parseIPv4_def parseIPv4Fields_def option.map_comp comp_def lowerZone_def)
  then show ?thesis
    by (simp only: ParseAddr_def find_mark_lower parseIPv6_lower split: option.splits if_splits) simp
qed

lemma LastIndexByte_slash_lower: "LastIndexByte (ToLower s) CHR ''/'' = LastIndexByte s CHR ''/''"
proof -
  have "IndexByte (ToLower t) CHR ''/'' = IndexByte t CHR ''/''" for t by (induction t) auto
  from this [of "rev s"] show ?thesis by (simp add: LastIndexByte_def ToLower_def rev_map)
qed

lemma dec_val_lower [simp]: "dec_val n (ToLower s) = dec_val n s"
  by (induction n s rule: dec_val.induct) (auto simp: lowerByte_digit)

lemma Atoi_lower: "Atoi (ToLower s) = Atoi s"
proof -
  have p: "parse_dec (ToLower t) = parse_dec t" for t by (simp add: parse_dec_def)
  show ?thesis
  proof (cases s)
    case Nil
    then show ?thesis by simp
  next
    case (Cons c cs)
    then show ?thesis using p [of s] p [of cs] by (simp add: Atoi_def)
  qed
qed

lemma lowerZone_facts [simp]:
  "Is6 (lowerZone a) = Is6 a" "hasZone (lowerZone a) = hasZone a" "BitLen (lowerZone a) = BitLen a"
  by (cases a; simp add: lowerZone_def)+

lemma digit19_lower: "(byte_of (lowerByte c) < 49 \<or> 57 < byte_of (lowerByte c)) = (byte_of c < 49 \<or> 57 < byte_of c)"
  by (auto simp: lowerByte_def isUpper_def)

lemma ParsePrefix_lower: "ParsePrefix (ToLower s) = None \<longleftrightarrow> ParsePrefix s = None"
proof (cases "LastIndexByte s CHR ''/''")
  case None
  then show ?thesis by (simp add: ParsePrefix_def LastIndexByte_slash_lower)
next
  case (Some i)
  have "drop (Suc i) s \<noteq> [] \<Longrightarrow> hd (ToLower (drop (Suc i) s)) = lowerByte (hd (drop (Suc i) s))"
    by (rule hd_tl_ToLower)
  then show ?thesis using Some
    by (cases "drop (Suc i) s = []")
       (auto simp: ParsePrefix_def LastIndexByte_slash_lower drop_ToLower ParseAddr_lower Atoi_lower
          digit19_lower Let_def split: option.splits)
qed

end
