(* ===== verification/First_Match.thy ===== *)
theory First_Match
  imports Sbx_Prelude
begin

text \<open>
  First match in list order, and the index that answers it without walking the list. A rule table
  is indexed by the key each rule names, keeping the position of the first rule for a key; a query
  asks every key that covers it and takes the lowest position. The locale \<open>first_match_index\<close> is the
  contract between such an index and its client: when the candidate keys of a query are exactly the
  keys that cover it, the lowest position found is the first matching rule.
\<close>

fun first_index :: "('a \<Rightarrow> bool) \<Rightarrow> 'a list \<Rightarrow> nat option" where
  "first_index P [] = None"
| "first_index P (x # xs) = (if P x then Some 0 else map_option Suc (first_index P xs))"

lemma first_index_SomeD:
  "first_index P xs = Some i \<Longrightarrow> i < length xs \<and> P (xs ! i) \<and> (\<forall>j < i. \<not> P (xs ! j))"
proof (induction xs arbitrary: i)
  case Nil
  then show ?case by simp
next
  case (Cons x xs)
  show ?case
  proof (cases "P x")
    case True
    with Cons.prems show ?thesis by auto
  next
    case False
    with Cons.prems obtain j where j: "first_index P xs = Some j" "i = Suc j" by auto
    from Cons.IH [OF j(1)] False j(2) show ?thesis by (auto simp: less_Suc_eq_0_disj)
  qed
qed

lemma first_index_None: "first_index P xs = None \<longleftrightarrow> (\<forall>x \<in> set xs. \<not> P x)"
  by (induction xs) auto

lemma first_index_SomeI:
  assumes "i < length xs" "P (xs ! i)" "\<And>j. j < i \<Longrightarrow> \<not> P (xs ! j)"
  shows "first_index P xs = Some i"
proof (cases "first_index P xs")
  case None
  with assms show ?thesis by (auto simp: first_index_None)
next
  case (Some k)
  with first_index_SomeD [OF Some] assms have "k = i" by (metis linorder_neqE_nat)
  with Some show ?thesis by simp
qed

lemma first_index_snoc:
  "first_index P (xs @ [x]) = (case first_index P xs of
     Some i \<Rightarrow> Some i | None \<Rightarrow> if P x then Some (length xs) else None)"
  by (induction xs) (auto split: option.splits)

lemma first_index_find: "map_option (\<lambda>i. xs ! i) (first_index P xs) = find P xs"
  by (induction xs) (auto simp: option.map_comp comp_def)

section \<open>Picking the lowest position\<close>

type_synonym 'a indexed = "nat \<times> 'a"

definition pick :: "('k \<Rightarrow> 'a indexed option) \<Rightarrow> 'k \<Rightarrow> 'a indexed option \<Rightarrow> 'a indexed option" where
  "pick idx k best = (case idx k of
      None \<Rightarrow> best
    | Some r \<Rightarrow> (case best of None \<Rightarrow> Some r | Some b \<Rightarrow> if fst r < fst b then Some r else best))"

definition indexes :: "('r \<Rightarrow> 'k option) \<Rightarrow> ('r \<Rightarrow> 'a) \<Rightarrow> 'r list \<Rightarrow> ('k \<Rightarrow> 'a indexed option) \<Rightarrow> bool" where
  "indexes pat act rs idx \<longleftrightarrow>
     (\<forall>k. idx k = map_option (\<lambda>i. (i, act (rs ! i))) (first_index (\<lambda>r. pat r = Some k) rs))"

lemma pick_keeps:
  assumes "best = Some (i, a)" "\<And>k j b. k \<in> set ks \<Longrightarrow> idx k = Some (j, b) \<Longrightarrow> i \<le> j"
  shows "fold (pick idx) ks best = Some (i, a)"
  using assms
proof (induction ks arbitrary: best)
  case Nil
  then show ?case by simp
next
  case (Cons k ks)
  have "pick idx k best = Some (i, a)"
    using Cons.prems(1) Cons.prems(2) [of k] by (auto simp: pick_def split: option.splits)
  then show ?case using Cons.IH [of "pick idx k best"] Cons.prems(2) by auto
qed

lemma pick_none: "(\<And>k. k \<in> set ks \<Longrightarrow> idx k = None) \<Longrightarrow> fold (pick idx) ks best = best"
  by (induction ks arbitrary: best) (auto simp: pick_def)

lemma pick_min:
  assumes "k \<in> set ks" "idx k = Some (i, a)"
    and "\<And>k' j b. k' \<in> set ks \<Longrightarrow> idx k' = Some (j, b) \<Longrightarrow> i \<le> j \<and> (j = i \<longrightarrow> b = a)"
    and "\<And>j b. best = Some (j, b) \<Longrightarrow> i \<le> j \<and> (j = i \<longrightarrow> b = a)"
  shows "fold (pick idx) ks best = Some (i, a)"
  using assms
proof (induction ks arbitrary: best)
  case Nil
  then show ?case by simp
next
  case (Cons k0 ks)
  have le: "i \<le> j" if "k' \<in> set ks" "idx k' = Some (j, b)" for k' j b
    using Cons.prems(3) [of k' j b] that by auto
  show ?case
  proof (cases "pick idx k0 best = Some (i, a)")
    case True
    then show ?thesis using pick_keeps [OF True, of ks] le by simp
  next
    case False
    then have "k0 \<noteq> k" using Cons.prems(2,4)
      by (auto simp: pick_def split: option.splits if_splits)
    then have k: "k \<in> set ks" using Cons.prems(1) by simp
    have low: "i \<le> j \<and> (j = i \<longrightarrow> b = a)" if "pick idx k0 best = Some (j, b)" for j b
      using that Cons.prems(3) [of k0 j b] Cons.prems(4) [of j b]
      by (auto simp: pick_def split: option.splits if_splits)
    have "fold (pick idx) ks (pick idx k0 best) = Some (i, a)"
    proof (rule Cons.IH [OF k Cons.prems(2) _ low])
      show "i \<le> j \<and> (j = i \<longrightarrow> b = a)" if "k' \<in> set ks" "idx k' = Some (j, b)" for k' j b
        using Cons.prems(3) [of k' j b] that by simp
    qed
    then show ?thesis by simp
  qed
qed

section \<open>The interface\<close>

locale first_match_index =
  fixes covers :: "'k \<Rightarrow> 'q \<Rightarrow> bool" and keys :: "'q \<Rightarrow> 'k list"
  assumes keys: "k \<in> set (keys q) \<longleftrightarrow> covers k q"
begin

lemma best_is_first:
  assumes idx: "indexes pat act rs idx"
  shows "fold (pick idx) (keys q) None =
    map_option (\<lambda>i. (i, act (rs ! i))) (first_index (\<lambda>r. \<exists>k. pat r = Some k \<and> covers k q) rs)"
proof (cases "first_index (\<lambda>r. \<exists>k. pat r = Some k \<and> covers k q) rs")
  case None
  have "idx k = None" if "k \<in> set (keys q)" for k
  proof -
    from that None have "first_index (\<lambda>r. pat r = Some k) rs = None"
      by (auto simp: first_index_None keys)
    with idx show ?thesis by (simp add: indexes_def)
  qed
  with None show ?thesis by (simp add: pick_none)
next
  case (Some i)
  from first_index_SomeD [OF Some] obtain k
    where i: "i < length rs" "pat (rs ! i) = Some k" "covers k q"
      and first: "\<And>j k'. j < i \<Longrightarrow> pat (rs ! j) = Some k' \<Longrightarrow> \<not> covers k' q" by blast
  have "first_index (\<lambda>r. pat r = Some k) rs = Some i"
    using i first by (intro first_index_SomeI) auto
  with idx have k: "idx k = Some (i, act (rs ! i))" by (simp add: indexes_def)
  have low: "i \<le> j \<and> (j = i \<longrightarrow> b = act (rs ! i))" if k': "k' \<in> set (keys q)" "idx k' = Some (j, b)" for k' j b
  proof -
    from k'(2) idx have j: "first_index (\<lambda>r. pat r = Some k') rs = Some j" "b = act (rs ! j)"
      by (auto simp: indexes_def)
    from first_index_SomeD [OF j(1)] have "pat (rs ! j) = Some k'" by simp
    with first k'(1) have "\<not> j < i" by (auto simp: keys)
    with j(2) show ?thesis by auto
  qed
  have "fold (pick idx) (keys q) None = Some (i, act (rs ! i))"
  proof (rule pick_min)
    show "k \<in> set (keys q)" using i(3) by (simp add: keys)
    show "idx k = Some (i, act (rs ! i))" by (rule k)
  qed (use low in auto)
  with Some show ?thesis by simp
qed

lemma best_action:
  assumes "indexes pat act rs idx"
  shows "map_option snd (fold (pick idx) (keys q) None) =
    map_option act (find (\<lambda>r. \<exists>k. pat r = Some k \<and> covers k q) rs)"
  unfolding best_is_first [OF assms] by (simp add: option.map_comp comp_def flip: first_index_find)

end

end
