(* ===== verification/Egress_Policy.thy ===== *)
theory Egress_Policy
  imports Go_Netip First_Match
begin

text \<open>
  The network policy of the egress filter: \<^verbatim>\<open>internal/egress/policy.go\<close>. Rules and policies, their
  validation and normal form, PATCH and DELETE, the compiled form the filter asks, the address
  rules, and the port grants of an \<^verbatim>\<open>egress_allow\<close> list. JSON decoding and the content hash are
  parameters of the operations that use them. Errors are values that carry what the message prints.
\<close>

section \<open>Data\<close>

definition ActionAllow :: string where "ActionAllow = ''allow''"
definition ActionDeny :: string where "ActionDeny = ''deny''"

record rule =
  rule_Action :: string
  rule_Target :: string

record policy =
  policy_DefaultAction :: string
  policy_Egress :: "rule list"

definition mk_rule :: "string \<Rightarrow> string \<Rightarrow> rule" where
  "mk_rule a t = \<lparr>rule_Action = a, rule_Target = t\<rparr>"

definition mk_policy :: "string \<Rightarrow> rule list \<Rightarrow> policy" where
  "mk_policy d rs = \<lparr>policy_DefaultAction = d, policy_Egress = rs\<rparr>"

datatype domain_error = Not_bare_host | Bad_wildcard | Bad_name string

datatype policy_error =
    Bad_json string
  | Bad_default string
  | Bad_action string string
  | Empty_target
  | Bad_target string domain_error
  | Empty_patch
  | Empty_delete

definition DenyAll :: policy where "DenyAll = mk_policy ActionDeny []"

section \<open>Validation and normal form\<close>

definition domain_byte :: "char \<Rightarrow> bool" where
  "domain_byte c = (c = CHR ''-'' \<or> c = CHR ''_'' \<or> isDigit c \<or> isLower c \<or> isUpper c)"

definition validDomain :: "string \<Rightarrow> (domain_error, unit) res" where
  "validDomain t = (let name = TrimSuffix (TrimPrefix t ''*.'') ''.'' in
     if Contains t ''://'' \<or> ContainsAny t ''/:@ '' then Inl Not_bare_host
     else if name = [] \<or> CHR ''*'' \<in> set name then Inl Bad_wildcard
     else check_all (\<lambda>label.
            if label = [] \<or> length label > 63 then Inl (Bad_name t)
            else if list_all domain_byte label then Inr () else Inl (Bad_name t))
          (Split name CHR ''.''))"

definition rule_normalize :: "rule \<Rightarrow> (policy_error, rule) res" where
  "rule_normalize r =
     (let a0 = ToLower (TrimSpace (rule_Action r));
          t = TrimSpace (rule_Target r);
          a = (if a0 = [] then ActionDeny else a0)
      in if a \<noteq> ActionAllow \<and> a \<noteq> ActionDeny then Inl (Bad_action (rule_Target r) (rule_Action r))
         else if t = [] then Inl Empty_target
         else if ParseAddr t \<noteq> None then Inr (mk_rule a t)
         else if ParsePrefix t \<noteq> None then Inr (mk_rule a t)
         else (case validDomain t of Inl e \<Rightarrow> Inl (Bad_target t e) | Inr _ \<Rightarrow> Inr (mk_rule a t)))"

definition Normalize :: "policy \<Rightarrow> (policy_error, policy) res" where
  "Normalize p =
     (let d0 = ToLower (TrimSpace (policy_DefaultAction p));
          d = (if d0 = [] then ActionDeny else d0)
      in if d \<noteq> ActionAllow \<and> d \<noteq> ActionDeny then Inl (Bad_default (policy_DefaultAction p))
         else bind_res (traverse rule_normalize (policy_Egress p)) (\<lambda>rs. Inr (mk_policy d rs)))"

text \<open>The JSON decoders are arguments: \<open>decode\<close> is the strict decoder of the package
  \<^verbatim>\<open>encoding/json\<close> into the type, with its error text.\<close>

definition ParsePolicy :: "(string \<Rightarrow> (string, policy) res) \<Rightarrow> string \<Rightarrow> (policy_error, policy) res" where
  "ParsePolicy decode raw = (let trimmed = TrimSpace raw in
     if trimmed = [] \<or> trimmed = ''null'' \<or> trimmed = ''{}'' then Inr DenyAll
     else (case decode trimmed of Inl e \<Rightarrow> Inl (Bad_json e) | Inr p \<Rightarrow> Normalize p))"

definition ParseRules :: "(string \<Rightarrow> (string, rule list) res) \<Rightarrow> string \<Rightarrow> (policy_error, rule list) res" where
  "ParseRules decode raw = (case decode (TrimSpace raw) of
      Inl e \<Rightarrow> Inl (Bad_json e)
    | Inr rules \<Rightarrow> if rules = [] then Inl Empty_patch else traverse rule_normalize rules)"

definition ParseTargets :: "(string \<Rightarrow> (string, string list) res) \<Rightarrow> string \<Rightarrow> (policy_error, string list) res" where
  "ParseTargets decode raw = (case decode (TrimSpace raw) of
      Inl e \<Rightarrow> Inl (Bad_json e)
    | Inr ts \<Rightarrow> if ts = [] then Inl Empty_delete else Inr ts)"

section \<open>PATCH, DELETE, summary\<close>

definition rule_key :: "rule \<Rightarrow> string" where "rule_key r = ToLower (rule_Target r)"

definition Merge :: "policy \<Rightarrow> rule list \<Rightarrow> policy" where
  "Merge p rules =
     mk_policy (policy_DefaultAction p) (keep_first rule_key [] (rules @ policy_Egress p))"

definition Remove :: "policy \<Rightarrow> string list \<Rightarrow> policy \<times> nat" where
  "Remove p targets =
     (let drop_set = filter (\<lambda>t. t \<noteq> []) (map (\<lambda>t. ToLower (TrimSpace t)) targets);
          kept = filter (\<lambda>r. rule_key r \<notin> set drop_set) (policy_Egress p)
      in (mk_policy (policy_DefaultAction p) kept, length (policy_Egress p) - length kept))"

definition Mode :: "policy \<Rightarrow> string" where
  "Mode p = (if policy_Egress p = [] \<and> policy_DefaultAction p = ActionAllow then ''allow_all''
     else if policy_Egress p = [] then ''deny_all'' else ''enforcing'')"

definition EnforcementMode :: string where "EnforcementMode = ''proxy''"

record status =
  st_Status :: string
  st_Mode :: string
  st_EnforcementMode :: string
  st_Reason :: string
  st_Policy :: policy

definition StatusOf :: "policy \<Rightarrow> string \<Rightarrow> status" where
  "StatusOf p reason = \<lparr>st_Status = ''ok'', st_Mode = Mode p,
     st_EnforcementMode = EnforcementMode, st_Reason = reason, st_Policy = p\<rparr>"

section \<open>An allow list as a policy\<close>

definition allow_entry_host :: "string \<Rightarrow> string" where
  "allow_entry_host a0 =
     (let a = ToLower (TrimSpace a0);
          h = (case SplitHostPort a of Inr (h, _) \<Rightarrow> h | Inl _ \<Rightarrow> a)
      in TrimSuffix h ''.'')"

definition allow_entry_targets :: "string \<Rightarrow> string list" where
  "allow_entry_targets a0 = (let a = allow_entry_host a0 in
     if a = [] then []
     else if ParseAddr a \<noteq> None then [a]
     else if ParsePrefix a \<noteq> None then [a]
     else if HasPrefix a ''*.'' then [a] else [a, ''*.'' @ a])"

definition FromAllowList :: "string list \<Rightarrow> policy" where
  "FromAllowList allow = mk_policy ActionDeny
     (map (mk_rule ActionAllow) (keep_first (\<lambda>t. t) [] (concat (map allow_entry_targets allow))))"

section \<open>The compiled policy\<close>

type_synonym compiledRule = "string indexed"

record compiled =
  c_p :: policy
  c_exact :: "string \<Rightarrow> compiledRule option"
  c_wild :: "string \<Rightarrow> compiledRule option"
  c_deny :: "pfx list"
  c_allow :: "pfx list"

definition unmapPrefix :: "pfx \<Rightarrow> pfx" where
  "unmapPrefix p = (if \<not> Is4In6 (pfx_addr p) \<or> pfx_bits p < 96 then p
     else PrefixFrom (Unmap (pfx_addr p)) (pfx_bits p - 96))"

text \<open>The prefix of an address rule, \<open>None\<close> for a domain rule.\<close>

definition rule_prefix :: "rule \<Rightarrow> pfx option" where
  "rule_prefix r = (case ParseAddr (rule_Target r) of
      Some a \<Rightarrow> Some (PrefixFrom (Unmap a) (BitLen (Unmap a)))
    | None \<Rightarrow> map_option (\<lambda>n. unmapPrefix (Masked n)) (ParsePrefix (rule_Target r)))"

definition compile_rule :: "nat \<times> rule \<Rightarrow> compiled \<Rightarrow> compiled" where
  "compile_rule ir c = (case ir of (i, r) \<Rightarrow>
     (case rule_prefix r of
        Some pf \<Rightarrow> if rule_Action r = ActionAllow then c\<lparr>c_allow := c_allow c @ [pf]\<rparr>
                  else c\<lparr>c_deny := c_deny c @ [pf]\<rparr>
      | None \<Rightarrow>
          let t = ToLower (TrimSuffix (rule_Target r) ''.'')
          in if HasPrefix t ''*.'' then
               (let key = drop 1 t in
                if c_wild c key \<noteq> None then c
                else c\<lparr>c_wild := (c_wild c)(key \<mapsto> (i, rule_Action r))\<rparr>)
             else
               (if c_exact c t \<noteq> None then c
                else c\<lparr>c_exact := (c_exact c)(t \<mapsto> (i, rule_Action r))\<rparr>)))"

definition compile :: "policy \<Rightarrow> compiled" where
  "compile p = fold compile_rule (enumerate 0 (policy_Egress p))
     \<lparr>c_p = p, c_exact = (\<lambda>_. None), c_wild = (\<lambda>_. None), c_deny = [], c_allow = []\<rparr>"

text \<open>The loop of \<open>domain\<close>: every suffix of the host that starts at a dot, the lowest index wins.\<close>

function domain_loop :: "(string \<Rightarrow> compiledRule option) \<Rightarrow> string \<Rightarrow> compiledRule option \<Rightarrow> compiledRule option" where
  "domain_loop wild cursor best = (case IndexByte cursor CHR ''.'' of
      None \<Rightarrow> best
    | Some dot \<Rightarrow> domain_loop wild (drop (Suc dot) cursor) (pick wild (drop dot cursor) best))"
  by pat_completeness auto
termination
  by (relation "measure (\<lambda>(w, c, b). length c)") (auto dest: IndexByte_SomeD)

declare domain_loop.simps [simp del]

definition canonical :: "string \<Rightarrow> string" where
  "canonical host = ToLower (TrimSuffix host ''.'')"

text \<open>\<open>Some a\<close> is Go's \<open>(a, true)\<close>.\<close>

definition domain :: "compiled \<Rightarrow> string \<Rightarrow> string option" where
  "domain c host0 = (let host = canonical host0
     in map_option snd (domain_loop (c_wild c) host (c_exact c host)))"

definition allowsName :: "compiled \<Rightarrow> string \<Rightarrow> bool" where
  "allowsName c host = (case domain c host of
      Some action \<Rightarrow> action = ActionAllow
    | None \<Rightarrow> policy_DefaultAction (c_p c) = ActionAllow)"

definition AllowsName :: "policy \<Rightarrow> string \<Rightarrow> bool" where
  "AllowsName p host = allowsName (compile p) host"

section \<open>Addresses\<close>

definition contains :: "pfx list \<Rightarrow> addr \<Rightarrow> bool" where
  "contains s a = list_ex (\<lambda>p. PfxContains p a) s"

definition hostLocal :: "addr \<Rightarrow> bool" where
  "hostLocal a = (IsLoopback a \<or> IsLinkLocalUnicast a \<or> IsLinkLocalMulticast a \<or>
     IsUnspecified a \<or> IsMulticast a \<or> IsInterfaceLocalMulticast a)"

definition HostLocal :: "addr \<Rightarrow> bool" where "HostLocal a = hostLocal (Unmap a)"

definition allowsAddr :: "compiled \<Rightarrow> addr \<Rightarrow> bool" where
  "allowsAddr c a0 = (let a = Unmap a0 in
     if contains (c_deny c) a then False
     else if contains (c_allow c) a then True
     else if hostLocal a then False
     else policy_DefaultAction (c_p c) = ActionAllow)"

definition deniesResolved :: "compiled \<Rightarrow> addr \<Rightarrow> bool" where
  "deniesResolved c a0 = (let a = Unmap a0 in
     if contains (c_deny c) a then True
     else hostLocal a \<and> \<not> contains (c_allow c) a)"

section \<open>Port grants\<close>

definition DefaultPorts :: "int list" where "DefaultPorts = [80, 443]"

record portGrant =
  grant_Target :: string
  grant_Port :: int

definition mk_grant :: "string \<Rightarrow> int \<Rightarrow> portGrant" where
  "mk_grant t n = \<lparr>grant_Target = t, grant_Port = n\<rparr>"

definition grant_String :: "portGrant \<Rightarrow> string" where
  "grant_String g = (case ParseAddr (grant_Target g) of
      Some a \<Rightarrow> if Is6 a then ''['' @ grant_Target g @ '']:'' @ Itoa (grant_Port g)
               else grant_Target g @ '':'' @ Itoa (grant_Port g)
    | None \<Rightarrow> grant_Target g @ '':'' @ Itoa (grant_Port g))"

definition covers :: "portGrant \<Rightarrow> string \<Rightarrow> bool" where
  "covers g host0 = (let host = canonical host0 in
     case ParseAddr host of
       Some a0 \<Rightarrow>
         (let a = Unmap a0 in
          case ParseAddr (grant_Target g) of
            Some t \<Rightarrow> Unmap t = a
          | None \<Rightarrow> (case ParsePrefix (grant_Target g) of
              Some p \<Rightarrow> PfxContains (unmapPrefix (Masked p)) a
            | None \<Rightarrow> False))
     | None \<Rightarrow>
         if HasPrefix (grant_Target g) ''*.''
         then HasSuffix host (''.'' @ drop 2 (grant_Target g))
         else host = grant_Target g \<or> HasSuffix host (''.'' @ grant_Target g))"

definition splitAllowEntry :: "string \<Rightarrow> string \<times> string" where
  "splitAllowEntry entry0 = (let entry = ToLower (TrimSpace entry0) in
     case SplitHostPort entry of
       Inr (h, p) \<Rightarrow> (TrimSuffix h ''.'', p)
     | Inl _ \<Rightarrow> (TrimSuffix entry ''.'', []))"

definition parsePort :: "string \<Rightarrow> int option" where
  "parsePort s = (case Atoi s of
      None \<Rightarrow> None
    | Some n \<Rightarrow> if n < 1 \<or> n > 65535 then None else Some n)"

datatype entry_error = Entry_no_host string | Entry_no_port string | Entry_bad_port string

definition CheckAllowEntry :: "string \<Rightarrow> (entry_error, unit) res" where
  "CheckAllowEntry entry = (case splitAllowEntry entry of (host, port) \<Rightarrow>
     if host = [] then Inl (Entry_no_host entry)
     else if (case SplitHostPort (TrimSpace entry) of Inr (_, p) \<Rightarrow> p = [] | Inl _ \<Rightarrow> False)
       then Inl (Entry_no_port entry)
     else if port = [] then Inr ()
     else if parsePort port = None then Inl (Entry_bad_port entry)
     else Inr ())"

definition allow_entry_grants :: "string \<Rightarrow> portGrant list" where
  "allow_entry_grants a = (case splitAllowEntry a of (host, port) \<Rightarrow>
     if host = [] \<or> port = [] then []
     else (case parsePort port of
         None \<Rightarrow> []
       | Some n \<Rightarrow> if n \<in> set DefaultPorts then [] else [mk_grant host n]))"

definition PortGrantsFromAllowList :: "string list \<Rightarrow> portGrant list" where
  "PortGrantsFromAllowList allow = keep_first (\<lambda>g. g) [] (concat (map allow_entry_grants allow))"

definition FormatPortGrants :: "portGrant list \<Rightarrow> string" where
  "FormatPortGrants grants = Join (map grant_String grants) '',''"

definition ParsePortGrants :: "string \<Rightarrow> (entry_error, portGrant list) res" where
  "ParsePortGrants s =
     (let entries = filter (\<lambda>e. e \<noteq> []) (map TrimSpace (Split s CHR '',''))
      in then_res (check_all CheckAllowEntry entries) (Inr (PortGrantsFromAllowList entries)))"

section \<open>First match\<close>

text \<open>What a rule says of a name, with no index: a domain rule names the host itself, or with a
  leading \<open>*.\<close> every name below it.\<close>

definition name_matches :: "rule \<Rightarrow> string \<Rightarrow> bool" where
  "name_matches r host = (rule_prefix r = None \<and>
     (let t = canonical (rule_Target r)
      in if HasPrefix t ''*.'' then HasSuffix (canonical host) (drop 1 t) else t = canonical host))"

datatype name_key = Exact string | Wild string

definition name_pattern :: "rule \<Rightarrow> name_key option" where
  "name_pattern r = (if rule_prefix r = None
     then Some (let t = canonical (rule_Target r) in if HasPrefix t ''*.'' then Wild (drop 1 t) else Exact t)
     else None)"

fun key_covers :: "name_key \<Rightarrow> string \<Rightarrow> bool" where
  "key_covers (Exact s) h = (s = h)"
| "key_covers (Wild s) h = (s \<noteq> [] \<and> hd s = CHR ''.'' \<and> suffix s h)"

fun dot_suffixes :: "string \<Rightarrow> string list" where
  "dot_suffixes [] = []"
| "dot_suffixes (x # xs) = (if x = CHR ''.'' then [x # xs] else []) @ dot_suffixes xs"

definition name_keys :: "string \<Rightarrow> name_key list" where
  "name_keys h = Exact h # map Wild (dot_suffixes h)"

lemma set_dot_suffixes: "t \<in> set (dot_suffixes s) \<longleftrightarrow> t \<noteq> [] \<and> hd t = CHR ''.'' \<and> suffix t s"
  by (induction s) (auto simp: suffix_Cons)

lemma dot_suffixes_none: "CHR ''.'' \<notin> set s \<Longrightarrow> dot_suffixes s = []"
  by (induction s) auto

lemma dot_suffixes_append: "CHR ''.'' \<notin> set a \<Longrightarrow> dot_suffixes (a @ CHR ''.'' # b) = (CHR ''.'' # b) # dot_suffixes b"
  by (induction a) auto

lemma dot_suffixes_step:
  "IndexByte s CHR ''.'' = Some d \<Longrightarrow> dot_suffixes s = drop d s # dot_suffixes (drop (Suc d) s)"
proof -
  assume d: "IndexByte s CHR ''.'' = Some d"
  from IndexByte_SomeD [OF d] obtain a b
    where "s = a @ CHR ''.'' # b" "CHR ''.'' \<notin> set a" "length a = d" by (metis length_take less_imp_le min.absorb2)
  then show ?thesis by (simp add: dot_suffixes_append)
qed

lemma domain_loop_fold: "domain_loop w cursor best = fold (pick w) (dot_suffixes cursor) best"
proof (induction w cursor best rule: domain_loop.induct)
  case (1 w cursor best)
  show ?case
  proof (cases "IndexByte cursor CHR ''.''")
    case None
    then show ?thesis by (subst domain_loop.simps) (simp add: dot_suffixes_none IndexByte_None)
  next
    case (Some d)
    then show ?thesis by (subst domain_loop.simps) (simp add: dot_suffixes_step 1)
  qed
qed

text \<open>The compiled maps are an index of the rules, so the interface applies to them.\<close>

interpretation name_index: first_match_index key_covers name_keys
proof
  show "k \<in> set (name_keys q) \<longleftrightarrow> key_covers k q" for k q
    by (cases k) (auto simp: name_keys_def set_dot_suffixes)
qed

definition compiled_index :: "compiled \<Rightarrow> name_key \<Rightarrow> compiledRule option" where
  "compiled_index c k = (case k of Exact s \<Rightarrow> c_exact c s | Wild s \<Rightarrow> c_wild c s)"

definition compile_rules :: "rule list \<Rightarrow> compiled \<Rightarrow> compiled" where
  "compile_rules rs c = fold compile_rule (enumerate 0 rs) c"

lemma compile_rules_snoc:
  "compile_rules (rs @ [r]) c = compile_rule (length rs, r) (compile_rules rs c)"
  by (simp add: compile_rules_def enumerate_append_eq)

definition empty_compiled :: "policy \<Rightarrow> compiled" where
  "empty_compiled p = \<lparr>c_p = p, c_exact = (\<lambda>_. None), c_wild = (\<lambda>_. None), c_deny = [], c_allow = []\<rparr>"

lemma compile_alt: "compile p = compile_rules (policy_Egress p) (empty_compiled p)"
  by (simp add: compile_def compile_rules_def empty_compiled_def)

lemma compile_rule_index:
  "compiled_index (compile_rule (i, r) c) k =
     (case compiled_index c k of Some x \<Rightarrow> Some x
      | None \<Rightarrow> if name_pattern r = Some k then Some (i, rule_Action r) else None)"
  by (cases k)
     (auto simp: compile_rule_def compiled_index_def name_pattern_def canonical_def Let_def
        split: option.splits)

lemma compile_indexes: "indexes name_pattern rule_Action rs (compiled_index (compile_rules rs (empty_compiled p)))"
proof (induction rs rule: rev_induct)
  case Nil
  show ?case
    by (auto simp: indexes_def compile_rules_def empty_compiled_def compiled_index_def split: name_key.splits)
next
  case (snoc r rs)
  show ?case
    unfolding indexes_def
  proof
    fix k
    from snoc have "compiled_index (compile_rules rs (empty_compiled p)) k =
        map_option (\<lambda>i. (i, rule_Action (rs ! i))) (first_index (\<lambda>r. name_pattern r = Some k) rs)"
      by (simp add: indexes_def)
    then show "compiled_index (compile_rules (rs @ [r]) (empty_compiled p)) k =
        map_option (\<lambda>i. (i, rule_Action ((rs @ [r]) ! i))) (first_index (\<lambda>r. name_pattern r = Some k) (rs @ [r]))"
      by (auto simp: compile_rules_snoc compile_rule_index first_index_snoc nth_append
          split: option.splits dest: first_index_SomeD)
  qed
qed

lemma compile_rule_parts:
  "c_p (compile_rule (i, r) c) = c_p c"
  "c_deny (compile_rule (i, r) c) = c_deny c @
     (case rule_prefix r of Some pf \<Rightarrow> if rule_Action r = ActionAllow then [] else [pf] | None \<Rightarrow> [])"
  "c_allow (compile_rule (i, r) c) = c_allow c @
     (case rule_prefix r of Some pf \<Rightarrow> if rule_Action r = ActionAllow then [pf] else [] | None \<Rightarrow> [])"
  by (auto simp: compile_rule_def Let_def split: option.splits)

lemma compile_rules_parts:
  "c_p (compile_rules rs c) = c_p c"
  "set (c_deny (compile_rules rs c)) = set (c_deny c) \<union>
     {pf. \<exists>r \<in> set rs. rule_prefix r = Some pf \<and> rule_Action r \<noteq> ActionAllow}"
  "set (c_allow (compile_rules rs c)) = set (c_allow c) \<union>
     {pf. \<exists>r \<in> set rs. rule_prefix r = Some pf \<and> rule_Action r = ActionAllow}"
proof (induction rs rule: rev_induct)
  case Nil
  { case 1 show ?case by (simp add: compile_rules_def)
  next case 2 show ?case by (simp add: compile_rules_def)
  next case 3 show ?case by (simp add: compile_rules_def) }
next
  case (snoc r rs)
  { case 1 show ?case using snoc(1) by (simp add: compile_rules_snoc compile_rule_parts)
  next case 2 show ?case using snoc(2) by (auto simp: compile_rules_snoc compile_rule_parts split: option.splits)
  next case 3 show ?case using snoc(3) by (auto simp: compile_rules_snoc compile_rule_parts split: option.splits) }
qed

lemma c_p_compile [simp]: "c_p (compile p) = p"
  by (simp add: compile_alt compile_rules_parts empty_compiled_def)

lemma domain_as_index: "domain c host = map_option snd (fold (pick (compiled_index c)) (name_keys (canonical host)) None)"
proof -
  have w: "fold (pick (compiled_index c)) (map Wild ts) b = fold (pick (c_wild c)) ts b" for ts b
    by (induction ts arbitrary: b) (auto simp: pick_def compiled_index_def)
  have e: "pick (compiled_index c) (Exact h) None = c_exact c h" for h
    by (simp add: pick_def compiled_index_def split: option.splits)
  show ?thesis by (simp add: domain_def Let_def domain_loop_fold name_keys_def w e)
qed

lemma name_matches_key:
  "name_matches r host \<longleftrightarrow> (\<exists>k. name_pattern r = Some k \<and> key_covers k (canonical host))"
proof -
  have "drop 1 t \<noteq> [] \<and> hd (drop 1 t) = CHR ''.''" if "HasPrefix t ''*.''" for t
    using that by (cases t; cases "tl t") (auto simp: HasPrefix_def)
  then show ?thesis by (auto simp: name_matches_def name_pattern_def Let_def HasSuffix_def)
qed

lemma domain_find: "domain (compile p) host = map_option rule_Action (find (\<lambda>r. name_matches r host) (policy_Egress p))"
  unfolding domain_as_index compile_alt name_index.best_action [OF compile_indexes] name_matches_key ..

lemma contains_iff: "contains s a \<longleftrightarrow> (\<exists>p \<in> set s. PfxContains p a)"
  by (simp add: contains_def list_ex_iff)

text \<open>An address rule that decides an address, as the rule list says it.\<close>

definition addr_matches :: "rule \<Rightarrow> addr \<Rightarrow> bool" where
  "addr_matches r a = (case rule_prefix r of Some pf \<Rightarrow> PfxContains pf (Unmap a) | None \<Rightarrow> False)"

definition addr_denied :: "policy \<Rightarrow> addr \<Rightarrow> bool" where
  "addr_denied p a = list_ex (\<lambda>r. rule_Action r \<noteq> ActionAllow \<and> addr_matches r a) (policy_Egress p)"

definition addr_allowed :: "policy \<Rightarrow> addr \<Rightarrow> bool" where
  "addr_allowed p a = list_ex (\<lambda>r. rule_Action r = ActionAllow \<and> addr_matches r a) (policy_Egress p)"

lemma contains_deny: "contains (c_deny (compile p)) (Unmap a) = addr_denied p a"
  by (auto simp: contains_iff compile_alt compile_rules_parts empty_compiled_def addr_denied_def
      addr_matches_def list_ex_iff split: option.splits)

lemma contains_allow: "contains (c_allow (compile p)) (Unmap a) = addr_allowed p a"
  by (auto simp: contains_iff compile_alt compile_rules_parts empty_compiled_def addr_allowed_def
      addr_matches_def list_ex_iff split: option.splits)

lemma allowsAddr_rules:
  "allowsAddr (compile p) a \<longleftrightarrow> \<not> addr_denied p a \<and>
     (addr_allowed p a \<or> (\<not> hostLocal (Unmap a) \<and> policy_DefaultAction p = ActionAllow))"
  by (simp add: allowsAddr_def Let_def contains_deny contains_allow)

lemma deniesResolved_rules:
  "deniesResolved (compile p) a \<longleftrightarrow> addr_denied p a \<or> (hostLocal (Unmap a) \<and> \<not> addr_allowed p a)"
  by (simp add: deniesResolved_def Let_def contains_deny contains_allow)

lemma allowsName_rules:
  "allowsName (compile p) host = (case find (\<lambda>r. name_matches r host) (policy_Egress p) of
      Some r \<Rightarrow> rule_Action r = ActionAllow
    | None \<Rightarrow> policy_DefaultAction p = ActionAllow)"
  by (simp add: allowsName_def domain_find split: option.splits)

section \<open>Correctness of the policy operations\<close>

lemma canonical_lower: "canonical s = TrimSuffix (ToLower s) ''.''"
proof (cases s rule: rev_cases)
  case Nil
  then show ?thesis by (simp add: canonical_def TrimSuffix_def)
next
  case (snoc ys y)
  then show ?thesis by (auto simp: canonical_def TrimSuffix_dot)
qed

lemma rule_prefix_None:
  "rule_prefix r = None \<longleftrightarrow> ParseAddr (rule_Target r) = None \<and> ParsePrefix (rule_Target r) = None"
  by (auto simp: rule_prefix_def split: option.splits)

lemma name_matches_key_cong: "rule_key r = rule_key r' \<Longrightarrow> name_matches r host = name_matches r' host"
proof -
  assume k: "rule_key r = rule_key r'"
  have "ParseAddr (rule_Target x) = None \<longleftrightarrow> ParseAddr (rule_key x) = None"
    "ParsePrefix (rule_Target x) = None \<longleftrightarrow> ParsePrefix (rule_key x) = None" for x
    by (simp_all add: rule_key_def ParseAddr_lower ParsePrefix_lower)
  then have "rule_prefix r = None \<longleftrightarrow> rule_prefix r' = None" by (simp add: rule_prefix_None k)
  moreover have "canonical (rule_Target r) = canonical (rule_Target r')"
    using k by (simp add: canonical_lower rule_key_def)
  ultimately show ?thesis by (simp add: name_matches_def)
qed

lemma find_append_option: "find P (xs @ ys) = (case find P xs of Some x \<Rightarrow> Some x | None \<Rightarrow> find P ys)"
  by (induction xs) auto

lemma action_consts [simp]:
  "ActionAllow \<noteq> ActionDeny" "ActionDeny \<noteq> ActionAllow" "ActionAllow \<noteq> []" "ActionDeny \<noteq> []"
  "TrimSpace ActionAllow = ActionAllow" "TrimSpace ActionDeny = ActionDeny"
  "ToLower ActionAllow = ActionAllow" "ToLower ActionDeny = ActionDeny"
  by (code_simp)+

lemma mk_simps [simp]:
  "rule_Action (mk_rule a t) = a" "rule_Target (mk_rule a t) = t"
  "policy_DefaultAction (mk_policy d rs) = d" "policy_Egress (mk_policy d rs) = rs"
  "grant_Target (mk_grant t n) = t" "grant_Port (mk_grant t n) = n"
  by (simp_all add: mk_rule_def mk_policy_def mk_grant_def)

lemma rule_normalize_normal:
  "rule_normalize r = Inr r' \<Longrightarrow>
     rule_normalize r' = Inr r' \<and> rule_Action r' \<in> {ActionAllow, ActionDeny} \<and> rule_Target r' \<noteq> []"
proof -
  assume n: "rule_normalize r = Inr r'"
  define t where "t = TrimSpace (rule_Target r)"
  from n have ok: "t \<noteq> []" "rule_Action r' \<in> {ActionAllow, ActionDeny}" "rule_Target r' = t"
    "ParseAddr t \<noteq> None \<or> ParsePrefix t \<noteq> None \<or> validDomain t = Inr ()"
    by (auto simp: rule_normalize_def Let_def t_def split: if_splits sum.splits)
  moreover have "TrimSpace t = t" by (simp add: t_def)
  moreover have "r' = mk_rule (rule_Action r') t" using ok(3) by (simp add: mk_rule_def)
  ultimately show ?thesis by (auto simp: rule_normalize_def Let_def)
qed

lemma traverse_normal:
  assumes "traverse rule_normalize rs = Inr rs'" "r \<in> set rs'"
  shows "rule_normalize r = Inr r \<and> rule_Action r \<in> {ActionAllow, ActionDeny} \<and> rule_Target r \<noteq> []"
  using traverse_set [OF assms] rule_normalize_normal by blast

lemma Normalize_normal:
  assumes "Normalize p = Inr q"
  shows "Normalize q = Inr q \<and> policy_DefaultAction q \<in> {ActionAllow, ActionDeny} \<and>
    (\<forall>r \<in> set (policy_Egress q). rule_Action r \<in> {ActionAllow, ActionDeny} \<and> rule_Target r \<noteq> [])"
proof -
  from assms obtain d rs where d: "d \<in> {ActionAllow, ActionDeny}" and q: "q = mk_policy d rs"
    and rs: "traverse rule_normalize (policy_Egress p) = Inr rs"
    by (auto simp: Normalize_def Let_def bind_res_eq_Inr split: if_splits)
  have "traverse rule_normalize rs = Inr rs"
    using traverse_normal [OF rs] by (intro traverse_id) blast
  then have "Normalize q = Inr q" using d by (auto simp: q Normalize_def Let_def)
  with d traverse_normal [OF rs] show ?thesis by (simp add: q)
qed

text \<open>
  (C1) The compiled index answers exactly first match in list order: for every policy and host name,
  the filter's name decision is the action of the first rule, in the order written, that names the
  host or (with a leading \<open>*.\<close>) a parent of it, and the default when there is none.
\<close>

theorem compiled_is_first_match:
  "AllowsName p host = (case find (\<lambda>r. name_matches r host) (policy_Egress p) of
      Some r \<Rightarrow> rule_Action r = ActionAllow
    | None \<Rightarrow> policy_DefaultAction p = ActionAllow)"
  by (simp add: AllowsName_def allowsName_rules)

text \<open>
  (C2) A PATCH takes effect: after \<open>Merge\<close> the incoming rules decide every name they match, in their
  own order, and every other name is decided as before. Replacing rules case-insensitively and
  dropping duplicates never changes a decision.
\<close>

theorem merge_decides:
  "AllowsName (Merge p rules) host = (case find (\<lambda>r. name_matches r host) rules of
      Some r \<Rightarrow> rule_Action r = ActionAllow
    | None \<Rightarrow> AllowsName p host)"
proof -
  have "find (\<lambda>r. name_matches r host) (policy_Egress (Merge p rules)) =
      find (\<lambda>r. name_matches r host) (rules @ policy_Egress p)"
    using keep_first_find_gen [where key = rule_key and P = "\<lambda>r. name_matches r host", OF name_matches_key_cong,
      of "[]" "rules @ policy_Egress p"]
    by (simp add: Merge_def)
  then show ?thesis
    by (simp add: AllowsName_def allowsName_rules find_append_option Merge_def split: option.splits)
qed

text \<open>
  (C36) Normal form: a policy that \<open>Normalize\<close> accepts is returned with explicit lower-case actions
  and non-empty targets, and normalizing the result changes nothing.
\<close>

theorem normalize_normal_form:
  assumes "Normalize p = Inr q"
  shows "Normalize q = Inr q \<and> policy_DefaultAction q \<in> {ActionAllow, ActionDeny} \<and>
    (\<forall>r \<in> set (policy_Egress q). rule_Action r \<in> {ActionAllow, ActionDeny} \<and> rule_Target r \<noteq> [])"
  using Normalize_normal [OF assms] .

theorem normalize_normal_form_witness:
  "let q = mk_policy ActionAllow [mk_rule ActionDeny ''*.Example.com''] in
     Normalize (mk_policy '' ALLOW'' [mk_rule '''' '' *.Example.com '']) = Inr q \<and> Normalize q = Inr q"
proof -
  have h: "Normalize (mk_policy '' ALLOW'' [mk_rule '''' '' *.Example.com '']) =
      Inr (mk_policy ActionAllow [mk_rule ActionDeny ''*.Example.com''])" by code_simp
  with normalize_normal_form [OF h] show ?thesis by (simp add: Let_def)
qed

text \<open>
  (C20) Address rules: an address literal is refused when any deny rule holds it, whatever the order,
  then permitted by any allow rule that holds it, and otherwise by the default, which never opens
  a host-local address. An address a permitted name resolves to is refused by the same deny rules.
\<close>

theorem deny_before_allow:
  "allowsAddr (compile p) a = (\<not> addr_denied p a \<and>
     (addr_allowed p a \<or> (\<not> HostLocal a \<and> policy_DefaultAction p = ActionAllow))) \<and>
   deniesResolved (compile p) a = (addr_denied p a \<or> (HostLocal a \<and> \<not> addr_allowed p a))"
  by (simp add: allowsAddr_rules deniesResolved_rules HostLocal_def)

text \<open>
  An IPv6 literal written with a zone is outside every address rule: no prefix holds it, so
  under an allow default it passes whatever the policy denies, unless it is host-local.
\<close>

theorem zone_escapes_deny_rules:
  assumes "hasZone (Unmap a)" and "\<not> HostLocal a" and "policy_DefaultAction p = ActionAllow"
  shows "allowsAddr (compile p) a \<and> \<not> deniesResolved (compile p) a"
proof -
  from assms(1) have "\<not> addr_denied p a"
    by (auto simp: addr_denied_def addr_matches_def list_ex_iff PfxContains_zone split: option.splits)
  with assms show ?thesis by (simp add: allowsAddr_rules deniesResolved_rules HostLocal_def)
qed

theorem zone_escapes_deny_rules_witness:
  "let p = mk_policy ActionAllow [mk_rule ActionDeny ''2001:db8::/32'']
   in \<not> allowsAddr (compile p) (the (ParseAddr ''2001:db8::1'')) \<and>
      allowsAddr (compile p) (the (ParseAddr ''2001:db8::1%eth0''))"
proof -
  have 1: "hasZone (Unmap (the (ParseAddr ''2001:db8::1%eth0'')))" by code_simp
  have 2: "\<not> HostLocal (the (ParseAddr ''2001:db8::1%eth0''))" by code_simp
  have 3: "\<not> allowsAddr (compile (mk_policy ActionAllow [mk_rule ActionDeny ''2001:db8::/32'']))
      (the (ParseAddr ''2001:db8::1''))" by code_simp
  show ?thesis
    using 3 zone_escapes_deny_rules [OF 1 2, of "mk_policy ActionAllow [mk_rule ActionDeny ''2001:db8::/32'']"]
    by (simp add: Let_def)
qed

section \<open>Allow lists\<close>

lemma allow_entry_host_lower: "ToLower (allow_entry_host e) = allow_entry_host e"
proof -
  define a where "a = ToLower (TrimSpace e)"
  have "\<not> isUpper c" if "c \<in> set a" for c using that by (auto simp: a_def ToLower_def)
  moreover have "set (allow_entry_host e) \<subseteq> set a"
    using TrimSuffix_sub SplitHostPort_sub [of a]
    by (fastforce simp: allow_entry_host_def Let_def a_def split: sum.splits)
  ultimately show ?thesis by (intro ToLower_id) blast
qed

lemma star_not_address: "ParseAddr (''*.'' @ t) = None"
  by (simp add: ParseAddr_def parseIPv4_def parseIPv4Fields_def isDigit_def)

lemma star_not_prefix: "ParsePrefix (''*.'' @ t) = None"
proof (cases "CHR ''/'' \<in> set t")
  case False
  then show ?thesis by (simp add: ParsePrefix_def)
next
  case True
  then obtain a b where t: "t = a @ CHR ''/'' # b" "CHR ''/'' \<notin> set b" by (metis split_list_last)
  have "LastIndexByte ((''*.'' @ a) @ CHR ''/'' # b) CHR ''/'' = Some (length (''*.'' @ a))"
    using t(2) by (rule LastIndexByte_append)
  then show ?thesis using star_not_address [of a] by (simp add: ParsePrefix_def t(1))
qed

lemma star_rule_prefix: "rule_prefix (mk_rule x (''*.'' @ t)) = None"
  using star_not_address [of t] star_not_prefix [of t] by (simp add: rule_prefix_None)

text \<open>What one entry of an \<^verbatim>\<open>egress_allow\<close> list permits: the host it names and its subdomains, or with
  a leading \<open>*.\<close> the subdomains only.\<close>

definition entry_permits :: "string \<Rightarrow> string \<Rightarrow> bool" where
  "entry_permits e host = (let t = allow_entry_host e; h = canonical host in
     t \<noteq> [] \<and> ParseAddr t = None \<and> ParsePrefix t = None \<and>
     (if HasPrefix t ''*.'' then HasSuffix h (drop 1 t) else h = t \<or> HasSuffix h (''.'' @ t)))"

lemma entry_targets_match:
  assumes "\<not> HasSuffix (allow_entry_host e) ''.''"
  shows "(\<exists>t \<in> set (allow_entry_targets e). name_matches (mk_rule x t) host) \<longleftrightarrow> entry_permits e host"
proof -
  define t where "t = allow_entry_host e"
  have low: "ToLower t = t" by (simp add: t_def allow_entry_host_lower)
  with assms have c: "canonical t = t" by (simp add: canonical_lower TrimSuffix_def HasSuffix_def t_def)
  have cs: "canonical (''*.'' @ t) = ''*.'' @ t" if "t \<noteq> []"
  proof -
    have "ToLower (''*.'' @ t) = ''*.'' @ t" using low by (simp add: lowerByte_def isUpper_def)
    moreover have "\<not> suffix ''.'' (''*.'' @ t)"
      using assms that by (simp add: HasSuffix_def t_def suffix_single)
    ultimately show ?thesis by (simp add: canonical_lower TrimSuffix_def)
  qed
  have plain: "name_matches (mk_rule x t) host \<longleftrightarrow> ParseAddr t = None \<and> ParsePrefix t = None \<and>
      (if HasPrefix t ''*.'' then HasSuffix (canonical host) (drop 1 t) else t = canonical host)"
    by (simp add: name_matches_def rule_prefix_None c Let_def)
  have star: "t \<noteq> [] \<Longrightarrow> name_matches (mk_rule x (''*.'' @ t)) host \<longleftrightarrow> HasSuffix (canonical host) (''.'' @ t)"
    using star_rule_prefix [of x t] cs by (simp add: name_matches_def Let_def HasPrefix_def)
  show ?thesis
    using plain star by (auto simp: allow_entry_targets_def entry_permits_def Let_def t_def [symmetric])
qed

lemma allow_only:
  assumes "\<forall>r \<in> set rs. rule_Action r = ActionAllow"
  shows "AllowsName (mk_policy ActionDeny rs) host \<longleftrightarrow> (\<exists>r \<in> set rs. name_matches r host)"
proof (cases "find (\<lambda>r. name_matches r host) rs")
  case None
  then have "\<not> AllowsName (mk_policy ActionDeny rs) host" by (simp add: AllowsName_def allowsName_rules)
  with None show ?thesis by (auto simp: find_None_iff)
next
  case (Some r)
  with find_SomeD [OF Some] assms show ?thesis by (auto simp: AllowsName_def allowsName_rules)
qed

text \<open>
  An \<^verbatim>\<open>egress_allow\<close> list turned into a policy permits exactly the names some entry permits: the
  entry's host and its subdomains (subdomains only for \<open>*.\<close>), with a port on the entry ignored, and
  nothing else. Entries that end in two dots are left out of the statement.
\<close>

theorem allow_list_permits:
  assumes "\<forall>e \<in> set allow. \<not> HasSuffix (allow_entry_host e) ''.''"
  shows "AllowsName (FromAllowList allow) host \<longleftrightarrow> (\<exists>e \<in> set allow. entry_permits e host)"
proof -
  define ts where "ts = keep_first (\<lambda>t. t) [] (concat (map allow_entry_targets allow))"
  have ts: "set ts = (\<Union>e \<in> set allow. set (allow_entry_targets e))"
    using keep_first_keys [of "\<lambda>t. t" "[]" "concat (map allow_entry_targets allow)"] by (simp add: ts_def)
  have "AllowsName (FromAllowList allow) host \<longleftrightarrow>
      (\<exists>t \<in> set ts. name_matches (mk_rule ActionAllow t) host)"
    unfolding FromAllowList_def ts_def [symmetric] by (subst allow_only) auto
  also have "\<dots> \<longleftrightarrow> (\<exists>e \<in> set allow. entry_permits e host)"
    using entry_targets_match [of _ ActionAllow host] assms by (simp add: ts)
  finally show ?thesis .
qed

theorem allow_list_permits_witness:
  "AllowsName (FromAllowList [''OpenAI.com:443'', ''*.pypi.org'']) ''api.openai.com.'' \<and>
   \<not> AllowsName (FromAllowList [''OpenAI.com:443'', ''*.pypi.org'']) ''pypi.org'' \<and>
   \<not> AllowsName (FromAllowList [''OpenAI.com:443'', ''*.pypi.org'']) ''notopenai.com''"
proof -
  have h: "\<forall>e \<in> set [''OpenAI.com:443'', ''*.pypi.org'']. \<not> HasSuffix (allow_entry_host e) ''.''"
    by code_simp
  have 1: "\<exists>e \<in> set [''OpenAI.com:443'', ''*.pypi.org'']. entry_permits e ''api.openai.com.''" by code_simp
  have 2: "\<not> (\<exists>e \<in> set [''OpenAI.com:443'', ''*.pypi.org'']. entry_permits e ''pypi.org'')" by code_simp
  have 3: "\<not> (\<exists>e \<in> set [''OpenAI.com:443'', ''*.pypi.org'']. entry_permits e ''notopenai.com'')" by code_simp
  show ?thesis using 1 2 3 unfolding allow_list_permits [OF h, symmetric] by blast
qed

section \<open>Port grants\<close>

text \<open>The grants whose written form can be read back.\<close>

definition grant_byte :: "char \<Rightarrow> bool" where
  "grant_byte c = (\<not> isSpaceByte c \<and> \<not> isUpper c \<and> c \<notin> set '',[]'')"

definition wf_grant :: "portGrant \<Rightarrow> bool" where
  "wf_grant g = (grant_Target g \<noteq> [] \<and> list_all grant_byte (grant_Target g) \<and>
     \<not> HasSuffix (grant_Target g) ''.'' \<and> 1 \<le> grant_Port g \<and> grant_Port g \<le> 65535 \<and>
     grant_Port g \<notin> set DefaultPorts \<and>
     (CHR '':'' \<in> set (grant_Target g) \<longrightarrow> (case ParseAddr (grant_Target g) of Some a \<Rightarrow> Is6 a | None \<Rightarrow> False)))"

lemma digit_bytes: "isDigit c \<Longrightarrow> grant_byte c \<and> c \<noteq> CHR '':''"
  by (auto simp: isDigit_def grant_byte_def isSpaceByte_def isUpper_def)

lemma grant_String_split:
  assumes "wf_grant g"
  shows "SplitHostPort (grant_String g) = Inr (grant_Target g, Itoa (grant_Port g))"
proof -
  have t: "CHR ''['' \<notin> set (grant_Target g)" "CHR '']'' \<notin> set (grant_Target g)"
    using assms by (auto simp: wf_grant_def grant_byte_def list_all_iff)
  have "0 \<le> grant_Port g" using assms by (simp add: wf_grant_def)
  then have d: "\<And>c. c \<in> set (Itoa (grant_Port g)) \<Longrightarrow> grant_byte c \<and> c \<noteq> CHR '':''"
    using Itoa_digits digit_bytes by blast
  then have p: "CHR '':'' \<notin> set (Itoa (grant_Port g))" "CHR ''['' \<notin> set (Itoa (grant_Port g))"
    "CHR '']'' \<notin> set (Itoa (grant_Port g))" by (auto simp: grant_byte_def)
  show ?thesis
  proof (cases "CHR '':'' \<in> set (grant_Target g)")
    case True
    with assms obtain a where "ParseAddr (grant_Target g) = Some a" "Is6 a"
      by (auto simp: wf_grant_def split: option.splits)
    with SplitHostPort_bracket [OF t p] show ?thesis by (simp add: grant_String_def)
  next
    case False
    then have "grant_String g = grant_Target g @ CHR '':'' # Itoa (grant_Port g)"
      by (auto simp: grant_String_def split: option.splits dest: ParseAddr_colon)
    with SplitHostPort_plain [OF False t p] show ?thesis by simp
  qed
qed

lemma grant_String_bytes:
  assumes "wf_grant g" "c \<in> set (grant_String g)" shows "\<not> isSpaceByte c \<and> \<not> isUpper c \<and> c \<noteq> CHR '',''"
proof -
  have "c \<in> set (grant_Target g) \<or> c \<in> set (Itoa (grant_Port g)) \<or> c \<in> {CHR ''['', CHR '']'', CHR '':''}"
    using assms(2) by (auto simp: grant_String_def split: option.splits if_splits)
  moreover have "c \<in> set (Itoa (grant_Port g)) \<Longrightarrow> grant_byte c"
    using assms(1) Itoa_digits [of "grant_Port g" c] digit_bytes [of c] by (simp add: wf_grant_def)
  moreover have "c \<in> set (grant_Target g) \<Longrightarrow> grant_byte c"
    using assms(1) by (simp add: wf_grant_def list_all_iff)
  ultimately consider "grant_byte c" | "c = CHR ''[''" | "c = CHR '']''" | "c = CHR '':''" by blast
  then show ?thesis by cases (auto simp: grant_byte_def isSpaceByte_def isUpper_def)
qed

lemma grant_String_ne: "grant_String g \<noteq> []"
  by (simp add: grant_String_def split: option.splits)

lemma grant_String_facts:
  assumes "wf_grant g"
  shows "TrimSpace (grant_String g) = grant_String g" "ToLower (grant_String g) = grant_String g"
    "splitAllowEntry (grant_String g) = (grant_Target g, Itoa (grant_Port g))"
    "CheckAllowEntry (grant_String g) = Inr ()" "allow_entry_grants (grant_String g) = [g]"
proof -
  show tr: "TrimSpace (grant_String g) = grant_String g"
    using grant_String_bytes [OF assms] by (intro TrimSpace_no_space) blast
  show lo: "ToLower (grant_String g) = grant_String g"
    using grant_String_bytes [OF assms] by (intro ToLower_id) blast
  have dot: "TrimSuffix (grant_Target g) ''.'' = grant_Target g"
    using assms by (simp add: wf_grant_def TrimSuffix_def HasSuffix_def)
  show sp: "splitAllowEntry (grant_String g) = (grant_Target g, Itoa (grant_Port g))"
    by (simp add: splitAllowEntry_def tr lo grant_String_split [OF assms] dot)
  have pp: "parsePort (Itoa (grant_Port g)) = Some (grant_Port g)"
    using assms by (simp add: parsePort_def Atoi_Itoa int_in_range_def wf_grant_def)
  show "CheckAllowEntry (grant_String g) = Inr ()"
    using assms by (simp add: CheckAllowEntry_def sp tr grant_String_split [OF assms] pp wf_grant_def)
  show "allow_entry_grants (grant_String g) = [g]"
    using assms by (simp add: allow_entry_grants_def sp pp wf_grant_def mk_grant_def)
qed

text \<open>
  Port grants round trip: what \<open>FormatPortGrants\<close> writes for a list of distinct well-formed
  grants (a host, a wildcard, an IPv4 address or CIDR, or an IPv6 address, on a port other than 80
  and 443) \<open>ParsePortGrants\<close> reads back as the same list.
\<close>

theorem port_grants_round_trip:
  assumes "\<forall>g \<in> set gs. wf_grant g" and "distinct gs"
  shows "ParsePortGrants (FormatPortGrants gs) = Inr gs"
proof (cases "gs = []")
  case True
  then show ?thesis
    by (simp add: ParsePortGrants_def FormatPortGrants_def PortGrantsFromAllowList_def TrimSpace_def)
next
  case False
  let ?es = "map grant_String gs"
  have sp: "Split (FormatPortGrants gs) CHR '','' = ?es"
    unfolding FormatPortGrants_def using False assms(1) grant_String_bytes
    by (intro Split_Join) auto
  have es: "filter (\<lambda>e. e \<noteq> []) (map TrimSpace ?es) = ?es"
    using assms(1) by (induction gs) (auto simp: grant_String_facts(1) grant_String_ne)
  have "concat (map allow_entry_grants ?es) = gs"
    using assms(1) by (induction gs) (auto simp: grant_String_facts(5))
  then have "PortGrantsFromAllowList ?es = gs"
    using assms(2) by (simp add: PortGrantsFromAllowList_def keep_first_id)
  moreover have "check_all CheckAllowEntry ?es = Inr ()"
    using assms(1) by (simp add: grant_String_facts(4))
  ultimately show ?thesis unfolding ParsePortGrants_def sp Let_def es by simp
qed

theorem port_grants_round_trip_witness:
  "ParsePortGrants (FormatPortGrants [mk_grant ''github.com'' 22, mk_grant ''2001:db8::1'' 5432,
      mk_grant ''10.0.0.0/8'' 6379]) =
    Inr [mk_grant ''github.com'' 22, mk_grant ''2001:db8::1'' 5432, mk_grant ''10.0.0.0/8'' 6379]"
proof (rule port_grants_round_trip)
  show "\<forall>g \<in> set [mk_grant ''github.com'' 22, mk_grant ''2001:db8::1'' 5432, mk_grant ''10.0.0.0/8'' 6379]. wf_grant g"
    by code_simp
qed (simp add: mk_grant_def)

text \<open>
  The round trip loses a grant for an IPv6 CIDR: an \<^verbatim>\<open>egress_allow\<close> entry
  \<open>[2001:db8::/32]:22\<close> grants port 22, but the text \<open>FormatPortGrants\<close> writes for it (the container
  filter's argument) reads back as no grant at all, with no error.
\<close>

theorem ipv6_cidr_grant_lost:
  "PortGrantsFromAllowList [''[2001:db8::/32]:22''] = [mk_grant ''2001:db8::/32'' 22] \<and>
   covers (mk_grant ''2001:db8::/32'' 22) ''2001:db8::5'' \<and>
   ParsePortGrants (FormatPortGrants [mk_grant ''2001:db8::/32'' 22]) = Inr []"
  by code_simp

end
