(* ===== verification/Egress_Filter.thy ===== *)
theory Egress_Filter
  imports Egress_Policy
begin

text \<open>
  The filtering proxy: \<^verbatim>\<open>internal/egress/filter.go\<close>. A filter is a policy in force, the extra ports it
  carries, the set it refuses whatever the policy says, and its own names. Name resolution, the
  socket dial, hijacking and the HTTP transport are parameters; \<open>dial\<close> also returns every address it
  tried, so that what the filter connects to can be stated. The locale \<open>refuse_set\<close> is the contract of
  \<open>Filter.Refuse\<close>: what a provider of refusals promises, and what a filter with it never dials.
\<close>

section \<open>The filter\<close>

record filter =
  f_pol :: compiled
  f_ports :: "portGrant list"
  f_Refuse :: "(addr \<Rightarrow> bool) option"
  f_SelfNames :: "string list"

definition NewPolicy :: "policy \<Rightarrow> filter" where
  "NewPolicy p = \<lparr>f_pol = compile p, f_ports = [], f_Refuse = None, f_SelfNames = []\<rparr>"

definition SetPorts :: "filter \<Rightarrow> portGrant list \<Rightarrow> filter" where
  "SetPorts f g = f\<lparr>f_ports := g\<rparr>"

definition New :: "string list \<Rightarrow> filter" where
  "New allow = SetPorts (NewPolicy (FromAllowList allow)) (PortGrantsFromAllowList allow)"

definition SetPolicy :: "filter \<Rightarrow> policy \<Rightarrow> (policy_error, filter) res" where
  "SetPolicy f p = (case Normalize p of Inl e \<Rightarrow> Inl e | Inr n \<Rightarrow> Inr (f\<lparr>f_pol := compile n\<rparr>))"

definition Ports :: "filter \<Rightarrow> portGrant list" where "Ports f = f_ports f"

definition Policy :: "filter \<Rightarrow> policy" where "Policy f = c_p (f_pol f)"

definition refused :: "filter \<Rightarrow> addr \<Rightarrow> bool" where
  "refused f a = (case f_Refuse f of None \<Rightarrow> False | Some refuse \<Rightarrow> refuse (Unmap a))"

definition Permits :: "filter \<Rightarrow> string \<Rightarrow> bool" where
  "Permits f host0 = (let host = (case SplitHostPort host0 of Inr (h, _) \<Rightarrow> h | Inl _ \<Rightarrow> host0)
     in case ParseAddr host of
          Some a \<Rightarrow> allowsAddr (f_pol f) a \<and> \<not> refused f a
        | None \<Rightarrow> allowsName (f_pol f) host)"

section \<open>Refusals\<close>

datatype why =
    Why_host string
  | Why_closed string
  | Why_not_port string
  | Why_port int string
  | Why_resolves_closed string addr
  | Why_resolves_denied string addr
  | Why_uncarried why string

text \<open>\<open>Denied why door\<close> is \<open>errDenied\<close>; the others are failures that are not refusals.\<close>

datatype filter_error =
    Denied why bool
  | Lookup_failed string
  | No_addresses string
  | Dial_failed string
  | Bad_address split_error
  | Credentials_failed string
  | Round_trip_failed string

definition canonicalName :: "string \<Rightarrow> string" where
  "canonicalName host = TrimSuffix (ToLower host) ''.''"

definition HostDoorNames :: "string list" where
  "HostDoorNames = [''host.docker.internal'', ''host.lima.internal'', ''gateway.docker.internal'']"

definition isSelfName :: "filter \<Rightarrow> string \<Rightarrow> bool" where
  "isSelfName f host0 = (let host = canonicalName host0 in
     list_ex (\<lambda>n0. let n = canonicalName n0 in n \<noteq> [] \<and> n = host) (f_SelfNames f))"

definition isDoorName :: "filter \<Rightarrow> string \<Rightarrow> bool" where
  "isDoorName f host = (canonicalName host \<in> set HostDoorNames \<or> isSelfName f host)"

section \<open>Deciding a destination\<close>

definition carries :: "filter \<Rightarrow> string \<Rightarrow> string \<Rightarrow> (filter_error, unit) res" where
  "carries f host port = (case Atoi port of
      None \<Rightarrow> Inl (Denied (Why_not_port port) False)
    | Some n \<Rightarrow>
        if n < 1 \<or> n > 65535 then Inl (Denied (Why_not_port port) False)
        else if n \<in> set DefaultPorts then Inr ()
        else if list_ex (\<lambda>g. grant_Port g = n \<and> covers g host) (Ports f) then Inr ()
        else Inl (Denied (Why_port n host) False))"

text \<open>The loop over a resolved name's addresses: every one is checked, not the first.\<close>

fun admit_all :: "filter \<Rightarrow> string \<Rightarrow> addr list \<Rightarrow> (filter_error, unit) res" where
  "admit_all f host [] = Inr ()"
| "admit_all f host (a # as) =
     (if refused f a then Inl (Denied (Why_resolves_closed host a) True)
      else if deniesResolved (f_pol f) a then Inl (Denied (Why_resolves_denied host a) False)
      else admit_all f host as)"

definition admit :: "filter \<Rightarrow> (string \<Rightarrow> (string, addr list) res) \<Rightarrow> string \<Rightarrow> (filter_error, addr list) res" where
  "admit f resolve host =
     (if isSelfName f host then Inl (Denied (Why_closed host) True)
      else (case ParseAddr host of
          Some a \<Rightarrow>
            if refused f a then Inl (Denied (Why_closed host) True)
            else if \<not> allowsAddr (f_pol f) a then Inl (Denied (Why_host host) False)
            else Inr [a]
        | None \<Rightarrow>
            if \<not> allowsName (f_pol f) host then Inl (Denied (Why_host host) False)
            else (case resolve host of
                Inl e \<Rightarrow> Inl (Lookup_failed e)
              | Inr addrs \<Rightarrow> then_res (admit_all f host addrs) (Inr addrs))))"

definition check :: "filter \<Rightarrow> (string \<Rightarrow> (string, addr list) res) \<Rightarrow> string \<Rightarrow> string \<Rightarrow> (filter_error, addr list) res" where
  "check f resolve host port = (case carries f host port of
      Inr _ \<Rightarrow> admit f resolve host
    | Inl perr \<Rightarrow>
        (case Atoi port of
           None \<Rightarrow> Inl perr
         | Some n \<Rightarrow>
             if n < 1 \<or> n > 65535 then Inl perr
             else
               let err = (case ParseAddr host of
                     Some _ \<Rightarrow> (case admit f resolve host of Inl e \<Rightarrow> Some e | Inr _ \<Rightarrow> None)
                   | None \<Rightarrow>
                       if isDoorName f host then Some (Denied (Why_closed host) True)
                       else if \<not> allowsName (f_pol f) host then Some (Denied (Why_host host) False)
                       else None)
               in (case err of
                     Some (Denied w door) \<Rightarrow>
                       if door then Inl (Denied w door) else Inl (Denied (Why_uncarried w port) False)
                   | _ \<Rightarrow> Inl perr)))"

section \<open>Dialling and serving\<close>

fun dial_loop :: "(addr \<Rightarrow> string \<Rightarrow> (string, 'c) res) \<Rightarrow> string \<Rightarrow> string \<Rightarrow> addr list \<Rightarrow> string option
    \<Rightarrow> addr list \<times> (filter_error, 'c) res" where
  "dial_loop dialer host port [] prev =
     ([], Inl (case prev of None \<Rightarrow> No_addresses host | Some e \<Rightarrow> Dial_failed e))"
| "dial_loop dialer host port (a # as) prev = (case dialer a port of
      Inr c \<Rightarrow> ([a], Inr c)
    | Inl e \<Rightarrow> apfst (Cons a) (dial_loop dialer host port as (Some e)))"

definition dial :: "filter \<Rightarrow> (string \<Rightarrow> (string, addr list) res) \<Rightarrow> (addr \<Rightarrow> string \<Rightarrow> (string, 'c) res)
    \<Rightarrow> string \<Rightarrow> string \<Rightarrow> addr list \<times> (filter_error, 'c) res" where
  "dial f resolve dialer host port = (case check f resolve host port of
      Inl e \<Rightarrow> ([], Inl e)
    | Inr addrs \<Rightarrow> dial_loop dialer host port addrs None)"

text \<open>\<open>refuse\<close>: 403 for a refusal, 502 for any other failure.\<close>

definition refuse_status :: "filter_error \<Rightarrow> int" where
  "refuse_status e = (case e of Denied _ _ \<Rightarrow> 403 | _ \<Rightarrow> 502)"

datatype hijack = Not_hijacker | Hijack_error | Hijacked

datatype 'c answer = Status int | Dropped | Spliced 'c

text \<open>A served CONNECT: the addresses tried, whether activity was noted, and the answer.\<close>

definition tunnel :: "filter \<Rightarrow> (string \<Rightarrow> (string, addr list) res) \<Rightarrow> (addr \<Rightarrow> string \<Rightarrow> (string, 'c) res)
    \<Rightarrow> hijack \<Rightarrow> string \<Rightarrow> addr list \<times> bool \<times> 'c answer" where
  "tunnel f resolve dialer hj rhost =
     (let (host, port) = (case SplitHostPort rhost of Inr hp \<Rightarrow> hp | Inl _ \<Rightarrow> (rhost, ''443''))
      in case dial f resolve dialer host port of
           (tried, Inl e) \<Rightarrow> (tried, False, Status (refuse_status e))
         | (tried, Inr c) \<Rightarrow> (tried, True, (case hj of
               Not_hijacker \<Rightarrow> Status 500 | Hijack_error \<Rightarrow> Dropped | Hijacked \<Rightarrow> Spliced c)))"

text \<open>A plain request: the parsed URL's host, port and scheme, and the Host header. The credential
  source is the vault's two methods, or none.\<close>

record 'r http_request =
  rq_url_host :: string
  rq_url_port :: string
  rq_scheme :: string
  rq_host :: string
  rq_body :: 'r

type_synonym 'r credential_source =
  "(string \<Rightarrow> string \<Rightarrow> bool) \<times> ('r http_request \<Rightarrow> (string, 'r http_request) res)"

definition ServeCredentials :: "'r credential_source option \<Rightarrow> string \<Rightarrow> string \<Rightarrow> bool" where
  "ServeCredentials cs host port = (case cs of None \<Rightarrow> False | Some (bound, _) \<Rightarrow> bound host port)"

definition forward_dest :: "'r http_request \<Rightarrow> string \<times> string" where
  "forward_dest r =
     ((if rq_url_host r \<noteq> [] then rq_url_host r
       else (case SplitHostPort (rq_host r) of Inr (h, _) \<Rightarrow> h | Inl _ \<Rightarrow> rq_host r)),
      (if rq_url_port r \<noteq> [] then rq_url_port r
       else if rq_scheme r = ''https'' then ''443'' else ''80''))"

text \<open>The request handed to the transport, if any, whether activity was noted, and the status.\<close>

definition forward :: "filter \<Rightarrow> (string \<Rightarrow> (string, addr list) res) \<Rightarrow> 'r credential_source option
    \<Rightarrow> ('r http_request \<Rightarrow> (string, int) res) \<Rightarrow> 'r http_request \<Rightarrow> 'r http_request option \<times> bool \<times> int" where
  "forward f resolve cs roundTrip r = (case forward_dest r of (host, port) \<Rightarrow>
     (case check f resolve host port of
        Inl e \<Rightarrow> (None, False, refuse_status e)
      | Inr _ \<Rightarrow>
          let creds = (case cs of
                Some (bound, apply) \<Rightarrow> if bound host port then apply r else Inr r
              | None \<Rightarrow> Inr r)
          in (case creds of
                Inl e \<Rightarrow> (None, True, refuse_status (Credentials_failed e))
              | Inr r' \<Rightarrow> (case roundTrip r' of
                    Inl e \<Rightarrow> (Some r', True, refuse_status (Round_trip_failed e))
                  | Inr st \<Rightarrow> (Some r', True, st)))))"

text \<open>The transport's own dialer (\<open>roundTripper\<close>): split the address, then the same \<open>dial\<close>.\<close>

definition transport_dial :: "filter \<Rightarrow> (string \<Rightarrow> (string, addr list) res) \<Rightarrow> (addr \<Rightarrow> string \<Rightarrow> (string, 'c) res)
    \<Rightarrow> string \<Rightarrow> addr list \<times> (filter_error, 'c) res" where
  "transport_dial f resolve dialer addr = (case SplitHostPort addr of
      Inl e \<Rightarrow> ([], Inl (Bad_address e))
    | Inr (host, port) \<Rightarrow> dial f resolve dialer host port)"

section \<open>Facts\<close>

lemma admit_all_ok [simp]:
  "admit_all f host as = Inr u \<longleftrightarrow> (\<forall>a \<in> set as. \<not> refused f a \<and> \<not> deniesResolved (f_pol f) a)"
  by (induction as) auto

lemma admit_ok:
  "admit f resolve host = Inr as \<longleftrightarrow> \<not> isSelfName f host \<and>
     (case ParseAddr host of
        Some a \<Rightarrow> as = [a] \<and> \<not> refused f a \<and> allowsAddr (f_pol f) a
      | None \<Rightarrow> allowsName (f_pol f) host \<and> resolve host = Inr as \<and>
          (\<forall>a \<in> set as. \<not> refused f a \<and> \<not> deniesResolved (f_pol f) a))"
  by (auto simp: admit_def split: option.splits sum.splits)

lemma check_ok: "check f resolve host port = Inr as \<longleftrightarrow> carries f host port = Inr () \<and> admit f resolve host = Inr as"
  by (auto simp: check_def Let_def split: sum.splits option.splits filter_error.splits if_splits)

lemma dial_loop_tried: "set (fst (dial_loop dialer host port as prev)) \<subseteq> set as"
  by (induction as arbitrary: prev) (auto split: sum.splits)

lemma dial_loop_result:
  "snd (dial_loop dialer host port as prev) = Inr c \<Longrightarrow>
     \<exists>a \<in> set (fst (dial_loop dialer host port as prev)). dialer a port = Inr c"
  by (induction as arbitrary: prev) (auto split: sum.splits)

lemma dial_tried:
  assumes "a \<in> set (fst (dial f resolve dialer host port))"
  obtains as where "carries f host port = Inr ()" "admit f resolve host = Inr as" "a \<in> set as"
  using assms dial_loop_tried [of dialer host port _ None]
  by (auto simp: dial_def check_ok split: sum.splits)

lemma dial_tried_not_refused:
  assumes "a \<in> set (fst (dial f resolve dialer host port))" shows "\<not> refused f a"
  using assms by (rule dial_tried) (auto simp: admit_ok split: option.splits)

section \<open>The contract of a refused set\<close>

locale refuse_set =
  fixes refuse :: "addr \<Rightarrow> bool" and kept :: "addr \<Rightarrow> bool"
  assumes kept_refused: "kept a \<Longrightarrow> refuse (Unmap a)"
begin

lemma dial_avoids:
  assumes "f_Refuse f = Some refuse" "a \<in> set (fst (dial f resolve dialer host port))"
  shows "\<not> kept a"
  using dial_tried_not_refused [OF assms(2)] kept_refused [of a] assms(1) by (auto simp: refused_def)

lemma permits_avoids:
  assumes "f_Refuse f = Some refuse" "ParseAddr host = Some a" "SplitHostPort host = Inl e" "kept a"
  shows "\<not> Permits f host"
  using assms kept_refused [of a] by (simp add: Permits_def refused_def)

end

section \<open>What the filter guarantees\<close>

text \<open>
  (C3) The filter connects only where it decided it may: for every address \<open>dial\<close> tries, the port
  is carried, the refused set does not hold the address, and either the client named that very
  address and the policy allows it, or it named a host the policy allows, the address is one of the
  one answer the filter resolved, and no address of that answer is denied. A connection it returns
  is to one of those addresses.
\<close>

theorem dial_only_admitted:
  assumes "dial f resolve dialer host port = (tried, r)"
  shows "(\<forall>a \<in> set tried. carries f host port = Inr () \<and> \<not> refused f a \<and> \<not> isSelfName f host \<and>
      (case ParseAddr host of
         Some b \<Rightarrow> a = b \<and> allowsAddr (f_pol f) a
       | None \<Rightarrow> allowsName (f_pol f) host \<and>
           (\<exists>as. resolve host = Inr as \<and> a \<in> set as \<and>
              (\<forall>b \<in> set as. \<not> refused f b \<and> \<not> deniesResolved (f_pol f) b)))) \<and>
    (\<forall>c. r = Inr c \<longrightarrow> (\<exists>a \<in> set tried. dialer a port = Inr c))"
proof (intro conjI ballI allI impI)
  fix a assume "a \<in> set tried"
  with assms have t: "a \<in> set (fst (dial f resolve dialer host port))" by simp
  then obtain as where "carries f host port = Inr ()" and as: "admit f resolve host = Inr as" "a \<in> set as"
    by (rule dial_tried)
  then show "carries f host port = Inr ()" by simp
  from t show "\<not> refused f a" by (rule dial_tried_not_refused)
  from as show "\<not> isSelfName f host" by (simp add: admit_ok)
  from as show "case ParseAddr host of
         Some b \<Rightarrow> a = b \<and> allowsAddr (f_pol f) a
       | None \<Rightarrow> allowsName (f_pol f) host \<and>
           (\<exists>as. resolve host = Inr as \<and> a \<in> set as \<and>
              (\<forall>b \<in> set as. \<not> refused f b \<and> \<not> deniesResolved (f_pol f) b))"
    by (auto simp: admit_ok split: option.splits)
next
  fix c assume "r = Inr c"
  with assms obtain as where "dial_loop dialer host port as None = (tried, Inr c)"
    by (auto simp: dial_def split: sum.splits)
  with dial_loop_result [of dialer host port as None c] show "\<exists>a \<in> set tried. dialer a port = Inr c" by simp
qed

definition demo_resolve :: "string \<Rightarrow> (string, addr list) res" where
  "demo_resolve h = (if h = ''api.example.com'' then Inr [Addr4 0x01010101, Addr4 0x08080808] else Inl ''no such host'')"

definition demo_dialer :: "addr \<Rightarrow> string \<Rightarrow> (string, string) res" where
  "demo_dialer a port = (if a = Addr4 0x08080808 then Inr port else Inl ''refused'')"

theorem dial_only_admitted_witness:
  "dial (New [''example.com'']) demo_resolve demo_dialer ''api.example.com'' ''443'' =
     ([Addr4 0x01010101, Addr4 0x08080808], Inr ''443'') \<and>
   allowsName (f_pol (New [''example.com''])) ''api.example.com''"
proof -
  have h: "dial (New [''example.com'']) demo_resolve demo_dialer ''api.example.com'' ''443'' =
     ([Addr4 0x01010101, Addr4 0x08080808], Inr ''443'')" by code_simp
  moreover have "ParseAddr ''api.example.com'' = None" by code_simp
  ultimately show ?thesis using dial_only_admitted [OF h] by simp
qed

text \<open>
  A refusal is answered before anything is opened: when the decision is an error no address is
  tried, and the CONNECT is answered with 403 for a refusal and 502 for a failed lookup.
\<close>

theorem refusal_opens_nothing:
  assumes "check f resolve host port = Inl e" and "SplitHostPort rhost = Inr (host, port)"
  shows "tunnel f resolve dialer hj rhost = ([], False, Status (case e of Denied _ _ \<Rightarrow> 403 | _ \<Rightarrow> 502))"
  using assms by (simp add: tunnel_def dial_def refuse_status_def)

theorem refusal_opens_nothing_witness:
  "tunnel (New [''example.com'']) demo_resolve demo_dialer Hijacked ''evil.org:443'' = ([], False, Status 403)"
proof -
  have 1: "check (New [''example.com'']) demo_resolve ''evil.org'' ''443'' = Inl (Denied (Why_host ''evil.org'') False)"
    by code_simp
  have 2: "SplitHostPort ''evil.org:443'' = Inr (''evil.org'', ''443'')" by code_simp
  show ?thesis using refusal_opens_nothing [OF 1 2] by simp
qed

lemma admit_literal: "ParseAddr host = Some a \<Longrightarrow> admit f r1 host = admit f r2 host"
  by (simp add: admit_def)

text \<open>
  A port the filter does not carry costs no lookup: the answer is the same whatever the
  resolver would say, and it is always a refusal.
\<close>

theorem uncarried_port_no_lookup:
  assumes "carries f host port = Inl e"
  shows "check f resolve host port = check f resolve' host port \<and>
    (\<exists>w door. check f resolve host port = Inl (Denied w door))"
proof -
  have e: "\<exists>w. e = Denied w False"
    using assms by (auto simp: carries_def split: option.splits if_splits)
  have "check f resolve host port = check f resolve' host port"
    using assms by (auto simp: check_def admit_literal [where ?r1.0 = resolve and ?r2.0 = resolve']
        split: option.splits)
  moreover have "\<exists>w door. check f resolve host port = Inl (Denied w door)"
    using assms e
    by (auto simp: check_def Let_def split: option.splits filter_error.splits if_splits sum.splits)
  ultimately show ?thesis by simp
qed

theorem uncarried_port_no_lookup_witness:
  "check (NewPolicy (mk_policy ActionAllow [])) demo_resolve ''api.example.com'' ''22'' =
   check (NewPolicy (mk_policy ActionAllow [])) (\<lambda>_. Inr []) ''api.example.com'' ''22''"
proof -
  have "carries (NewPolicy (mk_policy ActionAllow [])) ''api.example.com'' ''22'' =
      Inl (Denied (Why_port 22 ''api.example.com'') False)" by code_simp
  from uncarried_port_no_lookup [OF this] show ?thesis by blast
qed

text \<open>
  The port hint is only given where following it would work: the refusal that tells the reader
  to list the port is given exactly when the port is a number the filter does not carry for this
  host and nothing else stands in the way: the literal would be admitted, or the name is no door and
  the policy allows it.
\<close>

theorem port_hint_only_when_it_helps:
  "check f resolve host port = Inl (Denied (Why_port n host) False) \<longleftrightarrow>
     carries f host port = Inl (Denied (Why_port n host) False) \<and>
     (case ParseAddr host of
        Some a \<Rightarrow> \<not> isSelfName f host \<and> \<not> refused f a \<and> allowsAddr (f_pol f) a
      | None \<Rightarrow> \<not> isDoorName f host \<and> allowsName (f_pol f) host)"
proof (cases "carries f host port")
  case (Inr u)
  have "admit_all f host as \<noteq> Inl (Denied (Why_port n host) False)" for as
    by (induction as) auto
  then have "then_res (admit_all f host as) (Inr as) \<noteq> Inl (Denied (Why_port n host) False)" for as
    by (auto simp: then_res_def split: sum.split)
  with Inr show ?thesis by (auto simp: check_def admit_def split: option.splits sum.splits)
next
  case (Inl e)
  from Inl have e: "e = Denied (Why_not_port port) False \<and> (\<forall>m. Atoi port = Some m \<longrightarrow> m < 1 \<or> 65535 < m) \<or>
      (\<exists>m. e = Denied (Why_port m host) False \<and> Atoi port = Some m \<and> \<not> m < 1 \<and> \<not> 65535 < m)"
    by (auto simp: carries_def split: option.splits if_splits)
  from e show ?thesis
  proof
    assume "e = Denied (Why_not_port port) False \<and> (\<forall>m. Atoi port = Some m \<longrightarrow> m < 1 \<or> 65535 < m)"
    with Inl show ?thesis by (auto simp: check_def split: option.splits)
  next
    assume "\<exists>m. e = Denied (Why_port m host) False \<and> Atoi port = Some m \<and> \<not> m < 1 \<and> \<not> 65535 < m"
    then obtain m where m: "e = Denied (Why_port m host) False" "Atoi port = Some m" "\<not> m < 1" "\<not> 65535 < m" by blast
    show ?thesis
    proof (cases "ParseAddr host")
      case None
      with Inl m show ?thesis by (auto simp: check_def)
    next
      case (Some a)
      with Inl m show ?thesis by (auto simp: check_def admit_def)
    qed
  qed
qed

text \<open>
  A credential never widens where a sandbox may reach: a plain request is handed to the
  transport only after the policy admitted its destination, with the vault's answer in place when the
  vault binds that destination and untouched otherwise; a request whose credential could not be
  added is not sent.
\<close>

theorem credentials_only_on_permitted:
  assumes "forward f resolve cs roundTrip r = (sent, noted, status)"
  shows "(\<forall>r'. sent = Some r' \<longrightarrow> (\<exists>as. check f resolve (fst (forward_dest r)) (snd (forward_dest r)) = Inr as) \<and>
      (if ServeCredentials cs (fst (forward_dest r)) (snd (forward_dest r))
       then \<exists>bound apply. cs = Some (bound, apply) \<and> apply r = Inr r' else r' = r)) \<and>
    (\<forall>bound apply e. cs = Some (bound, apply) \<and> bound (fst (forward_dest r)) (snd (forward_dest r)) \<and>
       apply r = Inl e \<longrightarrow> sent = None)"
  using assms
  by (auto simp: forward_def ServeCredentials_def Let_def split: prod.splits sum.splits option.splits if_splits)

definition demo_vault :: "unit credential_source" where
  "demo_vault = ((\<lambda>h p. h = ''api.example.com''), (\<lambda>r. Inr (r\<lparr>rq_host := ''with-token''\<rparr>)))"

definition demo_request :: "unit http_request" where
  "demo_request = \<lparr>rq_url_host = ''api.example.com'', rq_url_port = [], rq_scheme = ''http'',
     rq_host = ''api.example.com'', rq_body = ()\<rparr>"

theorem credentials_only_on_permitted_witness:
  "fst (forward (New [''example.com'']) demo_resolve (Some demo_vault) (\<lambda>_. Inr 200) demo_request)
     = Some (demo_request\<lparr>rq_host := ''with-token''\<rparr>) \<and>
   ServeCredentials (Some demo_vault) ''api.example.com'' ''80'' \<and>
   (\<exists>as. check (New [''example.com'']) demo_resolve ''api.example.com'' ''80'' = Inr as)"
proof -
  have h: "forward (New [''example.com'']) demo_resolve (Some demo_vault) (\<lambda>_. Inr 200) demo_request =
     (Some (demo_request\<lparr>rq_host := ''with-token''\<rparr>), True, 200)" by code_simp
  have d: "forward_dest demo_request = (''api.example.com'', ''80'')" by code_simp
  have s: "ServeCredentials (Some demo_vault) ''api.example.com'' ''80''" by code_simp
  show ?thesis using credentials_only_on_permitted [OF h] d s h by auto
qed

end
