(* ===== verification/Egress_Doors.thy ===== *)
theory Egress_Doors
  imports Egress_Filter
begin

text \<open>
  What a filter refuses whatever its policy says: \<^verbatim>\<open>internal/egress/local.go\<close> (a filter on the host:
  \<open>OnThisHost\<close>, \<open>VMRefuse\<close>) and \<^verbatim>\<open>internal/egress/doors.go\<close> (a filter in a container: \<open>Doors\<close>). The
  host's interfaces, its routing table and the resolver are parameters. Each refused set is an
  interpretation of the contract \<open>refuse_set\<close>.
\<close>

section \<open>A filter on the host\<close>

text \<open>One entry of \<open>net.InterfaceAddrs\<close>: an \<open>*net.IPNet\<close>, with the address \<open>AddrFromSlice\<close> makes of
  its bytes and the two results of \<open>Mask.Size\<close>, or some other \<open>net.Addr\<close>.\<close>

datatype net_addr = IPNet "addr option" int int | OtherAddr

type_synonym interfaces = "(string, net_addr list) res"

definition ifaceIs :: "addr \<Rightarrow> net_addr \<Rightarrow> bool" where
  "ifaceIs a x = (case x of IPNet (Some ip) _ _ \<Rightarrow> Unmap ip = a | _ \<Rightarrow> False)"

lemma ifaceIs_iff: "ifaceIs a x \<longleftrightarrow> (\<exists>ip n b. x = IPNet (Some ip) n b \<and> Unmap ip = a)"
  by (cases x) (auto simp: ifaceIs_def split: option.splits)

definition onThisHost :: "interfaces \<Rightarrow> pfx list \<Rightarrow> addr \<Rightarrow> bool" where
  "onThisHost addrs ranges a0 = (let a = Unmap a0 in
     if hostLocal a then True
     else if list_ex (\<lambda>p. PfxContains p a) ranges then True
     else (case addrs of Inl _ \<Rightarrow> True | Inr xs \<Rightarrow> list_ex (ifaceIs a) xs))"

definition Private :: "pfx list" where
  "Private = map (\<lambda>s. the (ParsePrefix s))
     [''0.0.0.0/8'', ''10.0.0.0/8'', ''100.64.0.0/10'', ''172.16.0.0/12'', ''192.168.0.0/16'', ''fc00::/7'']"

text \<open>The prefix of an interface, as the loop of \<open>vmRefuse\<close> computes it.\<close>

definition ifacePrefix :: "net_addr \<Rightarrow> pfx option" where
  "ifacePrefix x = (case x of
      IPNet (Some ip0) ones0 bits \<Rightarrow>
        (let (ip, ones) = (if Is4In6 ip0 then (Unmap ip0, if bits = 128 then ones0 - 96 else ones0) else (ip0, ones0))
         in if bits = 0 \<or> ones < 0 then None else AddrPrefix ip ones)
    | _ \<Rightarrow> None)"

definition vmRefuse :: "interfaces \<Rightarrow> pfx \<Rightarrow> pfx list \<Rightarrow> addr \<Rightarrow> bool" where
  "vmRefuse addrs plan widen a0 = (let a = Unmap a0 in
     if onThisHost addrs [plan] a then True
     else if contains widen a then False
     else if contains Private a then True
     else (case addrs of Inl _ \<Rightarrow> True
         | Inr xs \<Rightarrow> list_ex (\<lambda>x. case ifacePrefix x of None \<Rightarrow> False | Some p \<Rightarrow> PfxContains p a) xs))"

section \<open>A filter in a container\<close>

record doors =
  d_Static :: "pfx list"
  d_set :: "pfx list option"
  d_pushed :: "pfx list option"

definition SetPushed :: "doors \<Rightarrow> pfx list \<Rightarrow> doors" where
  "SetPushed d p = d\<lparr>d_pushed := Some (map (\<lambda>q. unmapPrefix (Masked q)) p)\<rparr>"

definition Pushed :: "doors \<Rightarrow> pfx list" where
  "Pushed d = (case d_pushed d of None \<Rightarrow> [] | Some p \<Rightarrow> p)"

definition ParsePrefixes :: "string \<Rightarrow> (string, pfx list) res" where
  "ParsePrefixes s = traverse (\<lambda>f. case ParseAddr f of
        Some a \<Rightarrow> Inr (PrefixFrom (Unmap a) (BitLen (Unmap a)))
      | None \<Rightarrow> (case ParsePrefix f of None \<Rightarrow> Inl f | Some p \<Rightarrow> Inr (unmapPrefix (Masked p))))
    (filter (\<lambda>f. f \<noteq> []) (map TrimSpace (Split s CHR '','')))"

text \<open>\<open>hex.DecodeString\<close>: pairs of hex digits, an error on anything else.\<close>

fun hexDecode :: "string \<Rightarrow> int list option" where
  "hexDecode [] = Some []"
| "hexDecode [c] = None"
| "hexDecode (c # d # s) = (case (hexVal c, hexVal d) of
      (Some x, Some y) \<Rightarrow> map_option (Cons (x * 16 + y)) (hexDecode s)
    | _ \<Rightarrow> None)"

definition route_gateway :: "string \<Rightarrow> addr option" where
  "route_gateway line = (let f = Fields line in
     if length f < 3 then None
     else (case hexDecode (f ! 2) of
         None \<Rightarrow> None
       | Some b \<Rightarrow>
           if length b \<noteq> 4 then None
           else let gw = Addr4 (of_int (fold (\<lambda>x n. n * 256 + x) (rev b) 0))
             in if IsUnspecified gw then None else Some gw))"

definition RouteGateways :: "string \<Rightarrow> addr list" where
  "RouteGateways table = List.map_filter route_gateway (drop 1 (Split table CHR 0x0A))"

definition doorPrefix :: "addr \<Rightarrow> pfx option" where
  "doorPrefix a0 = (let a = Unmap a0 in AddrPrefix a (if Is6 a then 64 else 24))"

definition hostPrefix :: "addr \<Rightarrow> pfx" where
  "hostPrefix a = PrefixFrom a (BitLen a)"

definition Refresh :: "(string, string) res \<Rightarrow> interfaces \<Rightarrow> (string \<Rightarrow> (string, addr list) res) \<Rightarrow> doors \<Rightarrow> doors" where
  "Refresh routes ifaces resolve d =
     (let gws = (case routes of Inl _ \<Rightarrow> [] | Inr table \<Rightarrow> map hostPrefix (RouteGateways table));
          own = (case ifaces of Inl _ \<Rightarrow> []
                 | Inr xs \<Rightarrow> List.map_filter (\<lambda>x. case x of IPNet (Some ip) _ _ \<Rightarrow> Some (hostPrefix (Unmap ip)) | _ \<Rightarrow> None) xs);
          names = concat (map (\<lambda>name. case resolve name of Inl _ \<Rightarrow> []
                 | Inr addrs \<Rightarrow> List.map_filter doorPrefix addrs) HostDoorNames)
      in d\<lparr>d_set := Some (d_Static d @ gws @ own @ names)\<rparr>)"

definition Refuse :: "doors \<Rightarrow> addr \<Rightarrow> bool" where
  "Refuse d a0 = (case d_set d of None \<Rightarrow> True
     | Some s \<Rightarrow> (let a = Unmap a0 in contains s a \<or> contains (Pushed d) a))"

definition Prefixes :: "doors \<Rightarrow> pfx list" where
  "Prefixes d = (case d_set d of None \<Rightarrow> [] | Some s \<Rightarrow> s) @ Pushed d"

section \<open>Interpretations of the contract\<close>

definition host_kept :: "interfaces \<Rightarrow> pfx list \<Rightarrow> addr \<Rightarrow> bool" where
  "host_kept addrs ranges a = (HostLocal a \<or> contains ranges (Unmap a) \<or>
     (case addrs of Inl _ \<Rightarrow> True | Inr xs \<Rightarrow> list_ex (ifaceIs (Unmap a)) xs))"


definition doors_kept :: "doors \<Rightarrow> addr \<Rightarrow> bool" where
  "doors_kept d a = (d_set d = None \<or> contains (Prefixes d) (Unmap a))"

lemma onThisHost_kept: "onThisHost addrs ranges a = host_kept addrs ranges a"
  by (simp add: onThisHost_def host_kept_def HostLocal_def contains_def Let_def)

lemma Refuse_kept: "Refuse d a = doors_kept d a"
  by (auto simp: Refuse_def doors_kept_def Prefixes_def contains_def split: option.splits)

lemma kept_Unmap [simp]:
  "host_kept addrs ranges (Unmap a) = host_kept addrs ranges a"
  "contains s (Unmap (Unmap a)) = contains s (Unmap a)"
  by (simp_all add: host_kept_def HostLocal_def split: sum.splits)

interpretation host_doors: refuse_set "onThisHost addrs ranges" "host_kept addrs ranges" for addrs ranges
  by unfold_locales (simp add: onThisHost_kept)


interpretation container_doors: refuse_set "Refuse d" "doors_kept d" for d
  by unfold_locales (simp add: Refuse_kept doors_kept_def)

section \<open>What stays closed\<close>




lemma contains_append [simp]: "contains (s @ t) a = (contains s a \<or> contains t a)"
  by (simp add: contains_def)

lemma contains_in: "p \<in> set s \<Longrightarrow> PfxContains p a \<Longrightarrow> contains s a"
  by (auto simp: contains_iff)

lemma set_map_filter: "y \<in> set (List.map_filter g xs) \<longleftrightarrow> (\<exists>x \<in> set xs. g x = Some y)"
  by (induction xs) (auto split: option.splits)

lemma RouteGateways_v4: "gw \<in> set (RouteGateways table) \<Longrightarrow> \<exists>w. gw = Addr4 w"
  by (auto simp: RouteGateways_def set_map_filter route_gateway_def Let_def
      split: option.splits if_splits)

lemma hostPrefix_self: "\<not> hasZone a \<Longrightarrow> PfxContains (hostPrefix a) a"
  by (simp add: hostPrefix_def PfxContains_host withoutZone_id)

lemma Refuse_found: "d_set d = Some s \<Longrightarrow> p \<in> set s \<Longrightarrow> PfxContains p (Unmap a) \<Longrightarrow> Refuse d a"
  by (auto simp: Refuse_def contains_iff Let_def)

definition Refresh_set :: "(string, string) res \<Rightarrow> interfaces \<Rightarrow> (string \<Rightarrow> (string, addr list) res) \<Rightarrow> doors \<Rightarrow> pfx list" where
  "Refresh_set routes ifaces resolve d = the (d_set (Refresh routes ifaces resolve d))"

lemma Refresh_d_set: "d_set (Refresh routes ifaces resolve d) = Some (Refresh_set routes ifaces resolve d)"
  by (simp add: Refresh_set_def Refresh_def Let_def)

lemma Refresh_members:
  "p \<in> set (d_Static d) \<Longrightarrow> p \<in> set (Refresh_set routes ifaces resolve d)"
  "routes = Inr table \<Longrightarrow> gw \<in> set (RouteGateways table) \<Longrightarrow> hostPrefix gw \<in> set (Refresh_set routes ifaces resolve d)"
  "ifaces = Inr xs \<Longrightarrow> IPNet (Some ip) n b \<in> set xs \<Longrightarrow> hostPrefix (Unmap ip) \<in> set (Refresh_set routes ifaces resolve d)"
  "name \<in> set HostDoorNames \<Longrightarrow> resolve name = Inr as \<Longrightarrow> x \<in> set as \<Longrightarrow> doorPrefix x = Some p \<Longrightarrow>
     p \<in> set (Refresh_set routes ifaces resolve d)"
proof -
  show "p \<in> set (d_Static d) \<Longrightarrow> p \<in> set (Refresh_set routes ifaces resolve d)"
    by (simp add: Refresh_set_def Refresh_def Let_def)
  show "routes = Inr table \<Longrightarrow> gw \<in> set (RouteGateways table) \<Longrightarrow> hostPrefix gw \<in> set (Refresh_set routes ifaces resolve d)"
    by (simp add: Refresh_set_def Refresh_def Let_def)
  show "ifaces = Inr xs \<Longrightarrow> IPNet (Some ip) n b \<in> set xs \<Longrightarrow> hostPrefix (Unmap ip) \<in> set (Refresh_set routes ifaces resolve d)"
    by (force simp: Refresh_set_def Refresh_def Let_def set_map_filter)
  show "name \<in> set HostDoorNames \<Longrightarrow> resolve name = Inr as \<Longrightarrow> x \<in> set as \<Longrightarrow> doorPrefix x = Some p \<Longrightarrow>
     p \<in> set (Refresh_set routes ifaces resolve d)"
    by (force simp: Refresh_set_def Refresh_def Let_def set_map_filter)
qed

text \<open>
  The container filter's doors: before the first refresh everything is refused; a refresh
  refuses the static list, every gateway of the routing table, every address of the filter's own
  interfaces and the network around what each host door name resolves to; and a push from the
  daemon never takes any of that away.
\<close>

theorem doors_refuse_what_they_name:
  "(d_set d = None \<longrightarrow> Refuse d a) \<and>
   (contains (d_Static d) (Unmap a) \<longrightarrow> Refuse (SetPushed (Refresh routes ifaces resolve d) push) a) \<and>
   (\<forall>table. routes = Inr table \<and> Unmap a \<in> set (RouteGateways table) \<longrightarrow>
      Refuse (SetPushed (Refresh routes ifaces resolve d) push) a) \<and>
   (\<forall>xs. ifaces = Inr xs \<and> list_ex (ifaceIs (Unmap a)) xs \<and> \<not> hasZone (Unmap a) \<longrightarrow>
      Refuse (SetPushed (Refresh routes ifaces resolve d) push) a) \<and>
   (\<forall>name as x p. name \<in> set HostDoorNames \<and> resolve name = Inr as \<and> x \<in> set as \<and>
      doorPrefix x = Some p \<and> PfxContains p (Unmap a) \<longrightarrow>
      Refuse (SetPushed (Refresh routes ifaces resolve d) push) a)"
proof -
  let ?d = "SetPushed (Refresh routes ifaces resolve d) push"
  have s: "d_set ?d = Some (Refresh_set routes ifaces resolve d)" by (simp add: SetPushed_def Refresh_d_set)
  have gw: "Refuse ?d a" if "routes = Inr table" "Unmap a \<in> set (RouteGateways table)" for table
  proof -
    have "\<not> hasZone (Unmap a)" using RouteGateways_v4 [OF that(2)] by auto
    with Refuse_found [OF s Refresh_members(2) [OF that]] show ?thesis by (simp add: hostPrefix_self)
  qed
  have own: "Refuse ?d a" if x: "ifaces = Inr xs" "list_ex (ifaceIs (Unmap a)) xs" and z: "\<not> hasZone (Unmap a)" for xs
  proof -
    from x(2) obtain ip n b where ip: "IPNet (Some ip) n b \<in> set xs" "Unmap ip = Unmap a"
      by (auto simp: list_ex_iff ifaceIs_iff)
    with Refuse_found [OF s Refresh_members(3) [OF x(1) ip(1)]] z show ?thesis by (simp add: hostPrefix_self)
  qed
  have "contains (d_Static d) (Unmap a) \<Longrightarrow> Refuse ?d a"
    by (auto simp: contains_iff intro: Refuse_found [OF s] Refresh_members(1))
  with gw own show ?thesis
    using Refuse_found [OF s Refresh_members(4)] by (auto simp: Refuse_def)
qed

theorem doors_refuse_what_they_name_witness:
  "let d = \<lparr>d_Static = [the (ParsePrefix ''172.17.0.0/16'')], d_set = None, d_pushed = None\<rparr>;
       r = Refresh (Inl ''no table'') (Inl ''no interfaces'') (\<lambda>_. Inl ''no such host'') d
   in Refuse d (Addr4 0x08080808) \<and> Refuse (SetPushed r []) (Addr4 0xAC110001) \<and> \<not> Refuse r (Addr4 0x08080808)"
proof -
  let ?d = "\<lparr>d_Static = [the (ParsePrefix ''172.17.0.0/16'')], d_set = None, d_pushed = None\<rparr>"
  let ?r = "Refresh (Inl ''no table'') (Inl ''no interfaces'') (\<lambda>_. Inl ''no such host'') ?d"
  have 1: "contains (d_Static ?d) (Unmap (Addr4 0xAC110001))" by code_simp
  have 2: "\<not> Refuse ?r (Addr4 0x08080808)" by code_simp
  have 3: "Refuse (SetPushed ?r []) (Addr4 0xAC110001)"
    using doors_refuse_what_they_name [of ?d "Addr4 0xAC110001"] 1 by blast
  have 4: "Refuse ?d (Addr4 0x08080808)"
    using doors_refuse_what_they_name [of ?d "Addr4 0x08080808"] by simp
  show ?thesis using 2 3 4 by (simp only: Let_def) simp
qed

text \<open>
  The refused sets have the same gap as the address rules: an IPv6 literal with a zone is held
  by no prefix and equal to no interface address, so a microVM's filter under an allow default dials
  it although the same address without the zone is refused; \<open>::\<close> with a zone, which reaches the
  filter's own machine, is one of them.
\<close>

theorem zone_escapes_refused_set:
  assumes "hasZone (Unmap a)" and "\<not> hostLocal (Unmap a)"
    and "\<forall>x \<in> set xs. \<not> ifaceIs (Unmap a) x"
  shows "\<not> vmRefuse (Inr xs) plan widen a"
  using assms
  by (auto simp: vmRefuse_def Let_def onThisHost_def list_ex_iff contains_def PfxContains_zone
      split: option.splits)

theorem zone_escapes_refused_set_witness:
  "\<not> vmRefuse (Inr []) (the (ParsePrefix ''10.231.0.0/16'')) [] (the (ParseAddr ''::%lo'')) \<and>
   vmRefuse (Inr []) (the (ParsePrefix ''10.231.0.0/16'')) [] (the (ParseAddr ''::'')) \<and>
   \<not> vmRefuse (Inr []) (the (ParsePrefix ''10.231.0.0/16'')) [] (the (ParseAddr ''fd00::1%eth0'')) \<and>
   vmRefuse (Inr []) (the (ParsePrefix ''10.231.0.0/16'')) [] (the (ParseAddr ''fd00::1''))"
proof -
  have 1: "hasZone (Unmap (the (ParseAddr ''::%lo'')))" "\<not> hostLocal (Unmap (the (ParseAddr ''::%lo'')))"
    by code_simp+
  have 2: "hasZone (Unmap (the (ParseAddr ''fd00::1%eth0'')))" "\<not> hostLocal (Unmap (the (ParseAddr ''fd00::1%eth0'')))"
    by code_simp+
  have 3: "vmRefuse (Inr []) (the (ParsePrefix ''10.231.0.0/16'')) [] (the (ParseAddr ''::''))" by code_simp
  have 4: "vmRefuse (Inr []) (the (ParsePrefix ''10.231.0.0/16'')) [] (the (ParseAddr ''fd00::1''))" by code_simp
  show ?thesis
    using 3 4 zone_escapes_refused_set [OF 1, of "[]"] zone_escapes_refused_set [OF 2, of "[]"] by simp
qed

end
