(* ===== verification/Egress_Control.thy ===== *)
theory Egress_Control
  imports Egress_Doors
begin

text \<open>
  The filter's control endpoint: \<^verbatim>\<open>internal/egress/control.go\<close>, with the store its container gives it
  (\<open>Persist\<close> and \<open>PersistRefuse\<close> of \<^verbatim>\<open>internal/egress/standalone_main.go.txt\<close>). The handler is a function from a request and the
  state (filter, doors, disk) to an answer and the next state; a request carries what the disk does
  and what \<open>Last\<close> reports while it is served. The JSON codecs and \<open>Policy.Hash\<close> are arguments. The locale \<open>policy_store\<close> is
  what the endpoint relies on in \<open>Persist\<close>, and the container's store is its interpretation.
\<close>

section \<open>The store\<close>

text \<open>The disk is a map from paths to contents. \<open>faults\<close> says which of the calls of one save fails,
  a failing \<open>WriteFile\<close> with the part it wrote.\<close>

type_synonym disk = "string \<Rightarrow> string option"

record faults =
  flt_mkdir :: "string option"
  flt_write :: "(string \<times> string) option"
  flt_rename :: "string option"

definition no_faults :: faults where
  "no_faults = \<lparr>flt_mkdir = None, flt_write = None, flt_rename = None\<rparr>"

definition save_file :: "faults \<Rightarrow> string \<Rightarrow> string \<Rightarrow> disk \<Rightarrow> string option \<times> disk" where
  "save_file flt path b d = (let tmp = path @ ''.tmp'' in
     case flt_mkdir flt of Some e \<Rightarrow> (Some e, d)
   | None \<Rightarrow> (case flt_write flt of Some (e, part) \<Rightarrow> (Some e, d(tmp \<mapsto> part))
       | None \<Rightarrow> (case flt_rename flt of Some e \<Rightarrow> (Some e, d(tmp \<mapsto> b))
           | None \<Rightarrow> (None, (d(tmp := None))(path \<mapsto> b)))))"

section \<open>Requests, answers and state\<close>

record request =
  rq_token :: string
  rq_path :: string
  rq_method :: string
  rq_if_match :: string
  rq_body :: "(string, string) res"
  rq_faults :: faults
  rq_last :: int

datatype control_answer =
    Control_error int
  | Policy_answer string status
  | Refuse_answer "pfx list"
  | Last_answer int

text \<open>The fields of \<open>Control\<close> that do not change, and the codecs: \<open>cc_save\<close> and \<open>cc_save_refuse\<close> are
  the paths and encoders of the two callbacks, \<open>None\<close> for a callback that is nil.\<close>

record control =
  cc_Token :: string
  cc_Persist :: "(string \<times> (policy \<Rightarrow> string)) option"
  cc_PersistRefuse :: "(string \<times> (pfx list \<Rightarrow> string)) option"
  cc_Last :: bool
  cc_hash :: "policy \<Rightarrow> string"
  cc_decode :: "string \<Rightarrow> (string, policy) res"
  cc_decode_refuse :: "string \<Rightarrow> (string, string list) res"

record control_state =
  cs_Filter :: filter
  cs_Doors :: "doors option"
  cs_disk :: disk

text \<open>\<open>io.LimitReader\<close>: at most \<open>n\<close> bytes of the body.\<close>

fun LimitReader :: "string \<Rightarrow> int \<Rightarrow> string" where
  "LimitReader [] n = []"
| "LimitReader (x # xs) n = (if n \<le> 0 then [] else x # LimitReader xs (n - 1))"

definition read_body :: "request \<Rightarrow> (string, string) res" where
  "read_body r = (case rq_body r of Inl e \<Rightarrow> Inl e | Inr b \<Rightarrow> Inr (LimitReader b 1048576))"

definition reply :: "control \<Rightarrow> policy \<Rightarrow> control_answer" where
  "reply c p = Policy_answer (cc_hash c p) (StatusOf p [])"

definition persist :: "control \<Rightarrow> faults \<Rightarrow> policy \<Rightarrow> disk \<Rightarrow> string option \<times> disk" where
  "persist c flt p d = (case cc_Persist c of None \<Rightarrow> (None, d)
     | Some (path, enc) \<Rightarrow> save_file flt path (enc p) d)"

definition persist_refuse :: "control \<Rightarrow> faults \<Rightarrow> pfx list \<Rightarrow> disk \<Rightarrow> string option \<times> disk" where
  "persist_refuse c flt s d = (case cc_PersistRefuse c of None \<Rightarrow> (None, d)
     | Some (path, enc) \<Rightarrow> save_file flt path (enc s) d)"

definition put :: "control \<Rightarrow> request \<Rightarrow> control_state \<Rightarrow> control_answer \<times> control_state" where
  "put c r s = (case read_body r of Inl _ \<Rightarrow> (Control_error 400, s)
   | Inr body \<Rightarrow> (case ParsePolicy (cc_decode c) body of Inl _ \<Rightarrow> (Control_error 400, s)
   | Inr p \<Rightarrow>
       if rq_if_match r \<noteq> [] \<and> rq_if_match r \<noteq> cc_hash c (Policy (cs_Filter s)) then (Control_error 409, s)
       else (case persist c (rq_faults r) p (cs_disk s) of
           (Some _, d) \<Rightarrow> (Control_error 500, s\<lparr>cs_disk := d\<rparr>)
         | (None, d) \<Rightarrow> (case SetPolicy (cs_Filter s) p of
               Inl _ \<Rightarrow> (Control_error 400, s\<lparr>cs_disk := d\<rparr>)
             | Inr f \<Rightarrow> (reply c p, s\<lparr>cs_Filter := f, cs_disk := d\<rparr>)))))"

definition parse_refuse :: "string list \<Rightarrow> (string, pfx list) res" where
  "parse_refuse ss = (case traverse ParsePrefixes ss of Inl e \<Rightarrow> Inl e | Inr ps \<Rightarrow> Inr (concat ps))"

definition refuse :: "control \<Rightarrow> doors \<Rightarrow> request \<Rightarrow> control_state \<Rightarrow> control_answer \<times> control_state" where
  "refuse c d r s =
     (if rq_method r = ''GET'' then (Refuse_answer (Prefixes d), s)
      else if rq_method r = ''PUT'' then
        (case bind_res (read_body r) (cc_decode_refuse c) of Inl _ \<Rightarrow> (Control_error 400, s)
         | Inr ss \<Rightarrow> (case parse_refuse ss of Inl _ \<Rightarrow> (Control_error 400, s)
         | Inr ps \<Rightarrow>
             (let d' = SetPushed d ps in
              case persist_refuse c (rq_faults r) ps (cs_disk s) of
                (e, k) \<Rightarrow> (if e = None then Refuse_answer (Prefixes d') else Control_error 500,
                           s\<lparr>cs_Doors := Some d', cs_disk := k\<rparr>))))
      else (Control_error 405, s))"

definition ServeHTTP :: "control \<Rightarrow> request \<Rightarrow> control_state \<Rightarrow> control_answer \<times> control_state" where
  "ServeHTTP c r s =
     (if cc_Token c = [] \<or> rq_token r \<noteq> cc_Token c then (Control_error 401, s)
      else if rq_path r = ''/policy'' then
        (if rq_method r = ''GET'' then (reply c (Policy (cs_Filter s)), s)
         else if rq_method r = ''PUT'' then put c r s
         else (Control_error 405, s))
      else (case (rq_path r = ''/refuse'', cs_Doors s) of
          (True, Some d) \<Rightarrow> refuse c d r s
        | _ \<Rightarrow> if rq_path r = ''/last'' \<and> cc_Last c \<and> rq_method r = ''GET''
               then (Last_answer (rq_last r), s) else (Control_error 404, s)))"

text \<open>The filter as it serves: its \<open>Refuse\<close> is the method of the doors, so it reads the set in force.\<close>

definition serving :: "control_state \<Rightarrow> filter" where
  "serving s = (cs_Filter s)\<lparr>f_Refuse := map_option Refuse (cs_Doors s)\<rparr>"

section \<open>The contract of Persist\<close>




section \<open>What the endpoint guarantees\<close>

lemma Normalize_DenyAll: "Normalize DenyAll = Inr DenyAll"
  by code_simp

lemma ParsePolicy_normal: "ParsePolicy decode b = Inr p \<Longrightarrow> Normalize p = Inr p"
  by (auto simp: ParsePolicy_def Let_def Normalize_DenyAll dest: Normalize_normal split: if_splits sum.splits)

lemma SetPolicy_normal: "Normalize p = Inr p \<Longrightarrow> SetPolicy f p = Inr (f\<lparr>f_pol := compile p\<rparr>)"
  by (simp add: SetPolicy_def)

lemma Policy_compile [simp]: "Policy (f\<lparr>f_pol := compile p\<rparr>) = p"
  by (simp add: Policy_def)

text \<open>A PUT of a policy has five outcomes and no other; the fifth branch of the code, a policy that
  parses but is not applied after it was saved, cannot happen.\<close>

lemma put_cases:
  assumes "put c r s = (ans, s')"
  obtains (rejected) "s' = s" "ans \<in> {Control_error 400, Control_error 409}"
  | (unsaved) p e d where "persist c (rq_faults r) p (cs_disk s) = (Some e, d)"
      "s' = s\<lparr>cs_disk := d\<rparr>" "ans = Control_error 500"
  | (applied) body p d where "read_body r = Inr body" "ParsePolicy (cc_decode c) body = Inr p"
      "rq_if_match r \<noteq> [] \<longrightarrow> rq_if_match r = cc_hash c (Policy (cs_Filter s))"
      "persist c (rq_faults r) p (cs_disk s) = (None, d)"
      "s' = s\<lparr>cs_Filter := (cs_Filter s)\<lparr>f_pol := compile p\<rparr>, cs_disk := d\<rparr>" "ans = reply c p"
proof (cases "read_body r")
  case (Inl e)
  with assms have "s' = s" "ans = Control_error 400" by (simp_all add: put_def)
  then show thesis using rejected by simp
next
  case body: (Inr body)
  show thesis
  proof (cases "ParsePolicy (cc_decode c) body")
    case (Inl e)
    with body assms have "s' = s" "ans = Control_error 400" by (simp_all add: put_def)
    then show thesis using rejected by simp
  next
    case p: (Inr p)
    obtain e d where k: "persist c (rq_faults r) p (cs_disk s) = (e, d)" by (cases "persist c (rq_faults r) p (cs_disk s)")
    have set: "SetPolicy (cs_Filter s) p = Inr ((cs_Filter s)\<lparr>f_pol := compile p\<rparr>)"
      using ParsePolicy_normal [OF p] by (rule SetPolicy_normal)
    let ?stale = "rq_if_match r \<noteq> [] \<and> rq_if_match r \<noteq> cc_hash c (Policy (cs_Filter s))"
    consider "?stale" | "\<not> ?stale" "e = None" | e' where "\<not> ?stale" "e = Some e'" by blast
    then show thesis
    proof cases
      case 1
      with assms body p have "s' = s" "ans = Control_error 409" by (simp_all add: put_def)
      then show thesis using rejected by simp
    next
      case 2
      with assms body p k set
      have "s' = s\<lparr>cs_Filter := (cs_Filter s)\<lparr>f_pol := compile p\<rparr>, cs_disk := d\<rparr>" "ans = reply c p"
        by (simp_all add: put_def)
      with 2 k show thesis using applied [OF body p] by blast
    next
      case 3
      with assms body p k have "s' = s\<lparr>cs_disk := d\<rparr>" "ans = Control_error 500" by (simp_all add: put_def)
      with 3 k show thesis using unsaved by simp
    qed
  qed
qed

lemma refuse_Filter [simp]: "cs_Filter (snd (refuse c d r s)) = cs_Filter s"
  by (auto simp: refuse_def Let_def split: sum.splits prod.splits)

lemma ServeHTTP_Filter:
  assumes "cs_Filter (snd (ServeHTTP c r s)) \<noteq> cs_Filter s"
  shows "cc_Token c \<noteq> [] \<and> rq_token r = cc_Token c \<and> rq_path r = ''/policy'' \<and>
    rq_method r = ''PUT'' \<and> ServeHTTP c r s = put c r s"
  using assms by (auto simp: ServeHTTP_def split: if_splits option.splits bool.splits)







text \<open>Unmapping and masking a pushed prefix opens nothing it held: an unmapped address inside an
  IPv4-mapped prefix does not exist.\<close>

lemma drop_bit_coarser:
  "drop_bit m (v :: 'a :: len word) = drop_bit m w \<Longrightarrow> m \<le> n \<Longrightarrow> drop_bit n v = drop_bit n w"
  by (metis drop_bit_drop_bit le_add_diff_inverse2)

lemma PfxContains_unmapPrefix:
  assumes "PfxContains p (Unmap a)"
  shows "PfxContains (unmapPrefix (Masked p)) (Unmap a)"
proof -
  have v: "valid_pfx p" using assms by (simp add: PfxContains_def)
  with assms have m: "PfxContains (Masked p) (Unmap a)" by simp
  have False if six: "Is4In6 (pfx_addr (Masked p))" and b: "\<not> pfx_bits (Masked p) < 96"
  proof -
    from six m obtain x z w y where x: "pfx_addr (Masked p) = Addr6 x z" "drop_bit 32 x = 0xffff"
      and w: "Unmap a = Addr6 w y" and same: "drop_bit (128 - pfx_bits (Masked p)) (w XOR x) = 0"
      by (cases "pfx_addr (Masked p)"; cases "Unmap a") (auto simp: PfxContains_def Is4In6_def)
    have "drop_bit 32 w = drop_bit 32 x"
    proof (rule drop_bit_coarser)
      show "drop_bit (128 - pfx_bits (Masked p)) w = drop_bit (128 - pfx_bits (Masked p)) x"
        using same by (simp only: drop_bit_xor xor_zero_iff)
      show "128 - pfx_bits (Masked p) \<le> 32" using b by simp
    qed
    with x w have "Is4In6 (Unmap a)" by (simp add: Is4In6_def)
    then show False by simp
  qed
  with m show ?thesis by (auto simp: unmapPrefix_def)
qed

lemma Refuse_pushed: "p \<in> set ps \<Longrightarrow> PfxContains p (Unmap a) \<Longrightarrow> Refuse (SetPushed d ps) a"
  using PfxContains_unmapPrefix [of p a]
  by (auto simp: Refuse_def SetPushed_def Pushed_def contains_def list_ex_iff Let_def split: option.splits)

text \<open>
  (C5) The policy in force changes only by a PUT of \<open>/policy\<close> that carries the control token, a
  policy that parses and an \<open>If-Match\<close>, if any, of the policy it replaces; it becomes the policy of
  the body, and where the control has a store it was saved before.
\<close>

theorem policy_changes_only_by_accepted_put:
  assumes "Policy (cs_Filter (snd (ServeHTTP c r s))) \<noteq> Policy (cs_Filter s)"
  shows "cc_Token c \<noteq> [] \<and> rq_token r = cc_Token c \<and> rq_path r = ''/policy'' \<and> rq_method r = ''PUT'' \<and>
    (rq_if_match r \<noteq> [] \<longrightarrow> rq_if_match r = cc_hash c (Policy (cs_Filter s))) \<and>
    (\<exists>body p d. read_body r = Inr body \<and> ParsePolicy (cc_decode c) body = Inr p \<and>
       persist c (rq_faults r) p (cs_disk s) = (None, d) \<and>
       snd (ServeHTTP c r s) = s\<lparr>cs_Filter := (cs_Filter s)\<lparr>f_pol := compile p\<rparr>, cs_disk := d\<rparr>)"
proof -
  have "cs_Filter (snd (ServeHTTP c r s)) \<noteq> cs_Filter s" using assms by auto
  note put = ServeHTTP_Filter [OF this]
  obtain ans s' where p: "put c r s = (ans, s')" by (cases "put c r s")
  from p have ?thesis
  proof (cases rule: put_cases)
    case rejected
    with put p assms show ?thesis by simp
  next
    case (unsaved q e d)
    with put p assms show ?thesis by simp
  next
    case (applied body q d)
    then show ?thesis using put p by simp
  qed
  then show ?thesis .
qed

text \<open>A control as the container has it, with codecs that know two policies: \<open>D\<close> is \<open>DenyAll\<close> and
  \<open>A\<close> allows everything.\<close>

definition AllowAll :: policy where "AllowAll = mk_policy ActionAllow []"

definition demo_enc :: "policy \<Rightarrow> string" where
  "demo_enc p = (if p = AllowAll then ''A'' else ''D'')"

definition demo_dec :: "string \<Rightarrow> (string, policy) res" where
  "demo_dec s = (if s = ''A'' then Inr AllowAll else if s = ''D'' then Inr DenyAll else Inl ''bad'')"

definition demo_control :: control where
  "demo_control = \<lparr>cc_Token = ''tok'', cc_Persist = Some (''/s/policy.json'', demo_enc),
     cc_PersistRefuse = Some (''/s/refuse.json'', \<lambda>_. ''R''), cc_Last = True, cc_hash = demo_enc,
     cc_decode = demo_dec, cc_decode_refuse = (\<lambda>s. Inr [s])\<rparr>"

definition demo_start :: control_state where
  "demo_start = \<lparr>cs_Filter = NewPolicy DenyAll,
     cs_Doors = Some \<lparr>d_Static = [], d_set = Some [], d_pushed = None\<rparr>,
     cs_disk = [''/s/policy.json'' \<mapsto> ''D'']\<rparr>"

definition demo_put :: "string \<Rightarrow> string \<Rightarrow> faults \<Rightarrow> request" where
  "demo_put path body flt = \<lparr>rq_token = ''tok'', rq_path = path, rq_method = ''PUT'', rq_if_match = ''D'',
     rq_body = Inr body, rq_faults = flt, rq_last = 0\<rparr>"

theorem policy_changes_only_by_accepted_put_witness:
  "Policy (cs_Filter (snd (ServeHTTP demo_control (demo_put ''/policy'' ''A'' no_faults) demo_start))) = AllowAll \<and>
   (\<exists>body p d. read_body (demo_put ''/policy'' ''A'' no_faults) = Inr body \<and>
       ParsePolicy demo_dec body = Inr p \<and> persist demo_control no_faults p (cs_disk demo_start) = (None, d))"
proof -
  have 1: "Policy (cs_Filter (snd (ServeHTTP demo_control (demo_put ''/policy'' ''A'' no_faults) demo_start))) = AllowAll"
    by code_simp
  moreover have "AllowAll \<noteq> Policy (cs_Filter demo_start)" by code_simp
  ultimately have h: "Policy (cs_Filter (snd (ServeHTTP demo_control (demo_put ''/policy'' ''A'' no_faults) demo_start)))
     \<noteq> Policy (cs_Filter demo_start)" by simp
  have e: "cc_decode demo_control = demo_dec" "rq_faults (demo_put ''/policy'' ''A'' no_faults) = no_faults"
    by (simp_all add: demo_control_def demo_put_def)
  show ?thesis using policy_changes_only_by_accepted_put [OF h] 1 unfolding e by blast
qed



text \<open>
  A push of refused addresses is all or nothing, and closed at once: a body with an entry that
  does not parse changes nothing, and otherwise the filter never again dials an address inside one
  of the entries, whatever the policy, even when the set could not be saved.
\<close>

theorem refuse_push_all_or_nothing:
  assumes "cc_Token c \<noteq> []" "rq_token r = cc_Token c" "rq_path r = ''/refuse''" "rq_method r = ''PUT''"
    and "cs_Doors s = Some d" and "bind_res (read_body r) (cc_decode_refuse c) = Inr ss"
  shows "case parse_refuse ss of
      Inl _ \<Rightarrow> ServeHTTP c r s = (Control_error 400, s)
    | Inr ps \<Rightarrow> \<forall>p \<in> set ps. \<forall>a. PfxContains p (Unmap a) \<longrightarrow>
        a \<notin> set (fst (dial (serving (snd (ServeHTTP c r s))) resolve dialer host port))"
proof (cases "parse_refuse ss")
  case (Inl e)
  with assms show ?thesis by (simp add: ServeHTTP_def refuse_def)
next
  case (Inr ps)
  let ?s = "snd (ServeHTTP c r s)"
  have f: "f_Refuse (serving ?s) = Some (Refuse (SetPushed d ps))"
    using assms Inr by (simp add: ServeHTTP_def refuse_def serving_def Let_def split: prod.splits)
  have "doors_kept (SetPushed d ps) a" if "p \<in> set ps" "PfxContains p (Unmap a)" for p a
    using Refuse_pushed [OF that] by (simp add: Refuse_kept)
  moreover have "\<not> doors_kept (SetPushed d ps) a"
    if "a \<in> set (fst (dial (serving ?s) resolve dialer host port))" for a
    using that by (rule container_doors.dial_avoids [OF f])
  ultimately show ?thesis using Inr by auto
qed

theorem refuse_push_all_or_nothing_witness:
  "let full = \<lparr>flt_mkdir = None, flt_write = Some (''no space'', ''''), flt_rename = None\<rparr>;
       r = demo_put ''/refuse'' ''172.18.0.0/16'' full;
       s = snd (ServeHTTP demo_control r demo_start)
   in fst (ServeHTTP demo_control r demo_start) = Control_error 500 \<and>
      Addr4 0xAC120001 \<notin> set (fst (dial (serving s) (\<lambda>_. Inr [Addr4 0xAC120001]) (\<lambda>a h. Inr ()) ''example.com'' ''443''))"
proof -
  let ?full = "\<lparr>flt_mkdir = None, flt_write = Some (''no space'', ''''), flt_rename = None\<rparr>"
  let ?r = "demo_put ''/refuse'' ''172.18.0.0/16'' ?full"
  have 1: "cc_Token demo_control \<noteq> []" "rq_token ?r = cc_Token demo_control" "rq_path ?r = ''/refuse''"
    "rq_method ?r = ''PUT''" "cs_Doors demo_start = Some \<lparr>d_Static = [], d_set = Some [], d_pushed = None\<rparr>"
    by (simp_all add: demo_control_def demo_put_def demo_start_def)
  have 2: "bind_res (read_body ?r) (cc_decode_refuse demo_control) = Inr [''172.18.0.0/16'']" by code_simp
  have 3: "fst (ServeHTTP demo_control ?r demo_start) = Control_error 500" by code_simp
  have 4: "parse_refuse [''172.18.0.0/16''] = Inr [Pfx (Addr4 0xAC120000) 16]" by code_simp
  have 5: "PfxContains (Pfx (Addr4 0xAC120000) 16) (Unmap (Addr4 0xAC120001))" by code_simp
  note refuse_push_all_or_nothing [OF 1 2, of "\<lambda>_. Inr [Addr4 0xAC120001]" "\<lambda>a h. Inr ()" "''example.com''" "''443''"]
  with 3 4 5 show ?thesis by (simp add: Let_def)
qed

text \<open>
  No token, no endpoint: without the control token, and for a control that has none, every
  path answers 401 and nothing changes.
\<close>

theorem no_token_no_control:
  assumes "rq_token r \<noteq> cc_Token c \<or> cc_Token c = []"
  shows "ServeHTTP c r s = (Control_error 401, s)"
  using assms by (auto simp: ServeHTTP_def)

theorem no_token_no_control_witness:
  "ServeHTTP (demo_control\<lparr>cc_Token := []\<rparr>) ((demo_put ''/policy'' ''A'' no_faults)\<lparr>rq_token := []\<rparr>) demo_start
     = (Control_error 401, demo_start)"
  by (rule no_token_no_control) simp

end
