(* ===== verification/Spec_Model.thy ===== *)
theory Spec_Model
  imports Egress_Filter
begin

text \<open>
  The sandbox spec and the checks on one service: the types and \<open>Service.validate\<close> of
  \<^verbatim>\<open>internal/spec/spec.go\<close>, \<open>checkCapAdd\<close> of \<^verbatim>\<open>caps.go\<close> and \<open>checkLimits\<close> of \<^verbatim>\<open>limits.go\<close>. A Go map is an
  association list with distinct keys, in the order a \<open>range\<close> over it takes. \<open>time.ParseDuration\<close> is
  written out on \<open>int\<close> nanoseconds; the fraction is rounded down exactly where the library goes
  through a \<open>float64\<close>. \<open>strconv.ParseFloat\<close> and the CSV reader are arguments.
\<close>

section \<open>Durations\<close>

definition second :: int where "second = 1000000000"
definition millisecond :: int where "millisecond = 1000000"
definition minute :: int where "minute = 60000000000"

definition unit_of :: "string \<Rightarrow> int option" where
  "unit_of u = map_of [(''ns'', 1), (''us'', 1000), ([CHR 0xC2, CHR 0xB5, CHR ''s''], 1000),
     ([CHR 0xCE, CHR 0xBC, CHR ''s''], 1000), (''ms'', 1000000), (''s'', 1000000000),
     (''m'', 60000000000), (''h'', 3600000000000)] u"

text \<open>\<open>leadingInt\<close>: the digits, an error past \<open>1 << 63\<close>. \<open>leadingFraction\<close>: the digits after the
  point and their scale; it never fails and stops accumulating past \<open>1 << 63\<close>.\<close>

fun leadingInt :: "int \<Rightarrow> string \<Rightarrow> (int \<times> string) option" where
  "leadingInt x [] = Some (x, [])"
| "leadingInt x (c # cs) = (if \<not> isDigit c then Some (x, c # cs)
     else if x > 9223372036854775808 div 10 then None
     else let y = x * 10 + (byte_of c - 48) in if y > 9223372036854775808 then None else leadingInt y cs)"

fun leadingFraction :: "int \<Rightarrow> int \<Rightarrow> bool \<Rightarrow> string \<Rightarrow> int \<times> int \<times> string" where
  "leadingFraction x scale overflow [] = (x, scale, [])"
| "leadingFraction x scale overflow (c # cs) = (if \<not> isDigit c then (x, scale, c # cs)
     else if overflow then leadingFraction x scale True cs
     else if x > 9223372036854775807 div 10 then leadingFraction x scale True cs
     else let y = x * 10 + (byte_of c - 48) in
       if y > 9223372036854775808 then leadingFraction x scale True cs
       else leadingFraction y (scale * 10) False cs)"

lemma leadingInt_len: "leadingInt x s = Some (y, t) \<Longrightarrow> length t \<le> length s"
  by (induction x s rule: leadingInt.induct) (auto simp: Let_def split: if_splits)

lemma leadingFraction_len: "leadingFraction x k b s = (y, l, t) \<Longrightarrow> length t \<le> length s"
  by (induction x k b s arbitrary: y l t rule: leadingFraction.induct)
    (auto simp: Let_def le_SucI split: if_splits)

definition unit_byte :: "char \<Rightarrow> bool" where
  "unit_byte c = (c \<noteq> CHR ''.'' \<and> \<not> isDigit c)"

text \<open>One round of the loop of \<open>ParseDuration\<close>: number, fraction, unit.\<close>

definition duration_fraction :: "string \<Rightarrow> int \<times> int \<times> string \<times> bool" where
  "duration_fraction s = (if s \<noteq> [] \<and> hd s = CHR ''.''
     then (let (f, scale, t) = leadingFraction 0 1 False (tl s) in (f, scale, t, length t \<noteq> length (tl s)))
     else (0, 1, s, False))"

definition duration_unit :: "int \<Rightarrow> int \<Rightarrow> int \<Rightarrow> string \<Rightarrow> (int \<times> string) option" where
  "duration_unit v f scale s = (let u = takeWhile unit_byte s in
     if u = [] then None
     else (case unit_of u of None \<Rightarrow> None
       | Some unit \<Rightarrow>
           if v > 9223372036854775808 div unit then None
           else let w = v * unit + (if f > 0 then f * unit div scale else 0)
           in if w > 9223372036854775808 then None else Some (w, dropWhile unit_byte s)))"

definition duration_term :: "string \<Rightarrow> (int \<times> string) option" where
  "duration_term s = (if s = [] \<or> \<not> (hd s = CHR ''.'' \<or> isDigit (hd s)) then None
     else (case leadingInt 0 s of None \<Rightarrow> None
     | Some (v, s1) \<Rightarrow> (case duration_fraction s1 of (f, scale, s2, post) \<Rightarrow>
         if length s1 = length s \<and> \<not> post then None else duration_unit v f scale s2)))"

lemma duration_fraction_len: "duration_fraction s = (f, scale, t, post) \<Longrightarrow> length t \<le> length s"
  by (auto simp: duration_fraction_def split: if_splits prod.splits dest!: leadingFraction_len)

lemma duration_unit_len: "duration_unit v f scale s = Some (w, t) \<Longrightarrow> length t < length s"
proof -
  have d: "length (dropWhile P xs) < length xs" if "takeWhile P xs \<noteq> []" for P and xs :: string
    using that by (metis length_append length_greater_0_conv less_add_same_cancel2 takeWhile_dropWhile_id)
  show "duration_unit v f scale s = Some (w, t) \<Longrightarrow> length t < length s"
    using d [of unit_byte s] by (simp add: duration_unit_def Let_def split: option.splits if_splits)
qed

lemma duration_term_len:
  assumes "duration_term s = Some (v, t)"
  shows "length t < length s"
proof -
  from assms obtain x s1 f k s2 post where "leadingInt 0 s = Some (x, s1)"
    "duration_fraction s1 = (f, k, s2, post)" "duration_unit x f k s2 = Some (v, t)"
    by (auto simp: duration_term_def split: option.splits if_splits prod.splits)
  then show ?thesis using leadingInt_len duration_fraction_len duration_unit_len by fastforce
qed

function duration_terms :: "int \<Rightarrow> string \<Rightarrow> int option" where
  "duration_terms d s = (if s = [] then Some d else (case duration_term s of None \<Rightarrow> None
     | Some (w, t) \<Rightarrow> if d + w > 9223372036854775808 then None else duration_terms (d + w) t))"
  by pat_completeness auto
termination by (relation "measure (length \<circ> snd)") (auto dest: duration_term_len)

declare duration_terms.simps [simp del]

definition ParseDuration :: "string \<Rightarrow> int option" where
  "ParseDuration s0 =
     (let (neg, s) = (if s0 \<noteq> [] \<and> (hd s0 = CHR ''-'' \<or> hd s0 = CHR ''+'') then (hd s0 = CHR ''-'', tl s0) else (False, s0))
      in if s = ''0'' then Some 0
         else if s = [] then None
         else (case duration_terms 0 s of None \<Rightarrow> None
           | Some d \<Rightarrow> if neg then Some (- d)
                      else if d > 9223372036854775807 then None else Some d))"

section \<open>The types\<close>

record build =
  b_Context :: string
  b_Dockerfile :: string

record volumeMount =
  vm_Volume :: string
  vm_Host :: string
  vm_Target :: string
  vm_SubPath :: string
  vm_ReadOnly :: bool

record service =
  Image :: string
  Build :: "build option"
  svc_Ports :: "int list"
  Health :: string
  HealthInterval :: string
  HealthStartInterval :: string
  Env :: "(string \<times> string) list"
  Args :: "string list"
  Volume :: string
  Files :: "(string \<times> string) list"
  Mounts :: "(string \<times> string) list"
  Init :: "string list"
  DependsOn :: "string list"
  Optional :: bool
  Egress :: string
  EgressAllow :: "string list"
  EgressPolicy :: "policy option"
  CPU :: string
  Memory :: string
  Idle :: string
  GPUs :: string
  CapAdd :: "string list"
  Entrypoint :: "string list"
  ReadOnlyVolumes :: "(string \<times> string) list"
  VolumeMounts :: "volumeMount list"
  OnIdle :: string
  OSBOwner :: string

record spec =
  Version :: int
  Services :: "(string \<times> service) list"
  Exports :: "(string \<times> string) list"
  spec_HealthInterval :: string

text \<open>One constructor per message of the checks, with what the message names.\<close>

datatype interval_error = Not_a_duration string | Too_fast int | Too_slow int

datatype mount_error =
    Not_exactly_one | Not_volume_name string | Host_relative string | Sub_path_of_host
  | Target_relative string | Sub_path_escapes string | Mount_byte string

datatype cap_error = Blank_cap | All_caps string | Unknown_cap string

datatype spec_error =
    Decode_error string
  | Bad_version int
  | No_services
  | Bad_service_name string
  | Needs_image string
  | Image_and_build string
  | No_context string
  | No_ports string
  | Bad_interval string interval_error
  | Bad_start_interval string interval_error
  | Port_range string int
  | Mount_no_host string
  | Mount_relative string string string
  | Bad_egress string string
  | Contradicting_egress string
  | Bad_egress_policy string policy_error
  | Bad_caps string "cap_error list"
  | Blank_allow string
  | Bad_allow string entry_error
  | Bad_on_idle string string
  | Bad_ro_volume string string
  | Ro_volume_relative string string string
  | Bad_volume_mount string nat mount_error
  | Bad_idle string string
  | Bad_cpu string string
  | Bad_memory string string
  | Bad_gpus string string
  | Env_syntax "(string \<times> string \<times> string list) list"
  | Env_unset "(string \<times> string list) list"
  | Env_syntax_and_unset "(string \<times> string \<times> string list) list" "(string \<times> string list) list"
  | Self_dependency string
  | Unknown_dependency string string
  | Dependency_cycle "string list"
  | Different_policies string string
  | List_and_policy string string
  | Bad_export string string
  | Export_service string string
  | Export_port string string string
  | Too_many_ports

section \<open>Intervals\<close>

definition checkInterval :: "string \<Rightarrow> (interval_error, unit) res" where
  "checkInterval raw = (if TrimSpace raw = [] then Inr ()
     else (case ParseDuration raw of None \<Rightarrow> Inl (Not_a_duration raw)
       | Some d \<Rightarrow> if d < 50 * millisecond then Inl (Too_fast d)
                  else if d > 5 * minute then Inl (Too_slow d) else Inr ()))"

definition DefaultHealthInterval :: int where "DefaultHealthInterval = 300 * millisecond"

fun probe_loop :: "string list \<Rightarrow> int" where
  "probe_loop [] = DefaultHealthInterval"
| "probe_loop (raw # rest) = (if TrimSpace raw = [] then probe_loop rest
     else (case ParseDuration raw of
         Some d \<Rightarrow> if d > 0 then d else probe_loop rest
       | None \<Rightarrow> probe_loop rest))"

definition ProbeInterval :: "spec \<Rightarrow> service \<Rightarrow> int" where
  "ProbeInterval s svc = probe_loop [HealthInterval svc, spec_HealthInterval s]"

section \<open>Capabilities and limits\<close>

definition linuxCapabilities :: "string list" where
  "linuxCapabilities = [''CHOWN'', ''DAC_OVERRIDE'', ''DAC_READ_SEARCH'', ''FOWNER'', ''FSETID'',
     ''KILL'', ''SETGID'', ''SETUID'', ''SETPCAP'', ''LINUX_IMMUTABLE'',
     ''NET_BIND_SERVICE'', ''NET_BROADCAST'', ''NET_ADMIN'', ''NET_RAW'',
     ''IPC_LOCK'', ''IPC_OWNER'', ''SYS_MODULE'', ''SYS_RAWIO'', ''SYS_CHROOT'',
     ''SYS_PTRACE'', ''SYS_PACCT'', ''SYS_ADMIN'', ''SYS_BOOT'', ''SYS_NICE'',
     ''SYS_RESOURCE'', ''SYS_TIME'', ''SYS_TTY_CONFIG'', ''MKNOD'', ''LEASE'',
     ''AUDIT_WRITE'', ''AUDIT_CONTROL'', ''SETFCAP'', ''MAC_OVERRIDE'',
     ''MAC_ADMIN'', ''SYSLOG'', ''WAKE_ALARM'', ''BLOCK_SUSPEND'', ''AUDIT_READ'',
     ''PERFMON'', ''BPF'', ''CHECKPOINT_RESTORE'']"

definition cap_refused :: "string \<Rightarrow> cap_error option" where
  "cap_refused raw = (let c = TrimPrefix (ToUpper (TrimSpace raw)) ''CAP_'' in
     if c = [] then Some Blank_cap
     else if c = ''ALL'' then Some (All_caps raw)
     else if c \<in> set linuxCapabilities then None
     else Some (Unknown_cap raw))"

definition checkCapAdd :: "string \<Rightarrow> string list \<Rightarrow> (spec_error, unit) res" where
  "checkCapAdd name caps = (let bad = List.map_filter cap_refused caps in
     guard_res (bad \<noteq> []) (Bad_caps name bad))"

text \<open>\<open>memorySize\<close>: a number, then a decimal exponent or an optional unit.\<close>

definition opt_byte :: "string \<Rightarrow> string \<Rightarrow> string" where
  "opt_byte bytes s = (if s \<noteq> [] \<and> hd s \<in> set bytes then tl s else s)"

definition size_number :: "string \<Rightarrow> string option" where
  "size_number s = (let d = takeWhile isDigit s; r = dropWhile isDigit s in
     if d \<noteq> [] then
       (if r \<noteq> [] \<and> hd r = CHR ''.'' then Some (dropWhile isDigit (tl r)) else Some r)
     else if r \<noteq> [] \<and> hd r = CHR ''.'' \<and> takeWhile isDigit (tl r) \<noteq> [] then Some (dropWhile isDigit (tl r))
     else None)"

definition size_exponent :: "string \<Rightarrow> bool" where
  "size_exponent r = (r \<noteq> [] \<and> hd r \<in> set ''eE'' \<and>
     (let t = opt_byte ''+-'' (tl r) in t \<noteq> [] \<and> list_all isDigit t))"

definition size_unit :: "string \<Rightarrow> bool" where
  "size_unit r = (opt_byte ''bB'' (opt_byte ''iI'' (opt_byte ''kKmMgGtTpPeE'' (opt_byte '' '' r))) = [])"

definition memorySize :: "string \<Rightarrow> bool" where
  "memorySize s = (case size_number s of None \<Rightarrow> False | Some r \<Rightarrow> size_exponent r \<or> size_unit r)"

definition gpuKeys :: "string list" where
  "gpuKeys = [''count'', ''driver'', ''device'', ''capabilities'', ''options'']"

definition gpu_field :: "string \<Rightarrow> bool" where
  "gpu_field f = (let (key, val) = (case Cut f CHR ''='' of None \<Rightarrow> (''count'', f) | Some kv \<Rightarrow> kv) in
     key \<in> set gpuKeys \<and> (key = ''count'' \<longrightarrow> Atoi val \<noteq> None \<or> val = ''all''))"

text \<open>What \<open>ParseFloat\<close> returns, as far as \<open>checkLimits\<close> looks at it; \<open>csv\<close> is one \<open>Read\<close>.\<close>

datatype float_class = Finite_nonneg | Finite_neg | NaN | Inf

record parsers =
  ParseFloat :: "string \<Rightarrow> float_class option"
  csv_Read :: "string \<Rightarrow> string list option"

definition validGPUs :: "parsers \<Rightarrow> string \<Rightarrow> bool" where
  "validGPUs lib g = (case csv_Read lib g of None \<Rightarrow> False | Some fs \<Rightarrow> list_all gpu_field fs)"

definition checkLimits :: "parsers \<Rightarrow> string \<Rightarrow> service \<Rightarrow> (spec_error, unit) res" where
  "checkLimits lib name svc =
     then_res (guard_res (CPU svc \<noteq> [] \<and> ParseFloat lib (TrimSuffix (TrimSpace (CPU svc)) ''m'') \<noteq> Some Finite_nonneg)
         (Bad_cpu name (CPU svc)))
    (then_res (guard_res (Memory svc \<noteq> [] \<and> \<not> memorySize (TrimSpace (Memory svc))) (Bad_memory name (Memory svc)))
         (guard_res (GPUs svc \<noteq> [] \<and> \<not> validGPUs lib (TrimSpace (GPUs svc))) (Bad_gpus name (GPUs svc))))"

section \<open>One service\<close>

definition vm_validate :: "volumeMount \<Rightarrow> (mount_error, unit) res" where
  "vm_validate m =
     (if (vm_Volume m = []) = (vm_Host m = []) then Inl Not_exactly_one
      else if vm_Volume m \<noteq> [] \<and> ContainsAny (vm_Volume m) ''/:'' then Inl (Not_volume_name (vm_Volume m))
      else if vm_Host m \<noteq> [] \<and> \<not> HasPrefix (vm_Host m) ''/'' then Inl (Host_relative (vm_Host m))
      else if vm_Host m \<noteq> [] \<and> vm_SubPath m \<noteq> [] then Inl Sub_path_of_host
      else if \<not> HasPrefix (vm_Target m) ''/'' then Inl (Target_relative (vm_Target m))
      else if vm_SubPath m \<noteq> [] \<and> (HasPrefix (vm_SubPath m) ''/'' \<or> ''..'' \<in> set (Split (vm_SubPath m) CHR ''/''))
        then Inl (Sub_path_escapes (vm_SubPath m))
      else check_all (\<lambda>v. guard_res (ContainsAny v [CHR '','', CHR 0x22, CHR 0x0A, CHR 0x00]) (Mount_byte v))
        [vm_Volume m, vm_Host m, vm_Target m, vm_SubPath m])"

definition IdleNever :: "service \<Rightarrow> bool" where
  "IdleNever s = (Idle s = ''never'' \<or> Idle s = ''0'')"

definition EgressDeny_value :: string where "EgressDeny_value = ''deny''"
definition EgressAllow_value :: string where "EgressAllow_value = ''allow''"
definition OnIdleStop :: string where "OnIdleStop = ''stop''"
definition OnIdleFreeze :: string where "OnIdleFreeze = ''freeze''"

definition validatePolicy :: "service \<Rightarrow> string \<Rightarrow> (spec_error, unit) res" where
  "validatePolicy s name =
     (let declared = length (filter id [Egress s \<noteq> [], EgressAllow s \<noteq> [], EgressPolicy s \<noteq> None]) in
      if declared > 1 then Inl (Contradicting_egress name)
      else (case EgressPolicy s of None \<Rightarrow> Inr ()
        | Some p \<Rightarrow> (case Normalize p of Inl e \<Rightarrow> Inl (Bad_egress_policy name e) | Inr _ \<Rightarrow> Inr ())))"

definition Filtered :: "service \<Rightarrow> bool" where
  "Filtered s = (EgressAllow s \<noteq> [] \<or> EgressPolicy s \<noteq> None \<or> Egress s = EgressAllow_value)"

definition DeclaredPolicy :: "service \<Rightarrow> policy" where
  "DeclaredPolicy s = (case EgressPolicy s of
      Some p \<Rightarrow> (case Normalize p of Inr q \<Rightarrow> q | Inl _ \<Rightarrow> DenyAll)
    | None \<Rightarrow> if Egress s = EgressAllow_value then mk_policy ActionAllow []
             else FromAllowList (EgressAllow s))"

definition check_image :: "service \<Rightarrow> string \<Rightarrow> (spec_error, unit) res" where
  "check_image s name = (case (TrimSpace (Image s) \<noteq> [], Build s) of
      (False, None) \<Rightarrow> Inl (Needs_image name)
    | (True, Some _) \<Rightarrow> Inl (Image_and_build name)
    | (False, Some b) \<Rightarrow> guard_res (TrimSpace (b_Context b) = []) (No_context name)
    | (True, None) \<Rightarrow> Inr ())"

definition check_mount :: "string \<Rightarrow> string \<times> string \<Rightarrow> (spec_error, unit) res" where
  "check_mount name hc = (case hc of (host, dest) \<Rightarrow>
     if TrimSpace host = [] then Inl (Mount_no_host name)
     else guard_res (\<not> HasPrefix dest ''/'') (Mount_relative name host dest))"

definition check_allow :: "string \<Rightarrow> string \<Rightarrow> (spec_error, unit) res" where
  "check_allow name h = (if TrimSpace h = [] then Inl (Blank_allow name)
     else map_err (Bad_allow name) (CheckAllowEntry h))"

definition check_ro_volume :: "string \<Rightarrow> string \<times> string \<Rightarrow> (spec_error, unit) res" where
  "check_ro_volume name vd = (case vd of (vol, dest) \<Rightarrow>
     if TrimSpace vol = [] \<or> ContainsAny vol ''/:'' then Inl (Bad_ro_volume name vol)
     else guard_res (\<not> HasPrefix dest ''/'') (Ro_volume_relative name vol dest))"

definition validate :: "service \<Rightarrow> string \<Rightarrow> (spec_error, unit) res" where
  "validate s name =
     then_res (check_image s name)
    (then_res (guard_res (svc_Ports s = []) (No_ports name))
    (then_res (map_err (Bad_interval name) (checkInterval (HealthInterval s)))
    (then_res (map_err (Bad_start_interval name) (checkInterval (HealthStartInterval s)))
    (then_res (check_all (\<lambda>p. guard_res (p < 1 \<or> p > 65535) (Port_range name p)) (svc_Ports s))
    (then_res (check_all (check_mount name) (Mounts s))
    (then_res (guard_res (Egress s \<notin> {[], EgressDeny_value, EgressAllow_value}) (Bad_egress name (Egress s)))
    (then_res (validatePolicy s name)
    (then_res (checkCapAdd name (CapAdd s))
    (then_res (check_all (check_allow name) (EgressAllow s))
    (then_res (guard_res (OnIdle s \<notin> {[], OnIdleStop, OnIdleFreeze}) (Bad_on_idle name (OnIdle s)))
    (then_res (check_all (check_ro_volume name) (ReadOnlyVolumes s))
    (then_res (check_all (\<lambda>(i, m). map_err (Bad_volume_mount name i) (vm_validate m)) (enumerate 0 (VolumeMounts s)))
    (guard_res (Idle s \<noteq> [] \<and> \<not> IdleNever s \<and> ParseDuration (Idle s) = None) (Bad_idle name (Idle s)))))))))))))))"

definition HasPort :: "service \<Rightarrow> string \<Rightarrow> bool" where
  "HasPort s want = list_ex (\<lambda>p. Itoa p = want) (svc_Ports s)"

end
