(* ===== verification/Spec_Order.thy ===== *)
theory Spec_Order
  imports Spec_Model
begin

text \<open>
  Names, ordinals and the creation order of a spec: \<open>Names\<close>, \<open>Assign\<close>, \<open>StartIndex\<close> and
  \<open>checkEgressFilters\<close> of \<^verbatim>\<open>internal/spec/spec.go\<close>, \<open>CreationOrder\<close> and \<open>checkDependencies\<close> of
  \<^verbatim>\<open>internal/spec/order.go\<close>. The depth-first search keeps the code's four variables in a record; its
  recursion is bounded by fuel, one more than the number of services, and \<open>CreationOrder_returns\<close>
  shows that it is always enough.
\<close>

section \<open>Names\<close>

definition zero_service :: service where
  "zero_service = \<lparr>Image = [], Build = None, svc_Ports = [], Health = [], HealthInterval = [],
     HealthStartInterval = [], Env = [], Args = [], Volume = [], Files = [], Mounts = [], Init = [],
     DependsOn = [], Optional = False, Egress = [], EgressAllow = [], EgressPolicy = None, CPU = [],
     Memory = [], Idle = [], GPUs = [], CapAdd = [], Entrypoint = [], ReadOnlyVolumes = [],
     VolumeMounts = [], OnIdle = [], OSBOwner = []\<rparr>"

text \<open>\<open>s.Services[name]\<close>: the zero \<open>Service\<close> for a key that is not there.\<close>

definition svc_of :: "spec \<Rightarrow> string \<Rightarrow> service" where
  "svc_of s name = (case map_of (Services s) name of Some v \<Rightarrow> v | None \<Rightarrow> zero_service)"

definition declares :: "spec \<Rightarrow> string \<Rightarrow> bool" where
  "declares s name = (map_of (Services s) name \<noteq> None)"

definition Names :: "spec \<Rightarrow> string list" where
  "Names s = sort (map fst (Services s))"

definition wf_spec :: "spec \<Rightarrow> bool" where
  "wf_spec s = distinct (map fst (Services s))"

lemma set_Names [simp]: "set (Names s) = fst ` set (Services s)"
  by (simp add: Names_def)

lemma declares_iff: "declares s name \<longleftrightarrow> name \<in> set (Names s)"
  by (simp add: declares_def map_of_eq_None_iff)

lemma Names_facts: "sorted (Names s)" "wf_spec s \<Longrightarrow> distinct (Names s)"
  "length (Names s) = length (Services s)"
  by (simp_all add: Names_def wf_spec_def)

section \<open>Ordinals\<close>

definition MaxOrdinals :: nat where "MaxOrdinals = 20"

record slotIndex =
  si_Service :: string
  si_Container :: int
  si_Index :: nat

fun assign_loop :: "nat \<Rightarrow> slotIndex list \<Rightarrow> (string \<times> int) list \<Rightarrow> (spec_error, slotIndex list) res" where
  "assign_loop next out [] = Inr out"
| "assign_loop next out ((name, cp) # rest) =
     (if next \<ge> MaxOrdinals then Inl Too_many_ports
      else assign_loop (next + 1) (out @ [\<lparr>si_Service = name, si_Container = cp, si_Index = next\<rparr>]) rest)"

definition declared_ports :: "spec \<Rightarrow> string list \<Rightarrow> (string \<times> int) list" where
  "declared_ports s names = concat (map (\<lambda>name. map (Pair name) (svc_Ports (svc_of s name))) names)"

definition Assign :: "spec \<Rightarrow> (spec_error, slotIndex list) res" where
  "Assign s = assign_loop 0 [] (declared_ports s (Names s))"

definition StartIndex :: "slotIndex list \<Rightarrow> string \<Rightarrow> nat option" where
  "StartIndex layout name = map_option si_Index (find (\<lambda>a. si_Service a = name) layout)"

section \<open>Dependencies\<close>

definition check_dep :: "spec \<Rightarrow> string \<Rightarrow> string \<Rightarrow> (spec_error, unit) res" where
  "check_dep s name dep = (if dep = name then Inl (Self_dependency name)
     else guard_res (\<not> declares s dep) (Unknown_dependency name dep))"

definition checkDependencies :: "spec \<Rightarrow> (spec_error, unit) res" where
  "checkDependencies s = check_all (\<lambda>name. check_all (check_dep s name) (DependsOn (svc_of s name))) (Names s)"

record order_state =
  os_out :: "string list"
  os_done :: "string list"
  os_visiting :: "string list"
  os_stack :: "string list"

text \<open>\<open>stack[slices.Index(stack, name):]\<close>, closed with the name itself.\<close>

definition loop_from :: "string list \<Rightarrow> string \<Rightarrow> string list" where
  "loop_from stack name = dropWhile (\<lambda>x. x \<noteq> name) stack @ [name]"

definition enter :: "string \<Rightarrow> order_state \<Rightarrow> order_state" where
  "enter name st = st\<lparr>os_visiting := name # os_visiting st, os_stack := os_stack st @ [name]\<rparr>"

definition leave :: "string \<Rightarrow> order_state \<Rightarrow> order_state" where
  "leave name st = st\<lparr>os_visiting := removeAll name (os_visiting st), os_stack := butlast (os_stack st),
     os_done := name # os_done st, os_out := os_out st @ [name]\<rparr>"

fun visit :: "spec \<Rightarrow> nat \<Rightarrow> string \<Rightarrow> order_state \<Rightarrow> (spec_error, order_state) res option"
  and visit_all :: "spec \<Rightarrow> nat \<Rightarrow> string list \<Rightarrow> order_state \<Rightarrow> (spec_error, order_state) res option" where
  "visit s 0 name st = None"
| "visit s (Suc fuel) name st =
     (if name \<in> set (os_done st) then Some (Inr st)
      else if name \<in> set (os_visiting st) then Some (Inl (Dependency_cycle (loop_from (os_stack st) name)))
      else (case visit_all s fuel (sort (DependsOn (svc_of s name))) (enter name st) of
          None \<Rightarrow> None
        | Some (Inl e) \<Rightarrow> Some (Inl e)
        | Some (Inr st') \<Rightarrow> Some (Inr (leave name st'))))"
| "visit_all s fuel [] st = Some (Inr st)"
| "visit_all s fuel (d # ds) st = (case visit s fuel d st of
      None \<Rightarrow> None
    | Some (Inl e) \<Rightarrow> Some (Inl e)
    | Some (Inr st') \<Rightarrow> visit_all s fuel ds st')"

definition order_init :: order_state where
  "order_init = \<lparr>os_out = [], os_done = [], os_visiting = [], os_stack = []\<rparr>"

definition order_fuel :: "spec \<Rightarrow> nat" where "order_fuel s = length (Services s) + 1"

definition CreationOrder :: "spec \<Rightarrow> (spec_error, string list) res option" where
  "CreationOrder s = (case checkDependencies s of Inl e \<Rightarrow> Some (Inl e)
     | Inr _ \<Rightarrow> (case visit_all s (order_fuel s) (Names s) order_init of
           None \<Rightarrow> None
         | Some (Inl e) \<Rightarrow> Some (Inl e)
         | Some (Inr st) \<Rightarrow> Some (Inr (os_out st))))"

section \<open>One filter per sandbox\<close>

text \<open>The first loop: \<open>first\<close> and \<open>want\<close> as a pair, \<open>None\<close> while \<open>first\<close> is empty.\<close>

fun filters_loop :: "(policy \<Rightarrow> string) \<Rightarrow> spec \<Rightarrow> (string \<times> string) option \<Rightarrow> string list
    \<Rightarrow> (spec_error, (string \<times> string) option) res" where
  "filters_loop hash s acc [] = Inr acc"
| "filters_loop hash s acc (name # rest) = (let svc = svc_of s name in
     if \<not> Filtered svc \<or> EgressAllow svc \<noteq> [] then filters_loop hash s acc rest
     else let h = hash (DeclaredPolicy svc) in
       (case acc of None \<Rightarrow> filters_loop hash s (Some (name, h)) rest
        | Some (first, want) \<Rightarrow> if h \<noteq> want then Inl (Different_policies first name)
            else filters_loop hash s acc rest))"

definition checkEgressFilters :: "(policy \<Rightarrow> string) \<Rightarrow> spec \<Rightarrow> (spec_error, unit) res" where
  "checkEgressFilters hash s = (case filters_loop hash s None (Names s) of Inl e \<Rightarrow> Inl e
     | Inr None \<Rightarrow> Inr ()
     | Inr (Some (first, _)) \<Rightarrow>
         check_all (\<lambda>name. guard_res (EgressAllow (svc_of s name) \<noteq> []) (List_and_policy first name)) (Names s))"

section \<open>Facts on ordinals\<close>

definition slot_at :: "nat \<times> (string \<times> int) \<Rightarrow> slotIndex" where
  "slot_at x = (case x of (i, name, cp) \<Rightarrow> \<lparr>si_Service = name, si_Container = cp, si_Index = i\<rparr>)"

lemma slot_at_simps [simp]:
  "si_Index (slot_at x) = fst x" "si_Service (slot_at x) = fst (snd x)" "si_Container (slot_at x) = snd (snd x)"
  by (simp_all add: slot_at_def split: prod.splits)

lemma assign_loop_eq:
  "next \<le> MaxOrdinals \<Longrightarrow> assign_loop next out ps =
     (if next + length ps \<le> MaxOrdinals then Inr (out @ map slot_at (enumerate next ps)) else Inl Too_many_ports)"
  by (induction ps arbitrary: "next" out) (auto simp: slot_at_def)

lemma Assign_eq:
  "Assign s = (let ps = declared_ports s (Names s) in
     if length ps \<le> MaxOrdinals then Inr (map slot_at (enumerate 0 ps)) else Inl Too_many_ports)"
  by (simp add: Assign_def assign_loop_eq Let_def MaxOrdinals_def)

lemma find_enumerate_skip:
  "(\<forall>p \<in> set ps. fst p \<noteq> name) \<Longrightarrow>
   find (\<lambda>a. si_Service a = name) (map slot_at (enumerate n (ps @ qs))) =
   find (\<lambda>a. si_Service a = name) (map slot_at (enumerate (n + length ps) qs))"
  by (induction ps arbitrary: n) auto

lemma sorted_split:
  assumes "sorted xs" "distinct xs" "x \<in> set xs"
  shows "xs = filter (\<lambda>y. y < x) xs @ x # filter (\<lambda>y. x < y) xs"
  using assms
proof (induction xs)
  case Nil
  then show ?case by simp
next
  case (Cons y ys)
  show ?case
  proof (cases "y = x")
    case True
    with Cons.prems have "\<forall>z \<in> set ys. x < z" by (auto simp: order.strict_iff_order)
    with True show ?thesis by (simp add: filter_id_conv [THEN iffD2] filter_empty_conv) (metis less_asym)
  next
    case False
    with Cons.prems have "y < x" by (auto simp: order.strict_iff_order)
    moreover from this have "\<not> x < y" by (rule less_not_sym)
    ultimately show ?thesis using Cons by auto
  qed
qed

lemma declared_ports_append:
  "declared_ports s (xs @ ys) = declared_ports s xs @ declared_ports s ys"
  by (simp add: declared_ports_def)

lemma declared_ports_fst: "p \<in> set (declared_ports s names) \<Longrightarrow> fst p \<in> set names"
  by (auto simp: declared_ports_def)

lemma length_declared_ports:
  "length (declared_ports s names) = (\<Sum>n \<leftarrow> names. length (svc_Ports (svc_of s n)))"
  by (simp add: declared_ports_def length_concat comp_def)

text \<open>The ports of the services that come before one alphabetically.\<close>

definition ports_before :: "spec \<Rightarrow> string \<Rightarrow> nat" where
  "ports_before s name = (\<Sum>n \<leftarrow> filter (\<lambda>n. n < name) (Names s). length (svc_Ports (svc_of s n)))"

lemma Names_split:
  assumes "wf_spec s" "declares s name"
  shows "Names s = filter (\<lambda>n. n < name) (Names s) @ name # filter (\<lambda>n. name < n) (Names s)"
  using sorted_split [of "Names s" name] Names_facts assms by (simp add: declares_iff)

text \<open>
  Ordinals: \<open>Assign\<close> gives every declared port of every service, in alphabetical order of the
  services and in the order each lists its ports, the ordinals \<open>0, 1, 2, ...\<close> without gap or repeat,
  all below \<open>MaxOrdinals\<close>; it fails exactly when there are more ports than that.
\<close>

theorem assign_is_contiguous:
  "case Assign s of
     Inr layout \<Rightarrow> map si_Index layout = [0..<length layout] \<and> length layout \<le> MaxOrdinals \<and>
       map (\<lambda>a. (si_Service a, si_Container a)) layout = declared_ports s (Names s)
   | Inl e \<Rightarrow> e = Too_many_ports \<and> MaxOrdinals < length (declared_ports s (Names s))"
proof -
  have "map (\<lambda>a. (si_Service a, si_Container a)) (map slot_at (enumerate 0 ps)) = ps" for ps
    by (simp add: comp_def enumerate_eq_zip)
  moreover have "map si_Index (map slot_at (enumerate 0 ps)) = [0..<length ps]" for ps
    by (simp add: comp_def enumerate_eq_zip)
  ultimately show ?thesis by (simp add: Assign_eq Let_def)
qed

text \<open>The ordinals of a service end where those of a later one begin.\<close>

lemma ports_before_all:
  assumes "wf_spec s" "declares s name" "Assign s = Inr layout"
  shows "ports_before s name + length (svc_Ports (svc_of s name)) \<le> MaxOrdinals"
proof -
  have "length (declared_ports s (Names s)) \<le> MaxOrdinals"
    using assms(3) by (simp add: Assign_eq Let_def split: if_splits)
  then have "(\<Sum>n \<leftarrow> Names s. length (svc_Ports (svc_of s n))) \<le> MaxOrdinals" by (simp only: length_declared_ports)
  moreover have "(\<Sum>n \<leftarrow> Names s. length (svc_Ports (svc_of s n))) =
      ports_before s name + (length (svc_Ports (svc_of s name)) +
        (\<Sum>n \<leftarrow> filter (\<lambda>n. name < n) (Names s). length (svc_Ports (svc_of s n))))"
    by (subst Names_split [OF assms(1,2)]) (simp add: ports_before_def)
  ultimately show ?thesis by simp
qed

lemma ports_before_less:
  assumes "wf_spec s" "declares s m" "m < n"
  shows "ports_before s m + length (svc_Ports (svc_of s m)) \<le> ports_before s n"
proof -
  let ?f = "\<lambda>n. length (svc_Ports (svc_of s n))"
  have "filter (\<lambda>x. x < n) (Names s) = filter (\<lambda>x. x < n) (filter (\<lambda>x. x < m) (Names s) @ m # filter (\<lambda>x. m < x) (Names s))"
    using Names_split [OF assms(1,2)] by simp
  also have "\<dots> = filter (\<lambda>x. x < m) (Names s) @ m # filter (\<lambda>x. x < n) (filter (\<lambda>x. m < x) (Names s))"
    using assms(3) by (auto intro!: filter_cong dest: order.strict_trans)
  finally show ?thesis by (simp add: ports_before_def)
qed

lemma StartIndex_before:
  assumes "wf_spec s" and "declares s name" and "svc_Ports (svc_of s name) \<noteq> []"
    and "Assign s = Inr layout"
  shows "StartIndex layout name = Some (ports_before s name)"
proof -
  let ?lt = "filter (\<lambda>n. n < name) (Names s)" and ?gt = "filter (\<lambda>n. name < n) (Names s)"
  obtain p ps where p: "svc_Ports (svc_of s name) = p # ps" using assms(3) by (cases "svc_Ports (svc_of s name)") auto
  have "declared_ports s (Names s) = declared_ports s ?lt @ declared_ports s (name # ?gt)"
    using Names_split [OF assms(1,2)] by (metis declared_ports_append)
  then have layout: "layout = map slot_at (enumerate 0 (declared_ports s ?lt @ declared_ports s (name # ?gt)))"
    using assms(4) by (simp add: Assign_eq Let_def split: if_splits)
  have "\<forall>q \<in> set (declared_ports s ?lt). fst q \<noteq> name"
  proof
    fix q assume "q \<in> set (declared_ports s ?lt)"
    from declared_ports_fst [OF this] show "fst q \<noteq> name" by auto
  qed
  note skip = find_enumerate_skip [OF this, of 0 "declared_ports s (name # ?gt)"]
  obtain rest where "declared_ports s (name # ?gt) = (name, p) # rest"
    using p by (simp add: declared_ports_def)
  then have "StartIndex layout name = Some (length (declared_ports s ?lt))"
    unfolding StartIndex_def layout skip by simp
  then show ?thesis by (simp only: ports_before_def length_declared_ports)
qed

text \<open>
  Addresses are stable: the first ordinal of a service is the number of ports of the services
  that come before it alphabetically. Nothing else of the spec has a part in it, neither
  \<open>depends_on\<close> nor \<open>optional\<close> nor a service that sorts later.
\<close>

theorem start_index_stable:
  assumes "wf_spec s" and "declares s name" and "svc_Ports (svc_of s name) \<noteq> []"
    and "Assign s = Inr layout"
  shows "StartIndex layout name = Some (ports_before s name)"
  by (rule StartIndex_before [OF assms])

section \<open>Facts on the search\<close>

definition edge :: "spec \<Rightarrow> string \<Rightarrow> string \<Rightarrow> bool" where
  "edge s a b = (declares s a \<and> b \<in> set (DependsOn (svc_of s a)))"

definition is_cycle :: "spec \<Rightarrow> string list \<Rightarrow> bool" where
  "is_cycle s loop = (2 \<le> length loop \<and> hd loop = last loop \<and> successively (edge s) loop)"

fun deps_first :: "spec \<Rightarrow> string list \<Rightarrow> string list \<Rightarrow> bool" where
  "deps_first s seen [] = True"
| "deps_first s seen (x # xs) = (set (DependsOn (svc_of s x)) \<subseteq> set seen \<and> deps_first s (seen @ [x]) xs)"

lemma deps_first_snoc:
  "deps_first s seen (xs @ [y]) \<longleftrightarrow> deps_first s seen xs \<and> set (DependsOn (svc_of s y)) \<subseteq> set seen \<union> set xs"
  by (induction xs arbitrary: seen) auto

definition closed_deps :: "spec \<Rightarrow> bool" where
  "closed_deps s = (\<forall>a b. edge s a b \<longrightarrow> declares s b)"

lemma checkDependencies_closed:
  assumes "checkDependencies s = Inr ()"
  shows "closed_deps s"
  using assms
  by (auto simp: checkDependencies_def check_dep_def closed_deps_def edge_def declares_iff split: if_splits)

definition order_inv :: "spec \<Rightarrow> order_state \<Rightarrow> bool" where
  "order_inv s st = (set (os_done st) = set (os_out st) \<and> distinct (os_out st) \<and> distinct (os_stack st) \<and>
     set (os_visiting st) = set (os_stack st) \<and> set (os_stack st) \<inter> set (os_out st) = {} \<and>
     set (os_stack st) \<union> set (os_out st) \<subseteq> set (Names s) \<and> successively (edge s) (os_stack st) \<and>
     deps_first s [] (os_out st))"

definition order_pre :: "spec \<Rightarrow> nat \<Rightarrow> string list \<Rightarrow> order_state \<Rightarrow> bool" where
  "order_pre s fuel ds st = (order_inv s st \<and> set ds \<subseteq> set (Names s) \<and>
     (os_stack st \<noteq> [] \<longrightarrow> (\<forall>d \<in> set ds. edge s (last (os_stack st)) d)) \<and>
     card (set (Names s) - set (os_stack st)) < fuel)"

definition order_post :: "spec \<Rightarrow> string list \<Rightarrow> order_state \<Rightarrow> (spec_error, order_state) res option \<Rightarrow> bool" where
  "order_post s ds st r = (case r of None \<Rightarrow> False
     | Some (Inl e) \<Rightarrow> (\<exists>loop. e = Dependency_cycle loop \<and> is_cycle s loop)
     | Some (Inr st') \<Rightarrow> order_inv s st' \<and> os_stack st' = os_stack st \<and>
         set (os_out st) \<union> set ds \<subseteq> set (os_out st'))"

lemma loop_from_cycle:
  assumes "name \<in> set stack" "successively (edge s) stack" "edge s (last stack) name"
  shows "is_cycle s (loop_from stack name)"
proof -
  let ?d = "dropWhile (\<lambda>x. x \<noteq> name) stack"
  have ne: "?d \<noteq> []" using assms(1) by (auto simp: dropWhile_eq_Nil_conv)
  with hd_dropWhile [of "\<lambda>x. x \<noteq> name" stack] obtain r where d: "?d = name # r" by (cases ?d) auto
  have "successively (edge s) (takeWhile (\<lambda>x. x \<noteq> name) stack @ ?d)" using assms(2) by simp
  then have "successively (edge s) ?d" by (simp only: successively_append_iff)
  moreover have "last ?d = last stack"
    using d by (metis last_appendR list.distinct(1) takeWhile_dropWhile_id)
  ultimately have "successively (edge s) (?d @ [name])"
    using assms(3) ne by (simp only: successively_append_iff) simp
  then show ?thesis using d by (simp add: is_cycle_def loop_from_def)
qed

lemma order_inv_enter:
  assumes "order_pre s fuel [name] st" "name \<notin> set (os_done st)" "name \<notin> set (os_visiting st)"
  shows "order_inv s (enter name st)"
  using assms by (auto simp: order_pre_def order_inv_def enter_def successively_append_iff)

lemma enter_fuel:
  assumes "order_pre s (Suc fuel) [name] st" "name \<notin> set (os_visiting st)"
  shows "card (set (Names s) - set (os_stack (enter name st))) < fuel"
proof -
  have "set (Names s) - set (os_stack (enter name st)) \<subset> set (Names s) - set (os_stack st)"
    using assms by (auto simp: order_pre_def order_inv_def enter_def)
  then have "card (set (Names s) - set (os_stack (enter name st))) < card (set (Names s) - set (os_stack st))"
    by (rule psubset_card_mono [rotated]) simp
  with assms(1) show ?thesis by (simp add: order_pre_def)
qed

lemma order_inv_leave:
  assumes "order_inv s st'" "os_stack st' = os_stack st @ [name]" 
    "set (DependsOn (svc_of s name)) \<subseteq> set (os_out st')"
  shows "order_inv s (leave name st')"
  using assms by (auto simp: order_inv_def leave_def deps_first_snoc successively_append_iff)

lemma visit_correct:
  "closed_deps s \<Longrightarrow> order_pre s fuel [name] st \<Longrightarrow> order_post s [name] st (visit s fuel name st)"
  "closed_deps s \<Longrightarrow> order_pre s fuel ds st \<Longrightarrow> order_post s ds st (visit_all s fuel ds st)"
proof (induction s fuel name st and s fuel ds st rule: visit_visit_all.induct)
  case (1 s name st)
  then show ?case by (simp add: order_pre_def)
next
  case (2 s fuel name st)
  consider "name \<in> set (os_done st)" | "name \<notin> set (os_done st)" "name \<in> set (os_visiting st)"
    | "name \<notin> set (os_done st)" "name \<notin> set (os_visiting st)" by blast
  then show ?case
  proof cases
    case 1
    with 2 show ?thesis by (auto simp: order_post_def order_pre_def order_inv_def)
  next
    case c: 2
    have "is_cycle s (loop_from (os_stack st) name)"
      using 2(3) c by (intro loop_from_cycle) (auto simp: order_pre_def order_inv_def)
    with c show ?thesis by (simp add: order_post_def)
  next
    case 3
    let ?ds = "sort (DependsOn (svc_of s name))"
    have name: "declares s name" using 2(3) by (simp add: order_pre_def declares_iff)
    have e: "edge s name d" if "d \<in> set ?ds" for d using that name by (simp add: edge_def)
    have "order_pre s fuel ?ds (enter name st)"
      unfolding order_pre_def
    proof (intro conjI)
      show "order_inv s (enter name st)" using 2(3) 3 by (rule order_inv_enter)
      show "card (set (Names s) - set (os_stack (enter name st))) < fuel" using 2(3) 3(2) by (rule enter_fuel)
      show "set ?ds \<subseteq> set (Names s)"
        using e 2(2) unfolding closed_deps_def declares_iff by blast
      show "os_stack (enter name st) \<noteq> [] \<longrightarrow> (\<forall>d \<in> set ?ds. edge s (last (os_stack (enter name st))) d)"
        using e by (simp add: enter_def)
    qed
    from 2(1) [OF 3 2(2) this] have post: "order_post s ?ds (enter name st) (visit_all s fuel ?ds (enter name st))" .
    show ?thesis
    proof (cases "visit_all s fuel ?ds (enter name st)")
      case None
      with post show ?thesis by (simp add: order_post_def)
    next
      case (Some r)
      show ?thesis
      proof (cases r)
        case (Inl e)
        with Some post 3 show ?thesis by (simp add: order_post_def)
      next
        case (Inr st')
        with Some post have st': "order_inv s st'" "os_stack st' = os_stack st @ [name]"
          "set (DependsOn (svc_of s name)) \<subseteq> set (os_out st')" "set (os_out st) \<subseteq> set (os_out st')"
          by (auto simp: order_post_def enter_def)
        with order_inv_leave [OF st'(1-3)] Some Inr 3 show ?thesis
          by (auto simp: order_post_def leave_def)
      qed
    qed
  qed
next
  case (3 s fuel st)
  then show ?case by (simp add: order_post_def order_pre_def)
next
  case (4 s fuel d ds st)
  have "order_pre s fuel [d] st" using 4(4) by (auto simp: order_pre_def)
  from 4(1) [OF 4(3) this] have post: "order_post s [d] st (visit s fuel d st)" .
  show ?case
  proof (cases "visit s fuel d st")
    case None
    with post show ?thesis by (simp add: order_post_def)
  next
    case (Some r)
    show ?thesis
    proof (cases r)
      case (Inl e)
      with Some post show ?thesis by (simp add: order_post_def)
    next
      case (Inr st')
      with Some post have st': "order_inv s st'" "os_stack st' = os_stack st"
        "insert d (set (os_out st)) \<subseteq> set (os_out st')" by (auto simp: order_post_def)
      then have "order_pre s fuel ds st'" using 4(4) by (auto simp: order_pre_def)
      from 4(2) [OF Some Inr 4(3) this] have "order_post s ds st' (visit_all s fuel ds st')" .
      with st' Some Inr show ?thesis
        by (auto simp: order_post_def split: option.splits sum.splits)
    qed
  qed
qed

lemma order_pre_init: "order_pre s (order_fuel s) (Names s) order_init"
proof -
  have "card (set (Names s)) \<le> length (Services s)"
    using card_length [of "Names s"] by (simp add: Names_facts(3) del: set_Names)
  then show ?thesis by (simp add: order_pre_def order_inv_def order_init_def order_fuel_def)
qed

lemma CreationOrder_post:
  assumes "checkDependencies s = Inr ()"
  shows "order_post s (Names s) order_init (visit_all s (order_fuel s) (Names s) order_init)"
  using visit_correct(2) [OF checkDependencies_closed [OF assms] order_pre_init] .

lemma CreationOrder_returns: "CreationOrder s \<noteq> None"
  using CreationOrder_post [of s]
  by (auto simp: CreationOrder_def order_post_def split: option.splits sum.splits)

lemma CreationOrder_ok:
  assumes "CreationOrder s = Some (Inr out)"
  shows "checkDependencies s = Inr () \<and> distinct out \<and> set out = set (Names s) \<and> deps_first s [] out"
proof -
  from assms obtain st where c: "checkDependencies s = Inr ()" and out: "out = os_out st"
    and v: "visit_all s (order_fuel s) (Names s) order_init = Some (Inr st)"
    by (auto simp: CreationOrder_def split: sum.splits option.splits)
  from CreationOrder_post [OF c] show ?thesis
    by (auto simp: v c out order_post_def order_inv_def)
qed

lemma CreationOrder_err:
  assumes "CreationOrder s = Some (Inl e)"
  shows "checkDependencies s = Inl e \<or> checkDependencies s = Inr () \<and> (\<exists>loop. e = Dependency_cycle loop \<and> is_cycle s loop)"
  using assms CreationOrder_post [of s]
  by (auto simp: CreationOrder_def order_post_def split: sum.splits option.splits)

text \<open>A position in the order: every edge goes to an earlier one, so no path returns.\<close>

definition pos :: "string list \<Rightarrow> string \<Rightarrow> nat" where
  "pos xs x = length (takeWhile (\<lambda>y. y \<noteq> x) xs)"

lemma deps_first_split:
  "deps_first s seen (xs @ y # ys) \<Longrightarrow> set (DependsOn (svc_of s y)) \<subseteq> set seen \<union> set xs"
proof (induction xs arbitrary: seen)
  case Nil
  then show ?case by simp
next
  case (Cons x xs)
  from Cons.IH [of "seen @ [x]"] Cons.prems show ?case by auto
qed

lemma deps_first_pos:
  assumes "deps_first s [] out" "distinct out" "a \<in> set out" "b \<in> set (DependsOn (svc_of s a))"
  shows "pos out b < pos out a"
proof -
  obtain xs ys where out: "out = xs @ a # ys" using assms(3) by (auto simp: in_set_conv_decomp)
  with assms(1,4) have "b \<in> set xs" using deps_first_split by fastforce
  moreover from this have "length (takeWhile (\<lambda>y. y \<noteq> b) (xs @ zs)) < length xs" for zs
    by (induction xs) auto
  moreover have "takeWhile (\<lambda>y. y \<noteq> a) out = xs"
    using assms(2) by (auto simp: out takeWhile_append)
  ultimately show ?thesis by (simp add: pos_def) (simp add: out)
qed

lemma deps_first_acyclic:
  assumes "deps_first s [] out" "distinct out" "set out = set (Names s)"
  shows "\<not> is_cycle s loop"
proof
  assume c: "is_cycle s loop"
  have "successively (\<lambda>a b. pos out b < pos out a) loop"
  proof (rule successively_mono)
    show "successively (edge s) loop" using c by (simp add: is_cycle_def)
    show "pos out b < pos out a" if "edge s a b" for a b
      using that deps_first_pos [OF assms(1,2)] assms(3) by (auto simp: edge_def declares_iff)
  qed
  moreover have "transp (\<lambda>a b. pos out b < pos out a)" by (auto intro: transpI)
  ultimately have "sorted_wrt (\<lambda>a b. pos out b < pos out a) loop"
    by (simp add: successively_conv_sorted_wrt)
  moreover obtain x xs where "loop = x # xs" "xs \<noteq> []" using c
    by (cases loop) (auto simp: is_cycle_def Suc_le_eq)
  ultimately show False using c by (auto simp: is_cycle_def)
qed

lemma CreationOrder_iff_acyclic:
  assumes "checkDependencies s = Inr ()"
  shows "(\<exists>out. CreationOrder s = Some (Inr out)) \<longleftrightarrow> (\<nexists>loop. is_cycle s loop)"
proof
  assume "\<exists>out. CreationOrder s = Some (Inr out)"
  then show "\<nexists>loop. is_cycle s loop" using CreationOrder_ok [of s] deps_first_acyclic [of s] by blast
next
  assume a: "\<nexists>loop. is_cycle s loop"
  obtain r where r: "CreationOrder s = Some r" using CreationOrder_returns [of s] by auto
  show "\<exists>out. CreationOrder s = Some (Inr out)"
    using r a assms CreationOrder_err [of s] by (cases r) auto
qed

text \<open>
  (C4) The creation order is a topological order: \<open>CreationOrder\<close> always returns; a list it returns
  has every declared service exactly once and each after everything it depends on; an error is
  either what \<open>checkDependencies\<close> says or names a cycle that the spec has, as the path around it.
\<close>

theorem creation_order_topological:
  "case CreationOrder s of
     None \<Rightarrow> False
   | Some (Inr out) \<Rightarrow> distinct out \<and> set out = set (Names s) \<and> deps_first s [] out
   | Some (Inl e) \<Rightarrow> checkDependencies s = Inl e \<or> (\<exists>loop. e = Dependency_cycle loop \<and> is_cycle s loop)"
  using CreationOrder_returns [of s] CreationOrder_ok [of s] CreationOrder_err [of s]
  by (auto split: option.splits sum.splits)

text \<open>
  It fails only when it must: with declared dependencies, there is an order exactly when no
  cycle of dependencies exists.
\<close>

theorem creation_order_iff_acyclic:
  assumes "checkDependencies s = Inr ()"
  shows "(\<exists>out. CreationOrder s = Some (Inr out)) \<longleftrightarrow> (\<nexists>loop. is_cycle s loop)"
  using CreationOrder_iff_acyclic [OF assms] .

text \<open>Without dependencies the search appends the names as they come.\<close>

lemma visit_all_no_deps:
  assumes "\<And>n. DependsOn (svc_of s n) = []"
  shows "distinct ns \<Longrightarrow> set ns \<inter> (set (os_done st) \<union> set (os_visiting st)) = {} \<Longrightarrow>
    \<exists>st'. visit_all s (Suc fuel) ns st = Some (Inr st') \<and> os_out st' = os_out st @ ns"
proof (induction ns arbitrary: st)
  case Nil
  then show ?case by simp
next
  case (Cons n ns)
  let ?st = "leave n (enter n st)"
  have v: "visit s (Suc fuel) n st = Some (Inr ?st)"
    using Cons.prems assms by simp
  have "set ns \<inter> (set (os_done ?st) \<union> set (os_visiting ?st)) = {}"
    using Cons.prems by (auto simp: leave_def enter_def)
  from Cons.IH [OF _ this] Cons.prems obtain st' where
    "visit_all s (Suc fuel) ns ?st = Some (Inr st')" "os_out st' = os_out ?st @ ns" by auto
  with v show ?case by (simp add: leave_def enter_def del: visit.simps)
qed

text \<open>
  A spec without \<open>depends_on\<close> is created in alphabetical order, as it was before there was one.
\<close>

theorem no_dependencies_alphabetical:
  assumes "wf_spec s" and "\<And>n. DependsOn (svc_of s n) = []"
  shows "CreationOrder s = Some (Inr (Names s))"
proof -
  have "checkDependencies s = Inr ()" by (simp add: checkDependencies_def assms(2))
  moreover obtain st where "visit_all s (order_fuel s) (Names s) order_init = Some (Inr st)" "os_out st = Names s"
    using visit_all_no_deps [of s "Names s" order_init "length (Services s)"] assms Names_facts(2)
    by (auto simp: order_init_def order_fuel_def)
  ultimately show ?thesis by (simp add: CreationOrder_def)
qed

definition demo_svc :: "int list \<Rightarrow> string list \<Rightarrow> service" where
  "demo_svc ports deps = zero_service\<lparr>Image := ''img'', svc_Ports := ports, DependsOn := deps\<rparr>"

definition demo_spec :: "(string \<times> service) list \<Rightarrow> spec" where
  "demo_spec svcs = \<lparr>Version = 1, Services = svcs, Exports = [], spec_HealthInterval = []\<rparr>"

theorem no_dependencies_alphabetical_witness:
  "CreationOrder (demo_spec [(''web'', demo_svc [80] []), (''api'', demo_svc [8080] [])])
     = Some (Inr [''api'', ''web''])"
proof -
  let ?s = "demo_spec [(''web'', demo_svc [80] []), (''api'', demo_svc [8080] [])]"
  have 1: "wf_spec ?s" by code_simp
  have 2: "DependsOn (svc_of ?s n) = []" for n
    by (auto simp: svc_of_def demo_spec_def demo_svc_def zero_service_def split: option.splits)
  have 3: "Names ?s = [''api'', ''web'']" by code_simp
  from no_dependencies_alphabetical [OF 1 2] 3 show ?thesis by simp
qed

theorem start_index_stable_witness:
  "let s = demo_spec [(''web'', demo_svc [80, 443] []), (''api'', demo_svc [8080] [''web''])] in
   case Assign s of Inr layout \<Rightarrow> StartIndex layout ''web'' = Some 1 | Inl _ \<Rightarrow> False"
proof -
  let ?s = "demo_spec [(''web'', demo_svc [80, 443] []), (''api'', demo_svc [8080] [''web''])]"
  have 1: "wf_spec ?s" "declares ?s ''web''" "svc_Ports (svc_of ?s ''web'') \<noteq> []" by code_simp+
  have 2: "Assign ?s = Inr (map slot_at [(0, ''api'', 8080), (1, ''web'', 80), (2, ''web'', 443)])" by code_simp
  have 3: "ports_before ?s ''web'' = 1" by code_simp
  show ?thesis unfolding Let_def 2 sum.case using start_index_stable [OF 1 2] 3 by simp
qed

theorem creation_order_iff_acyclic_witness:
  "let s = demo_spec [(''web'', demo_svc [80] [''db'']), (''api'', demo_svc [8080] [''web'']), (''db'', demo_svc [5432] [])] in
   CreationOrder s = Some (Inr [''db'', ''web'', ''api'']) \<and> (\<nexists>loop. is_cycle s loop)"
proof -
  let ?s = "demo_spec [(''web'', demo_svc [80] [''db'']), (''api'', demo_svc [8080] [''web'']), (''db'', demo_svc [5432] [])]"
  have 1: "checkDependencies ?s = Inr ()" by code_simp
  have 2: "CreationOrder ?s = Some (Inr [''db'', ''web'', ''api''])" by code_simp
  from creation_order_iff_acyclic [OF 1] 2 show ?thesis by (simp only: Let_def) blast
qed

section \<open>One filter, one policy\<close>

text \<open>A service with a policy of its own, as opposed to an allow list.\<close>

definition own_policy :: "spec \<Rightarrow> string \<Rightarrow> bool" where
  "own_policy s n = (Filtered (svc_of s n) \<and> EgressAllow (svc_of s n) = [])"

lemma filters_loop_Some:
  "is_ok (filters_loop hash s (Some (f, w)) ns) \<longleftrightarrow> (\<forall>n \<in> set ns. own_policy s n \<longrightarrow> hash (DeclaredPolicy (svc_of s n)) = w)"
  "filters_loop hash s (Some (f, w)) ns = Inr r \<Longrightarrow> r = Some (f, w)"
  by (induction ns) (auto simp: own_policy_def Let_def split: if_splits)

lemma filter_hd: "filter P ns = x # xs \<Longrightarrow> x \<in> set ns" "filter P ns = x # xs \<Longrightarrow> P x"
  by (auto simp: filter_eq_Cons_iff)

lemma filters_loop_None:
  "filters_loop hash s None ns = (case filter (own_policy s) ns of [] \<Rightarrow> Inr None
     | n # _ \<Rightarrow> filters_loop hash s (Some (n, hash (DeclaredPolicy (svc_of s n)))) ns)"
proof (induction ns)
  case Nil
  then show ?case by simp
next
  case (Cons n ns)
  show ?case
  proof (cases "own_policy s n")
    case True
    then show ?thesis by (simp add: own_policy_def Let_def)
  next
    case False
    then have "filters_loop hash s acc (n # ns) = filters_loop hash s acc ns" for acc
      by (auto simp: own_policy_def Let_def)
    with False show ?thesis by (simp add: Cons.IH del: filters_loop.simps split: list.splits)
  qed
qed

lemma is_ok_iff: "is_ok r \<longleftrightarrow> (\<exists>x. r = Inr x)"
  by (cases r) auto

lemma checkEgressFilters_iff:
  "checkEgressFilters hash s = Inr () \<longleftrightarrow>
     (\<forall>a \<in> set (Names s). own_policy s a \<longrightarrow>
        (\<forall>b \<in> set (Names s). EgressAllow (svc_of s b) = [] \<and>
           (own_policy s b \<longrightarrow> hash (DeclaredPolicy (svc_of s b)) = hash (DeclaredPolicy (svc_of s a)))))"
proof (cases "filter (own_policy s) (Names s)")
  case Nil
  then have "\<forall>a \<in> set (Names s). \<not> own_policy s a" by (auto simp: filter_empty_conv)
  with Nil show ?thesis by (auto simp: checkEgressFilters_def filters_loop_None)
next
  case (Cons n ns)
  then have n: "n \<in> set (Names s)" "own_policy s n"
    by (rule filter_hd)+
  let ?h = "\<lambda>x. hash (DeclaredPolicy (svc_of s x))"
  let ?r = "filters_loop hash s (Some (n, ?h n)) (Names s)"
  have "checkEgressFilters hash s = Inr () \<longleftrightarrow> is_ok ?r \<and> (\<forall>b \<in> set (Names s). EgressAllow (svc_of s b) = [])"
    using filters_loop_Some(2) [of hash s n "?h n" "Names s"]
    by (cases ?r) (auto simp: checkEgressFilters_def filters_loop_None Cons split: option.splits)
  also have "\<dots> \<longleftrightarrow> (\<forall>b \<in> set (Names s). EgressAllow (svc_of s b) = [] \<and> (own_policy s b \<longrightarrow> ?h b = ?h n))"
    unfolding filters_loop_Some(1) by blast
  finally show ?thesis using n by metis
qed

text \<open>
  One sandbox, one filter, one policy: \<open>checkEgressFilters\<close> accepts a spec exactly when no
  service behind the filter would be held to rules another one wrote, that is when any two filtered
  services are both allow lists or declare policies of equal hash.
\<close>

theorem shared_filter_is_unambiguous:
  "checkEgressFilters hash s = Inr () \<longleftrightarrow>
     (\<forall>a \<in> set (Names s). \<forall>b \<in> set (Names s). Filtered (svc_of s a) \<longrightarrow> Filtered (svc_of s b) \<longrightarrow>
        (EgressAllow (svc_of s a) \<noteq> [] \<and> EgressAllow (svc_of s b) \<noteq> []) \<or>
        (EgressAllow (svc_of s a) = [] \<and> EgressAllow (svc_of s b) = [] \<and>
           hash (DeclaredPolicy (svc_of s a)) = hash (DeclaredPolicy (svc_of s b))))"
proof -
  have "EgressAllow v \<noteq> [] \<Longrightarrow> Filtered v" for v by (simp add: Filtered_def)
  then show ?thesis unfolding checkEgressFilters_iff own_policy_def by metis
qed

theorem shared_filter_is_unambiguous_witness:
  "let hash = (\<lambda>p. policy_DefaultAction p);
       opened = zero_service\<lparr>Egress := EgressAllow_value\<rparr>;
       listed = zero_service\<lparr>EgressAllow := [''openai.com'']\<rparr>
   in checkEgressFilters hash (demo_spec [(''a'', opened), (''b'', opened)]) = Inr () \<and>
      checkEgressFilters hash (demo_spec [(''a'', opened), (''b'', listed)]) = Inl (List_and_policy ''a'' ''b'')"
proof -
  let ?o = "zero_service\<lparr>Egress := EgressAllow_value\<rparr>"
  let ?s = "demo_spec [(''a'', ?o), (''b'', ?o)]"
  have 1: "svc_of ?s ''a'' = ?o" "svc_of ?s ''b'' = ?o" "set (Names ?s) = {''a'', ''b''}"
    by (simp_all add: svc_of_def demo_spec_def)
  have "EgressAllow ?o = []" by (simp add: zero_service_def)
  then have "checkEgressFilters (\<lambda>p. policy_DefaultAction p) ?s = Inr ()"
    unfolding shared_filter_is_unambiguous by (simp add: 1 del: set_Names)
  moreover have "checkEgressFilters (\<lambda>p. policy_DefaultAction p)
      (demo_spec [(''a'', ?o), (''b'', zero_service\<lparr>EgressAllow := [''openai.com'']\<rparr>)]) = Inl (List_and_policy ''a'' ''b'')"
    by code_simp
  ultimately show ?thesis by (simp add: Let_def)
qed

end
