(* ===== verification/Spec_Load.thy ===== *)
theory Spec_Load
  imports Spec_Order
begin

text \<open>
  Loading a spec: the environment references of \<^verbatim>\<open>internal/spec/expand.go\<close> and \<open>parseSpec\<close> of
  \<^verbatim>\<open>internal/spec/spec.go\<close>. The strict JSON decoder, the process environment, the policy hash and the
  number and CSV parsers are arguments. The closures of \<open>scanEnv\<close> are modelled by what they
  collect: the variables referenced and the forms refused, in order.
\<close>

section \<open>Environment references\<close>

definition name_byte :: "char \<Rightarrow> bool" where
  "name_byte c = (isLower c \<or> isUpper c \<or> isDigit c \<or> c = CHR ''_'')"

text \<open>\<open>envRefAt\<close> on the text after \<open>${\<close>: the name, if the reference is well formed.\<close>

definition env_ref :: "string \<Rightarrow> string option" where
  "env_ref t = (let name = takeWhile name_byte t; r = dropWhile name_byte t in
     if name \<noteq> [] \<and> \<not> isDigit (hd name) \<and> r \<noteq> [] \<and> hd r = CHR ''}'' then Some name else None)"

definition bad_ref :: "string \<Rightarrow> string" where
  "bad_ref rest = (case IndexByte rest CHR ''}'' of Some e \<Rightarrow> take (Suc e) rest | None \<Rightarrow> rest)"

lemma bad_ref_nonempty: "val \<noteq> [] \<Longrightarrow> bad_ref val \<noteq> []"
  by (auto simp: bad_ref_def split: option.splits)

type_synonym scanned = "string \<times> string list \<times> string list"

function scan_loop :: "(string \<Rightarrow> string \<Rightarrow> string) \<Rightarrow> string \<Rightarrow> scanned" where
  "scan_loop sub val =
     (if val = [] then ([], [], [])
      else if HasPrefix val ''$${'' then
        (let (out, used, bad) = scan_loop sub (drop 3 val) in (''${'' @ out, used, bad))
      else if HasPrefix val ''${'' then
        (case env_ref (drop 2 val) of
           Some name \<Rightarrow> (let (out, used, bad) = scan_loop sub (drop (length name + 3) val)
             in (sub name (''${'' @ name @ ''}'') @ out, name # used, bad))
         | None \<Rightarrow> (let ref = bad_ref val; (out, used, bad) = scan_loop sub (drop (length ref) val)
             in (ref @ out, used, ref # bad)))
      else (let (out, used, bad) = scan_loop sub (tl val) in (hd val # out, used, bad)))"
  by pat_completeness auto

termination
  by (relation "measure (length \<circ> snd)") (use bad_ref_nonempty in fastforce)+

declare scan_loop.simps [simp del]

definition scanEnv :: "(string \<Rightarrow> string \<Rightarrow> string) \<Rightarrow> string \<Rightarrow> scanned" where
  "scanEnv sub val = (if \<not> Contains val ''${'' then (val, [], []) else scan_loop sub val)"

section \<open>Expansion\<close>

type_synonym lookup = "string \<Rightarrow> string option"

definition sub_env :: "lookup \<Rightarrow> string \<Rightarrow> string \<Rightarrow> string" where
  "sub_env lookup name ref = (case lookup name of Some v \<Rightarrow> v | None \<Rightarrow> ref)"

definition value_uses :: "lookup \<Rightarrow> string \<Rightarrow> string list" where
  "value_uses lookup val = fst (snd (scanEnv (sub_env lookup) val))"

text \<open>The map \<open>missing\<close> as the list of its appends: variable and user.\<close>

definition missing_uses :: "lookup \<Rightarrow> spec \<Rightarrow> (string \<times> string) list" where
  "missing_uses lookup s = concat (map (\<lambda>name. concat (map (\<lambda>(key, val).
       map (\<lambda>v. (v, name @ ''.'' @ key)) (filter (\<lambda>v. lookup v = None) (value_uses lookup val)))
     (Env (svc_of s name)))) (Names s))"

definition missing_parts :: "(string \<times> string) list \<Rightarrow> (string \<times> string list) list" where
  "missing_parts uses = map (\<lambda>v. (v, sort (map snd (filter (\<lambda>u. fst u = v) uses)))) (sort (remdups (map fst uses)))"

definition expand_service :: "lookup \<Rightarrow> service \<Rightarrow> service" where
  "expand_service lookup svc = svc\<lparr>Env := map (\<lambda>(key, val). (key, fst (scanEnv (sub_env lookup) val))) (Env svc)\<rparr>"

definition resolveEnv :: "lookup \<Rightarrow> bool \<Rightarrow> spec \<Rightarrow> (spec_error, spec) res" where
  "resolveEnv lookup write s = (let uses = missing_uses lookup s in
     if uses = [] then Inr (if write then s\<lparr>Services := map (\<lambda>(n, v). (n, expand_service lookup v)) (Services s)\<rparr> else s)
     else Inl (Env_unset (missing_parts uses)))"

definition expandEnv :: "lookup \<Rightarrow> spec \<Rightarrow> (spec_error, spec) res" where
  "expandEnv lookup s = resolveEnv lookup True s"

definition unsetEnv :: "lookup \<Rightarrow> spec \<Rightarrow> (spec_error, spec) res" where
  "unsetEnv lookup s = resolveEnv lookup False s"

definition value_bad :: "string \<Rightarrow> string list" where
  "value_bad val = snd (snd (scanEnv (\<lambda>_ ref. ref) val))"

definition bad_forms :: "spec \<Rightarrow> (string \<times> string \<times> string list) list" where
  "bad_forms s = concat (map (\<lambda>name. let env = Env (svc_of s name) in
     List.map_filter (\<lambda>key. let refs = value_bad (the (map_of env key)) in
         if refs \<noteq> [] then Some (name, key, refs) else None)
       (sort (map fst env))) (Names s))"

definition checkEnvSyntax :: "spec \<Rightarrow> (spec_error, unit) res" where
  "checkEnvSyntax s = guard_res (bad_forms s \<noteq> []) (Env_syntax (bad_forms s))"

section \<open>Loading\<close>

text \<open>The expression \<open>ServiceName\<close>.\<close>

definition ServiceName :: "string \<Rightarrow> bool" where
  "ServiceName n = (n \<noteq> [] \<and> (isLower (hd n) \<or> isUpper (hd n) \<or> isDigit (hd n)) \<and>
     list_all (\<lambda>c. isLower c \<or> isUpper c \<or> isDigit c \<or> c \<in> set ''_.-'') (tl n))"

record loader =
  ld_decode :: "string \<Rightarrow> (string, spec) res"
  ld_lookup :: lookup
  ld_hash :: "policy \<Rightarrow> string"
  ld_parsers :: parsers

definition check_service :: "loader \<Rightarrow> string \<times> service \<Rightarrow> (spec_error, unit) res" where
  "check_service ld ns = (case ns of (name, svc) \<Rightarrow>
     then_res (guard_res (\<not> ServiceName name) (Bad_service_name name))
    (then_res (validate svc name) (checkLimits (ld_parsers ld) name svc)))"

text \<open>A spec with a bad form reports the unset variables with it, when this load expands.\<close>

definition check_env :: "loader \<Rightarrow> bool \<Rightarrow> spec \<Rightarrow> (spec_error, unit) res" where
  "check_env ld expand s = (case checkEnvSyntax s of Inr _ \<Rightarrow> Inr ()
     | Inl e \<Rightarrow> (if expand then (case unsetEnv (ld_lookup ld) s of
           Inl (Env_unset parts) \<Rightarrow> Inl (Env_syntax_and_unset (bad_forms s) parts)
         | _ \<Rightarrow> Inl e)
       else Inl e))"

definition check_order :: "spec \<Rightarrow> (spec_error, unit) res" where
  "check_order s = (case CreationOrder s of
      Some (Inr _) \<Rightarrow> Inr ()
    | Some (Inl e) \<Rightarrow> Inl e
    | None \<Rightarrow> Inl (Dependency_cycle []))"

definition check_export :: "spec \<Rightarrow> string \<times> string \<Rightarrow> (spec_error, unit) res" where
  "check_export s er = (case er of (env, ref) \<Rightarrow> (case Cut ref CHR '':'' of
      None \<Rightarrow> Inl (Bad_export env ref)
    | Some (svc, port) \<Rightarrow>
        if \<not> declares s svc then Inl (Export_service env svc)
        else guard_res (\<not> HasPort (svc_of s svc) port) (Export_port env port svc)))"

definition check_spec :: "loader \<Rightarrow> bool \<Rightarrow> spec \<Rightarrow> (spec_error, unit) res" where
  "check_spec ld expand s =
     then_res (guard_res (Version s \<noteq> 1) (Bad_version (Version s)))
    (then_res (guard_res (Services s = []) No_services)
    (then_res (check_all (check_service ld) (Services s))
    (then_res (check_env ld expand s)
    (then_res (map_err (Bad_interval []) (checkInterval (spec_HealthInterval s)))
    (then_res (checkDependencies s)
    (then_res (check_order s)
              (checkEgressFilters (ld_hash ld) s)))))))"

definition parseSpec :: "loader \<Rightarrow> string \<Rightarrow> bool \<Rightarrow> (spec_error, spec) res" where
  "parseSpec ld raw expand = (case ld_decode ld raw of Inl e \<Rightarrow> Inl (Decode_error e)
     | Inr s0 \<Rightarrow> (case check_spec ld expand s0 of Inl e \<Rightarrow> Inl e
     | Inr _ \<Rightarrow> (case (if expand then expandEnv (ld_lookup ld) s0 else Inr s0) of Inl e \<Rightarrow> Inl e
     | Inr s \<Rightarrow> (case check_all (check_export s) (Exports s) of Inl e \<Rightarrow> Inl e
     | Inr _ \<Rightarrow> Inr s))))"

text \<open>\<open>loadSpec\<close>: the file, or the reason it could not be read.\<close>

datatype load_error = No_spec_file | Read_error string | Spec_error spec_error

definition loadSpec :: "loader \<Rightarrow> (load_error, string) res \<Rightarrow> bool \<Rightarrow> (load_error, spec) res" where
  "loadSpec ld file expand = (case file of Inl e \<Rightarrow> Inl e
     | Inr raw \<Rightarrow> map_err Spec_error (parseSpec ld raw expand))"

section \<open>Facts on the scan\<close>

lemma scan_step:
  "scan_loop sub [] = ([], [], [])"
  "\<not> HasPrefix (c # cs) ''$${'' \<Longrightarrow> \<not> HasPrefix (c # cs) ''${'' \<Longrightarrow>
     scan_loop sub (c # cs) = (let (out, used, bad) = scan_loop sub cs in (c # out, used, bad))"
  "HasPrefix val ''$${'' \<Longrightarrow>
     scan_loop sub val = (let (out, used, bad) = scan_loop sub (drop 3 val) in (''${'' @ out, used, bad))"
  "\<not> HasPrefix val ''$${'' \<Longrightarrow> HasPrefix val ''${'' \<Longrightarrow> env_ref (drop 2 val) = Some name \<Longrightarrow>
     scan_loop sub val = (let (out, used, bad) = scan_loop sub (drop (length name + 3) val)
             in (sub name (''${'' @ name @ ''}'') @ out, name # used, bad))"
  "\<not> HasPrefix val ''$${'' \<Longrightarrow> HasPrefix val ''${'' \<Longrightarrow> env_ref (drop 2 val) = None \<Longrightarrow>
     scan_loop sub val = (let (out, used, bad) = scan_loop sub (drop (length (bad_ref val)) val)
             in (bad_ref val @ out, used, bad_ref val # bad))"
  subgoal by (subst scan_loop.simps) simp
  subgoal by (subst scan_loop.simps) simp
  subgoal by (subst scan_loop.simps) (auto simp: HasPrefix_def)
  subgoal by (subst scan_loop.simps) (auto simp: HasPrefix_def Let_def)
  subgoal by (subst scan_loop.simps) (auto simp: HasPrefix_def Let_def)
  done

lemma Contains_Cons: "Contains (c # cs) t \<longleftrightarrow> HasPrefix (c # cs) t \<or> Contains cs t"
  by (auto simp: Contains_def HasPrefix_def sublist_Cons_right)

lemma scan_plain: "\<not> Contains val ''${'' \<Longrightarrow> scan_loop sub val = (val, [], [])"
proof (induction val)
  case Nil
  then show ?case by (simp add: scan_step)
next
  case (Cons c cs)
  then have "\<not> HasPrefix (c # cs) ''${''" "\<not> Contains cs ''${''" by (simp_all add: Contains_Cons)
  moreover from this have "\<not> HasPrefix (c # cs) ''$${''"
    by (cases cs) (auto simp: HasPrefix_def Contains_Cons)
  ultimately show ?case using Cons.IH by (simp add: scan_step)
qed

lemma scanEnv_loop: "scanEnv sub val = scan_loop sub val"
  by (simp add: scanEnv_def scan_plain)

text \<open>What is referenced and what is refused do not depend on what is substituted.\<close>

lemma scan_same: "snd (scan_loop sub val) = snd (scan_loop sub' val)"
proof (induction val rule: length_induct)
  case (1 val)
  then have IH: "length t < length val \<Longrightarrow> snd (scan_loop sub t) = snd (scan_loop sub' t)" for t by blast
  consider "val = []" | "val \<noteq> []" "HasPrefix val ''$${''"
    | name where "val \<noteq> []" "\<not> HasPrefix val ''$${''" "HasPrefix val ''${''" "env_ref (drop 2 val) = Some name"
    | "val \<noteq> []" "\<not> HasPrefix val ''$${''" "HasPrefix val ''${''" "env_ref (drop 2 val) = None"
    | c cs where "val = c # cs" "\<not> HasPrefix val ''$${''" "\<not> HasPrefix val ''${''"
    by (cases val) (auto simp: HasPrefix_def)
  then show ?case
  proof cases
    case 2
    with IH [of "drop 3 val"] show ?thesis by (auto simp: scan_step(3) split: prod.splits)
  next
    case 3
    with IH [of "drop (length name + 3) val"] show ?thesis by (auto simp: scan_step(4) [OF 3(2-4)] split: prod.splits)
  next
    case 4
    with IH [of "drop (length (bad_ref val)) val"] bad_ref_nonempty [OF 4(1)] show ?thesis
      by (auto simp: scan_step(5) [OF 4(2-4)] split: prod.splits)
  next
    case 5
    with IH [of cs] show ?thesis by (auto simp: scan_step(2) split: prod.splits)
  qed (simp add: scan_step)
qed

text \<open>The spelling of a literal: every \<open>${\<close> doubled to \<open>$${\<close>.\<close>

fun escape :: "string \<Rightarrow> string" where
  "escape [] = []"
| "escape [c] = [c]"
| "escape (c # d # s) = (if c = CHR ''$'' \<and> d = CHR ''{'' then ''$${'' @ escape s else c # escape (d # s))"

lemma escape_hd: "s \<noteq> [] \<Longrightarrow> escape s \<noteq> [] \<and> hd (escape s) = hd s"
  by (induction s rule: escape.induct) auto

lemma escape_not_open: "\<not> HasPrefix (escape s) ''${''"
proof (induction s rule: escape.induct)
  case (3 c d s)
  then show ?case using escape_hd [of "d # s"] by (cases "escape (d # s)") (auto simp: HasPrefix_def)
qed (simp_all add: HasPrefix_def)

lemma scan_escape: "scan_loop sub (escape s) = (s, [], [])"
proof (induction s rule: escape.induct)
  case 1
  then show ?case by (simp add: scan_step)
next
  case (2 c)
  then show ?case by (simp add: scan_step HasPrefix_def)
next
  case (3 c d s)
  show ?case
  proof (cases "c = CHR ''$'' \<and> d = CHR ''{''")
    case True
    with 3(1) show ?thesis using scan_step(3) [of "''$${'' @ escape s" sub] by (simp add: HasPrefix_def)
  next
    case False
    obtain r where r: "escape (d # s) = d # r" using escape_hd [of "d # s"] by (cases "escape (d # s)") auto
    have "\<not> HasPrefix (c # escape (d # s)) ''${''" using False r by (auto simp: HasPrefix_def)
    moreover have "\<not> HasPrefix (c # escape (d # s)) ''$${''"
      using escape_not_open [of "d # s"] by (simp add: HasPrefix_def)
    ultimately show ?thesis using 3(2) False by (auto simp: scan_step)
  qed
qed

text \<open>
  The escape works for every text: a value written with \<open>$${\<close> for each \<open>${\<close> is read back as
  the text itself, whatever the environment, with no variable referenced and no form refused.
\<close>

theorem env_escape_round_trip: "scanEnv sub (escape v) = (v, [], [])"
  by (simp add: scanEnv_loop scan_escape)

text \<open>
  The early return of \<open>scanEnv\<close> is only an optimisation: with and without it every value is
  read the same.
\<close>

theorem scan_early_return: "scanEnv sub val = scan_loop sub val"
  by (rule scanEnv_loop)

definition env_vars :: "string \<Rightarrow> string list" where
  "env_vars val = fst (snd (scanEnv (\<lambda>_ ref. ref) val))"

lemma value_uses_vars: "value_uses lookup val = env_vars val"
  unfolding value_uses_def env_vars_def scanEnv_loop
  by (rule arg_cong [where f = fst], rule scan_same)

text \<open>The variables a spec references that are not set.\<close>

definition unset_vars :: "lookup \<Rightarrow> spec \<Rightarrow> string set" where
  "unset_vars lookup s = {v. lookup v = None \<and>
     (\<exists>name \<in> set (Names s). \<exists>kv \<in> set (Env (svc_of s name)). v \<in> set (env_vars (snd kv)))}"

lemma missing_uses_vars: "fst ` set (missing_uses lookup s) = unset_vars lookup s"
proof -
  have inner: "fst ` set (map (\<lambda>v. (v, u)) (filter P vs)) = {v \<in> set vs. P v}" for u :: string and P and vs :: "string list"
    by force
  have "fst ` set (missing_uses lookup s) = (\<Union>name \<in> set (Names s). \<Union>kv \<in> set (Env (svc_of s name)).
      fst ` set (map (\<lambda>v. (v, name @ ''.'' @ fst kv)) (filter (\<lambda>v. lookup v = None) (env_vars (snd kv)))))"
    unfolding missing_uses_def value_uses_vars set_concat set_map image_UN
    by (simp add: image_image image_UN case_prod_beta)
  also have "\<dots> = unset_vars lookup s" unfolding inner unset_vars_def by blast
  finally show ?thesis .
qed

lemma missing_parts_vars: "map fst (missing_parts uses) = sort (remdups (map fst uses))"
  by (simp add: missing_parts_def comp_def)

lemma resolveEnv_cases:
  "resolveEnv lookup w s = Inr t \<Longrightarrow> unset_vars lookup s = {}"
  "resolveEnv lookup w s = Inl e \<Longrightarrow> \<exists>parts. e = Env_unset parts \<and>
     sorted (map fst parts) \<and> distinct (map fst parts) \<and> set (map fst parts) = unset_vars lookup s \<and> parts \<noteq> []"
proof -
  show "resolveEnv lookup w s = Inr t \<Longrightarrow> unset_vars lookup s = {}"
    using missing_uses_vars [of lookup s] by (simp add: resolveEnv_def Let_def split: if_splits)
  assume "resolveEnv lookup w s = Inl e"
  then have ne: "missing_uses lookup s \<noteq> []" and e: "e = Env_unset (missing_parts (missing_uses lookup s))"
    by (simp_all add: resolveEnv_def Let_def split: if_splits)
  let ?p = "missing_parts (missing_uses lookup s)"
  have "?p \<noteq> []" using ne by (simp add: missing_parts_def) (metis Nil_is_map_conv remdups_eq_nil_iff set_empty set_sort)
  moreover have "set (map fst ?p) = unset_vars lookup s"
    unfolding missing_parts_vars by (simp add: missing_uses_vars)
  ultimately show "\<exists>parts. e = Env_unset parts \<and>
     sorted (map fst parts) \<and> distinct (map fst parts) \<and> set (map fst parts) = unset_vars lookup s \<and> parts \<noteq> []"
    using e by (metis missing_parts_vars distinct_remdups distinct_sort sorted_sort)
qed

text \<open>
  Every unset variable is reported at once, and none that is set: expansion succeeds exactly
  when every variable the spec references is set, and its error lists the unset ones, each once and
  in order.
\<close>

theorem unset_variables_all_reported:
  "case expandEnv lookup s of
     Inr _ \<Rightarrow> unset_vars lookup s = {}
   | Inl e \<Rightarrow> \<exists>parts. e = Env_unset parts \<and> parts \<noteq> [] \<and> sorted (map fst parts) \<and>
       distinct (map fst parts) \<and> set (map fst parts) = unset_vars lookup s"
  using resolveEnv_cases [of lookup True s] unfolding expandEnv_def
  by (cases "resolveEnv lookup True s") auto

section \<open>What a loaded spec is\<close>

lemma checkInterval_range:
  assumes "checkInterval raw = Inr ()" "TrimSpace raw \<noteq> []"
  obtains d where "ParseDuration raw = Some d" "50 * millisecond \<le> d" "d \<le> 5 * minute"
  using assms by (auto simp: checkInterval_def split: option.splits if_splits)

lemma ProbeInterval_range:
  assumes "checkInterval (HealthInterval svc) = Inr ()" "checkInterval (spec_HealthInterval s) = Inr ()"
  shows "50 * millisecond \<le> ProbeInterval s svc \<and> ProbeInterval s svc \<le> 5 * minute"
proof -
  have pos: "0 < 50 * millisecond" by (simp add: millisecond_def)
  have loop: "50 * millisecond \<le> probe_loop raws \<and> probe_loop raws \<le> 5 * minute"
    if "\<forall>raw \<in> set raws. checkInterval raw = Inr ()" for raws
    using that
  proof (induction raws)
    case Nil
    then show ?case by (simp add: DefaultHealthInterval_def millisecond_def minute_def)
  next
    case (Cons raw raws)
    then show ?case using pos by (auto elim: checkInterval_range [of raw] split: option.splits)
  qed
  show ?thesis unfolding ProbeInterval_def by (rule loop) (use assms in simp)
qed

lemma expand_service_fields [simp]:
  "DependsOn (expand_service lookup v) = DependsOn v" "svc_Ports (expand_service lookup v) = svc_Ports v"
  "HealthInterval (expand_service lookup v) = HealthInterval v"
  by (simp_all add: expand_service_def)

lemma validate_expand [simp]: "validate (expand_service lookup v) name = validate v name"
  by (simp add: validate_def expand_service_def check_image_def validatePolicy_def IdleNever_def)

definition expanded :: "lookup \<Rightarrow> spec \<Rightarrow> spec" where
  "expanded lookup s = s\<lparr>Services := map (\<lambda>(n, v). (n, expand_service lookup v)) (Services s)\<rparr>"

lemma expanded_facts [simp]:
  "Names (expanded lookup s) = Names s" "spec_HealthInterval (expanded lookup s) = spec_HealthInterval s"
  "Exports (expanded lookup s) = Exports s"
  by (simp_all add: expanded_def Names_def comp_def case_prod_beta)

lemma zero_expand: "expand_service lookup zero_service = zero_service"
  by (simp add: expand_service_def zero_service_def)

lemma svc_of_expanded: "svc_of (expanded lookup s) name = expand_service lookup (svc_of s name)"
proof -
  have "map_of (map (\<lambda>(n, v). (n, f v)) xs) name = map_option f (map_of xs name)" for f :: "service \<Rightarrow> service" and xs
    by (induction xs) auto
  then show ?thesis by (auto simp: svc_of_def expanded_def zero_expand split: option.splits)
qed

lemma edge_expanded: "edge (expanded lookup s) = edge s"
  by (intro ext) (simp add: edge_def declares_iff svc_of_expanded)

lemma checkDependencies_expanded: "checkDependencies (expanded lookup s) = checkDependencies s"
proof -
  have "check_dep (expanded lookup s) name = check_dep s name" for name
    by (intro ext) (simp add: check_dep_def declares_iff)
  then show ?thesis by (simp add: checkDependencies_def svc_of_expanded)
qed

lemma order_expanded:
  assumes "checkDependencies s = Inr ()" "CreationOrder s = Some (Inr out)"
  shows "\<exists>out. CreationOrder (expanded lookup s) = Some (Inr out)"
  using assms CreationOrder_iff_acyclic [of s] CreationOrder_iff_acyclic [of "expanded lookup s"]
  by (auto simp: checkDependencies_expanded is_cycle_def edge_expanded)

lemma parseSpec_ok:
  assumes "parseSpec ld raw expand = Inr s"
  obtains s0 where "ld_decode ld raw = Inr s0" "check_spec ld expand s0 = Inr ()"
    "s = (if expand then expanded (ld_lookup ld) s0 else s0)"
    "expand \<longrightarrow> unset_vars (ld_lookup ld) s0 = {}"
    "\<forall>er \<in> set (Exports s). check_export s er = Inr ()"
proof -
  from assms obtain s0 where s0: "ld_decode ld raw = Inr s0" "check_spec ld expand s0 = Inr ()"
    and s: "(if expand then expandEnv (ld_lookup ld) s0 else Inr s0) = Inr s"
    and x: "\<forall>er \<in> set (Exports s). check_export s er = Inr ()"
    by (auto simp: parseSpec_def split: sum.splits)
  from s have "s = (if expand then expanded (ld_lookup ld) s0 else s0)"
    by (auto simp: expandEnv_def resolveEnv_def Let_def expanded_def split: if_splits)
  moreover from s have "expand \<longrightarrow> unset_vars (ld_lookup ld) s0 = {}"
    using resolveEnv_cases(1) by (auto simp: expandEnv_def split: if_splits)
  ultimately show thesis using that s0 x by blast
qed

lemma check_export_ok:
  assumes "check_export s (env, ref) = Inr ()"
  shows "\<exists>svc port. ref = svc @ '':'' @ Itoa port \<and> declares s svc \<and> port \<in> set (svc_Ports (svc_of s svc))"
proof -
  from assms obtain svc p where "Cut ref CHR '':'' = Some (svc, Itoa p)" "declares s svc"
    "p \<in> set (svc_Ports (svc_of s svc))"
    by (auto simp: check_export_def HasPort_def list_ex_iff split: option.splits if_splits)
  then have "ref = svc @ '':'' @ Itoa p \<and> declares s svc \<and> p \<in> set (svc_Ports (svc_of s svc))"
    by (simp add: Cut_iff)
  then show ?thesis by blast
qed

lemma validate_ok:
  assumes "validate v name = Inr ()"
  shows "svc_Ports v \<noteq> []" "\<forall>p \<in> set (svc_Ports v). 1 \<le> p \<and> p \<le> 65535"
    "checkInterval (HealthInterval v) = Inr ()" "validatePolicy v name = Inr ()"
    "Egress v \<in> {[], EgressDeny_value, EgressAllow_value}"
    "\<forall>x \<in> set (enumerate 0 (VolumeMounts v)). vm_validate (snd x) = Inr ()"
  using assms by (simp_all add: validate_def case_prod_beta not_less)

text \<open>
  (C21) A spec that loads can be created: every service has a usable name, at least one port and only
  ports a machine has, is probed at most twenty times a second and at least every five minutes,
  there is an order to create the services in, every export names a port that its service declares,
  and with expansion no value refers to an unset variable.
\<close>

theorem loaded_spec_can_be_created:
  assumes "parseSpec ld raw expand = Inr s"
  shows "Services s \<noteq> [] \<and>
    (\<forall>(name, v) \<in> set (Services s). ServiceName name \<and> svc_Ports v \<noteq> [] \<and>
       (\<forall>p \<in> set (svc_Ports v). 1 \<le> p \<and> p \<le> 65535) \<and>
       50 * millisecond \<le> ProbeInterval s v \<and> ProbeInterval s v \<le> 5 * minute) \<and>
    (\<exists>out. CreationOrder s = Some (Inr out)) \<and>
    (\<forall>(env, ref) \<in> set (Exports s). \<exists>svc port. ref = svc @ '':'' @ Itoa port \<and> declares s svc \<and>
       port \<in> set (svc_Ports (svc_of s svc))) \<and>
    (\<exists>s0. ld_decode ld raw = Inr s0 \<and> (expand \<longrightarrow> unset_vars (ld_lookup ld) s0 = {}))"
proof -
  from assms obtain s0 where s0: "ld_decode ld raw = Inr s0" "expand \<longrightarrow> unset_vars (ld_lookup ld) s0 = {}"
    and c: "check_spec ld expand s0 = Inr ()"
    and s: "s = (if expand then expanded (ld_lookup ld) s0 else s0)"
    and x: "\<forall>er \<in> set (Exports s). check_export s er = Inr ()"
    by (rule parseSpec_ok)
  from c have svcs: "\<forall>nv \<in> set (Services s0). check_service ld nv = Inr ()" and ne: "Services s0 \<noteq> []"
    and hi: "checkInterval (spec_HealthInterval s0) = Inr ()" and deps: "checkDependencies s0 = Inr ()"
    and ord: "check_order s0 = Inr ()"
    by (simp_all add: check_spec_def)
  from ord obtain out where out: "CreationOrder s0 = Some (Inr out)"
    by (auto simp: check_order_def split: option.splits sum.splits)
  have order: "\<exists>out. CreationOrder s = Some (Inr out)"
    using order_expanded [OF deps out] out by (auto simp: s)
  have svc: "ServiceName n \<and> validate v n = Inr ()" if "(n, v) \<in> set (Services s)" for n v
  proof -
    from that obtain v0 where "(n, v0) \<in> set (Services s0)" "validate v n = validate v0 n"
      by (auto simp: s expanded_def split: if_splits)
    with svcs show ?thesis by (fastforce simp: check_service_def)
  qed
  have hi': "checkInterval (spec_HealthInterval s) = Inr ()" using hi by (simp add: s)
  have "ServiceName n \<and> svc_Ports v \<noteq> [] \<and> (\<forall>p \<in> set (svc_Ports v). 1 \<le> p \<and> p \<le> 65535) \<and>
       50 * millisecond \<le> ProbeInterval s v \<and> ProbeInterval s v \<le> 5 * minute"
    if "(n, v) \<in> set (Services s)" for n v
    using svc [OF that] validate_ok [of v n] ProbeInterval_range [of v s] hi' by blast
  moreover have "Services s \<noteq> []" using ne by (simp add: s expanded_def)
  moreover have "\<forall>(env, ref) \<in> set (Exports s). \<exists>svc port. ref = svc @ '':'' @ Itoa port \<and> declares s svc \<and>
       port \<in> set (svc_Ports (svc_of s svc))"
    using x check_export_ok [of s] by blast
  ultimately show ?thesis using order s0 by blast
qed

definition demo_loader :: loader where
  "demo_loader = \<lparr>ld_decode = (\<lambda>_. Inr \<lparr>Version = 1,
       Services = [(''api'', (demo_svc [8080] [''db''])\<lparr>Env := [(''PW'', ''${SECRET}'')]\<rparr>), (''db'', demo_svc [5432] [])],
       Exports = [(''DB_PORT'', ''db:5432'')], spec_HealthInterval = ''1.5s''\<rparr>),
     ld_lookup = [''SECRET'' \<mapsto> ''hunter2''], ld_hash = (\<lambda>_. []),
     ld_parsers = \<lparr>ParseFloat = (\<lambda>_. None), csv_Read = (\<lambda>_. None)\<rparr>\<rparr>"

theorem loaded_spec_can_be_created_witness:
  "case parseSpec demo_loader [] True of
     Inr s \<Rightarrow> Env (svc_of s ''api'') = [(''PW'', ''hunter2'')] \<and> (\<exists>out. CreationOrder s = Some (Inr out))
   | Inl _ \<Rightarrow> False"
proof -
  let ?s = "\<lparr>Version = 1,
       Services = [(''api'', (demo_svc [8080] [''db''])\<lparr>Env := [(''PW'', ''hunter2'')]\<rparr>), (''db'', demo_svc [5432] [])],
       Exports = [(''DB_PORT'', ''db:5432'')], spec_HealthInterval = ''1.5s''\<rparr>"
  have 1: "parseSpec demo_loader [] True = Inr ?s" by code_simp
  have 2: "Env (svc_of ?s ''api'') = [(''PW'', ''hunter2'')]" by code_simp
  from loaded_spec_can_be_created [OF 1] have 3: "\<exists>out. CreationOrder ?s = Some (Inr out)" by blast
  show ?thesis unfolding 1 sum.case using 2 3 by blast
qed

lemma vm_validate_ok:
  assumes "vm_validate m = Inr ()"
  shows "(vm_Volume m = []) \<noteq> (vm_Host m = [])" "HasPrefix (vm_Target m) ''/''"
    "''..'' \<notin> set (Split (vm_SubPath m) CHR ''/'')"
    "f \<in> {vm_Volume m, vm_Host m, vm_Target m, vm_SubPath m} \<Longrightarrow>
       CHR '','' \<notin> set f \<and> CHR 0x22 \<notin> set f \<and> CHR 0x0A \<notin> set f"
proof -
  note u = assms [unfolded vm_validate_def]
  show "(vm_Volume m = []) \<noteq> (vm_Host m = [])" using u by (simp split: if_splits)
  show "HasPrefix (vm_Target m) ''/''" using u by (simp split: if_splits)
  have "vm_SubPath m \<noteq> [] \<Longrightarrow> ''..'' \<notin> set (Split (vm_SubPath m) CHR ''/'')"
    using u by (simp split: if_splits)
  then show "''..'' \<notin> set (Split (vm_SubPath m) CHR ''/'')" by (cases "vm_SubPath m = []") auto
  have "\<forall>f \<in> {vm_Volume m, vm_Host m, vm_Target m, vm_SubPath m}.
      \<not> ContainsAny f [CHR '','', CHR 0x22, CHR 0x0A, CHR 0x00]"
    using u by (simp del: check_all.simps split: if_splits)
  moreover have "CHR '','' \<notin> set f \<and> CHR 0x22 \<notin> set f \<and> CHR 0x0A \<notin> set f"
    if "\<not> ContainsAny f [CHR '','', CHR 0x22, CHR 0x0A, CHR 0x00]" for f
    using that by (auto simp: ContainsAny_def list_ex_iff)
  ultimately show "f \<in> {vm_Volume m, vm_Host m, vm_Target m, vm_SubPath m} \<Longrightarrow>
       CHR '','' \<notin> set f \<and> CHR 0x22 \<notin> set f \<and> CHR 0x0A \<notin> set f"
    by blast
qed

text \<open>
  A mount that validates cannot become another mount: a volume mount that \<open>validate\<close> accepts
  has exactly one source, an absolute target, no \<open>..\<close> component in its sub path, and no byte in any
  of its fields that would end the field in the comma separated option it is passed as.
\<close>

theorem validated_mount_is_one_mount:
  assumes "validate v name = Inr ()" and "m \<in> set (VolumeMounts v)"
  shows "(vm_Volume m = []) \<noteq> (vm_Host m = []) \<and> HasPrefix (vm_Target m) ''/'' \<and>
    ''..'' \<notin> set (Split (vm_SubPath m) CHR ''/'') \<and>
    (\<forall>f \<in> {vm_Volume m, vm_Host m, vm_Target m, vm_SubPath m}.
       CHR '','' \<notin> set f \<and> CHR 0x22 \<notin> set f \<and> CHR 0x0A \<notin> set f)"
proof -
  have "m \<in> snd ` set (enumerate 0 (VolumeMounts v))" using assms(2) by (metis list.set_map map_snd_enumerate)
  with validate_ok(6) [OF assms(1)] have "vm_validate m = Inr ()" by auto
  from vm_validate_ok [OF this] show ?thesis by blast
qed

theorem validated_mount_is_one_mount_witness:
  "let m = \<lparr>vm_Volume = ''data'', vm_Host = [], vm_Target = ''/data'', vm_SubPath = ''a/b'', vm_ReadOnly = True\<rparr>;
       v = (demo_svc [80] [])\<lparr>VolumeMounts := [m]\<rparr>
   in validate v ''web'' = Inr () \<and> ''..'' \<notin> set (Split (vm_SubPath m) CHR ''/'')"
proof -
  let ?m = "\<lparr>vm_Volume = ''data'', vm_Host = [], vm_Target = ''/data'', vm_SubPath = ''a/b'', vm_ReadOnly = True\<rparr>"
  let ?v = "(demo_svc [80] [])\<lparr>VolumeMounts := [?m]\<rparr>"
  have 1: "validate ?v ''web'' = Inr ()" by code_simp
  have 2: "?m \<in> set (VolumeMounts ?v)" by simp
  from validated_mount_is_one_mount [OF 1 2] 1 show ?thesis by (simp only: Let_def) blast
qed

text \<open>
  A validated service says one thing about egress, and the filter starts with it: at most one
  of the three fields is set; a declared policy is enforced as its normal form, never replaced by
  the deny-all fallback; \<open>egress: "allow"\<close> permits every name; anything else is not filtered at all.
\<close>

theorem declared_policy_is_enforced:
  assumes "validate v name = Inr ()"
  shows "case EgressPolicy v of
      Some p \<Rightarrow> Normalize p = Inr (DeclaredPolicy v) \<and> Egress v = [] \<and> EgressAllow v = []
    | None \<Rightarrow> if EgressAllow v \<noteq> [] then Egress v = [] \<and> DeclaredPolicy v = FromAllowList (EgressAllow v)
        else if Egress v = EgressAllow_value then (\<forall>host. AllowsName (DeclaredPolicy v) host)
        else \<not> Filtered v"
proof -
  have all: "AllowsName (mk_policy ActionAllow []) host" for host
    by (simp add: AllowsName_def allowsName_rules)
  from validate_ok(4) [OF assms] show ?thesis
    by (auto simp: validatePolicy_def DeclaredPolicy_def Let_def Filtered_def EgressAllow_value_def all
        split: option.splits sum.splits if_splits)
qed

theorem declared_policy_is_enforced_witness:
  "let p = mk_policy ''Allow'' [mk_rule '''' ''bad.example'']; v = (demo_svc [80] [])\<lparr>EgressPolicy := Some p\<rparr>
   in validate v ''web'' = Inr () \<and> Normalize p = Inr (DeclaredPolicy v) \<and> \<not> AllowsName (DeclaredPolicy v) ''bad.example''"
proof -
  let ?p = "mk_policy ''Allow'' [mk_rule '''' ''bad.example'']"
  let ?v = "(demo_svc [80] [])\<lparr>EgressPolicy := Some ?p\<rparr>"
  have 1: "validate ?v ''web'' = Inr ()" by code_simp
  have 2: "\<not> AllowsName (DeclaredPolicy ?v) ''bad.example''" by code_simp
  have 3: "EgressPolicy ?v = Some ?p" by simp
  from declared_policy_is_enforced [OF 1, unfolded 3 option.case] 1 2 show ?thesis by (simp only: Let_def) blast
qed

end
