(* ===== verification/Slot_Lock.thy ===== *)
theory Slot_Lock
  imports Go_Strings
begin

text \<open>
  Locks between sbx processes: \<^verbatim>\<open>internal/procid/procid.go\<close> (who a process is, across pid reuse) and
  \<^verbatim>\<open>internal/slotlock/slotlock.go\<close> (lock files that name their holder). The first half models the
  functions that look at one file system at one moment. The second half models \<open>take\<close> and its
  release as callers that interleave, one file operation per step; what waits on a clock or a
  context may give up at any time. \<open>os.Getpid\<close>, the process table and the home directory are
  arguments.
\<close>

section \<open>Processes\<close>

record procRecord =
  PID :: int
  Start :: int

definition mk_proc :: "int \<Rightarrow> int \<Rightarrow> procRecord" where
  "mk_proc p s = \<lparr>PID = p, Start = s\<rparr>"

text \<open>What the system says of processes: our own record, whether a pid exists, and its start time.\<close>

record proc_os =
  os_self :: procRecord
  os_exists :: "int \<Rightarrow> bool"
  os_StartOf :: "int \<Rightarrow> int option"

definition Alive :: "proc_os \<Rightarrow> procRecord \<Rightarrow> bool" where
  "Alive os r =
     (if PID r \<le> 0 then False
      else if PID r = PID (os_self os) then Start r = 0 \<or> Start r = Start (os_self os)
      else if \<not> os_exists os (PID r) then False
      else if Start r = 0 then True
      else (case os_StartOf os (PID r) of None \<Rightarrow> True | Some s \<Rightarrow> s = Start r))"

definition proc_String :: "procRecord \<Rightarrow> string" where
  "proc_String r = (if Start r = 0 then Itoa (PID r) else Itoa (PID r) @ '' '' @ Itoa (Start r))"

text \<open>\<open>Atoi\<close> and \<open>ParseInt(_, 10, 64)\<close> agree where \<open>int\<close> has 64 bits.\<close>

definition proc_Parse :: "string \<Rightarrow> procRecord option" where
  "proc_Parse s = (let fs = Fields s in
     if fs = [] \<or> 2 < length fs then None
     else (case Atoi (hd fs) of None \<Rightarrow> None
       | Some pid \<Rightarrow>
           if pid \<le> 0 then None
           else if length fs = 2 then
             (case Atoi (fs ! 1) of None \<Rightarrow> None | Some s \<Rightarrow> if s \<le> 0 then None else Some (mk_proc pid s))
           else Some (mk_proc pid 0)))"

section \<open>Lock files\<close>

definition kindWith :: string where "kindWith = ''with''"

text \<open>A file system as the lock functions see it: contents and time since the last change, in
  nanoseconds.\<close>

type_synonym lock_fs = "string \<Rightarrow> (string \<times> int) option"

definition lock_body :: "procRecord \<Rightarrow> string \<Rightarrow> string" where
  "lock_body r kind = (if kind \<noteq> [] then proc_String r @ [CHR 0x0A] @ kind else proc_String r)"

definition parse_record :: "string \<Rightarrow> procRecord option \<times> string" where
  "parse_record body = (case Cut body CHR 0x0A of
      None \<Rightarrow> (proc_Parse body, [])
    | Some (first, kind) \<Rightarrow> (proc_Parse first, TrimSpace kind))"

definition readRecord :: "lock_fs \<Rightarrow> string \<Rightarrow> procRecord option \<times> string" where
  "readRecord fs path = (case fs path of None \<Rightarrow> (None, []) | Some (body, _) \<Rightarrow> parse_record body)"

text \<open>The verdict of \<open>stale\<close> on what its two reads returned: the body, and then the record. \<open>old\<close>
  says that the file could be asked for its age and has not changed for a second.\<close>

definition verdict :: "proc_os \<Rightarrow> string \<Rightarrow> procRecord option \<Rightarrow> bool \<Rightarrow> bool" where
  "verdict os body rec old = (case rec of
      None \<Rightarrow> if body = [] then old else True
    | Some r \<Rightarrow> if PID r = PID (os_self os) then False else \<not> Alive os r)"

definition stale :: "proc_os \<Rightarrow> lock_fs \<Rightarrow> string \<Rightarrow> bool" where
  "stale os fs path = (case fs path of None \<Rightarrow> False
     | Some (body, age) \<Rightarrow> verdict os body (fst (readRecord fs path)) (1000000000 \<le> age))"

definition clearStale :: "proc_os \<Rightarrow> string \<Rightarrow> lock_fs \<Rightarrow> bool \<times> lock_fs" where
  "clearStale os path fs = (if fs path = None then (True, fs)
     else if \<not> stale os fs path then (False, fs)
     else (True, fs(path := None)))"

definition Path :: "string \<Rightarrow> string" where "Path home = home @ ''/.sbx/slots.lock''"
definition NamePath :: "string \<Rightarrow> string \<Rightarrow> string" where
  "NamePath home sandbox = home @ ''/.sbx/locks/'' @ sandbox @ ''.lock''"

text \<open>\<open>glob\<close> is what \<open>filepath.Glob\<close> finds under the names directory. \<open>None\<close> for a machine with no
  home directory.\<close>

definition Stale :: "proc_os \<Rightarrow> string option \<Rightarrow> (string \<Rightarrow> string list) \<Rightarrow> lock_fs \<Rightarrow> string list option" where
  "Stale os home glob fs = (case home of None \<Rightarrow> None
     | Some h \<Rightarrow> Some (filter (\<lambda>p. fs p \<noteq> None \<and> stale os fs p) (Path h # glob (h @ ''/.sbx/locks/*.lock''))))"

text \<open>\<open>rm\<close> is the error \<open>os.Remove\<close> gives for a path, if any; a file that is gone is not an error.\<close>

fun RemoveStale :: "proc_os \<Rightarrow> (string \<Rightarrow> string option) \<Rightarrow> string list \<Rightarrow> lock_fs \<Rightarrow> string list \<times> lock_fs" where
  "RemoveStale os rm [] fs = ([], fs)"
| "RemoveStale os rm (p # ps) fs =
     (if \<not> stale os fs p then RemoveStale os rm ps fs
      else (case rm p of
          Some e \<Rightarrow> (let (errs, fs') = RemoveStale os rm ps fs in (e # errs, fs'))
        | None \<Rightarrow> RemoveStale os rm ps (fs(p := None))))"

definition EphemeralHolder :: "proc_os \<Rightarrow> string option \<Rightarrow> string \<Rightarrow> lock_fs \<Rightarrow> int option" where
  "EphemeralHolder os home sandbox fs = (case home of None \<Rightarrow> None
     | Some h \<Rightarrow> (case readRecord fs (NamePath h sandbox) of
         (Some r, kind) \<Rightarrow> if kind = kindWith \<and> Alive os r then Some (PID r) else None
       | (None, _) \<Rightarrow> None))"

definition ClearStaleName :: "proc_os \<Rightarrow> (string \<Rightarrow> string option) \<Rightarrow> string option \<Rightarrow> string \<Rightarrow> lock_fs \<Rightarrow> string option \<times> lock_fs" where
  "ClearStaleName os rm home sandbox fs = (case home of None \<Rightarrow> (None, fs)
     | Some h \<Rightarrow> (let path = NamePath h sandbox in
         if fs path = None \<or> \<not> stale os fs path then (None, fs)
         else if rm path \<noteq> None then (None, fs)
         else (Some path, fs(path := None))))"

section \<open>Taking a lock\<close>

text \<open>
  Where a caller of \<open>take\<close> is: before the in-process half; holding it and about to open the file;
  after a successful open, with the file still empty; holding; holding with no file; after the open
  said the file exists; inside \<open>stale\<close> before its first and before its second read; about to remove;
  asleep before the next try; about to give the in-process half back after a release or a failure;
  done.
\<close>

datatype pc = Want | Opening | Created nat | Holding nat | Local_only | Exists | Reading | Judging string
  | Removing | Asleep | Unlocking | Failing | Released | Refused

text \<open>
  The machine: the processes and the dead ones, which process each caller is in and its kind of
  lock, the in-process halves, and one lock path with its inodes. An inode has contents and, for
  the statements, the caller that made it. \<open>lk_usable\<close>: a file can be made at the path. \<open>lk_slow\<close>: a
  live process may stall for a second between its open and its write.
\<close>

record lock_state =
  lk_procs :: "procRecord list"
  lk_dead :: "nat list"
  lk_proc :: "nat \<Rightarrow> nat"
  lk_kind :: "nat \<Rightarrow> string"
  lk_local :: "nat \<Rightarrow> bool"
  lk_file :: "nat option"
  lk_body :: "nat \<Rightarrow> string"
  lk_maker :: "nat \<Rightarrow> nat"
  lk_next :: nat
  lk_pc :: "nat \<Rightarrow> pc"
  lk_usable :: bool
  lk_slow :: bool

definition proc_alive :: "lock_state \<Rightarrow> nat \<Rightarrow> bool" where
  "proc_alive st q = (q < length (lk_procs st) \<and> q \<notin> set (lk_dead st))"

definition caller_alive :: "lock_state \<Rightarrow> nat \<Rightarrow> bool" where
  "caller_alive st c = proc_alive st (lk_proc st c)"

text \<open>The process table a caller sees: the pids and start times of what is running.\<close>

definition running :: "lock_state \<Rightarrow> int \<Rightarrow> procRecord option" where
  "running st pid = map_option (\<lambda>q. lk_procs st ! q)
     (find (\<lambda>q. proc_alive st q \<and> PID (lk_procs st ! q) = pid) [0..<length (lk_procs st)])"

definition os_of :: "lock_state \<Rightarrow> nat \<Rightarrow> proc_os" where
  "os_of st c = \<lparr>os_self = lk_procs st ! lk_proc st c,
     os_exists = (\<lambda>pid. running st pid \<noteq> None),
     os_StartOf = (\<lambda>pid. map_option Start (running st pid))\<rparr>"

definition body_of :: "lock_state \<Rightarrow> nat \<Rightarrow> string" where
  "body_of st c = lock_body (lk_procs st ! lk_proc st c) (lk_kind st c)"

datatype action = A_local | A_open | A_write | A_stat | A_read | A_judge | A_remove | A_retry | A_give_up
  | A_release | A_unlock

definition goto :: "nat \<Rightarrow> pc \<Rightarrow> lock_state \<Rightarrow> lock_state" where
  "goto c l st = st\<lparr>lk_pc := (lk_pc st)(c := l)\<rparr>"

fun act :: "action \<Rightarrow> nat \<Rightarrow> lock_state \<Rightarrow> lock_state option" where
  "act A_local c st = (if lk_pc st c = Want \<and> \<not> lk_local st (lk_proc st c)
     then Some (goto c Opening (st\<lparr>lk_local := (lk_local st)(lk_proc st c := True)\<rparr>)) else None)"
| "act A_open c st = (if lk_pc st c = Opening then
       (if \<not> lk_usable st then Some (goto c Local_only st)
        else case lk_file st of
          None \<Rightarrow> Some (goto c (Created (lk_next st)) (st\<lparr>lk_file := Some (lk_next st),
            lk_body := (lk_body st)(lk_next st := []), lk_maker := (lk_maker st)(lk_next st := c),
            lk_next := lk_next st + 1\<rparr>))
        | Some _ \<Rightarrow> Some (goto c Exists st)) else None)"
| "act A_write c st = (case lk_pc st c of
       Created n \<Rightarrow> Some (goto c (Holding n) (st\<lparr>lk_body := (lk_body st)(n := body_of st c)\<rparr>)) | _ \<Rightarrow> None)"
| "act A_stat c st = (if lk_pc st c = Exists
     then Some (goto c (if lk_file st = None then Opening else Reading) st) else None)"
| "act A_read c st = (if lk_pc st c = Reading
     then Some (goto c (case lk_file st of None \<Rightarrow> Asleep | Some n \<Rightarrow> Judging (lk_body st n)) st) else None)"
| "act A_judge c st = (case lk_pc st c of
       Judging body \<Rightarrow>
         (let rec = (case lk_file st of None \<Rightarrow> None | Some n \<Rightarrow> fst (parse_record (lk_body st n)));
              old = (case lk_file st of None \<Rightarrow> False
                     | Some n \<Rightarrow> lk_slow st \<or> \<not> caller_alive st (lk_maker st n))
          in Some (goto c (if verdict (os_of st c) body rec old then Removing else Asleep) st))
     | _ \<Rightarrow> None)"
| "act A_remove c st = (if lk_pc st c = Removing then Some (goto c Opening (st\<lparr>lk_file := None\<rparr>)) else None)"
| "act A_retry c st = (if lk_pc st c = Asleep then Some (goto c Opening st) else None)"
| "act A_give_up c st = (if lk_pc st c = Asleep then Some (goto c Failing st)
     else if lk_pc st c = Want \<and> lk_local st (lk_proc st c) then Some (goto c Refused st) else None)"
| "act A_release c st = (case lk_pc st c of
       Holding n \<Rightarrow> Some (goto c Unlocking (st\<lparr>lk_file := None\<rparr>))
     | Local_only \<Rightarrow> Some (goto c Unlocking st)
     | _ \<Rightarrow> None)"
| "act A_unlock c st = (if lk_pc st c = Unlocking \<or> lk_pc st c = Failing
     then Some (goto c (if lk_pc st c = Unlocking then Released else Refused)
       (st\<lparr>lk_local := (lk_local st)(lk_proc st c := False)\<rparr>)) else None)"

text \<open>One step of the machine: a live caller acts, or a process dies.\<close>

inductive lock_step :: "lock_state \<Rightarrow> lock_state \<Rightarrow> bool" where
  acts: "caller_alive st c \<Longrightarrow> act a c st = Some st' \<Longrightarrow> lock_step st st'"
| dies: "lock_step st (st\<lparr>lk_dead := q # lk_dead st\<rparr>)"

text \<open>A schedule without deaths, for witnesses.\<close>

fun run :: "(action \<times> nat) list \<Rightarrow> lock_state \<Rightarrow> lock_state option" where
  "run [] st = Some st"
| "run ((a, c) # s) st = (if caller_alive st c then (case act a c st of None \<Rightarrow> None | Some st' \<Rightarrow> run s st') else None)"

section \<open>Records survive the file\<close>

definition wf_proc :: "procRecord \<Rightarrow> bool" where
  "wf_proc r = (0 < PID r \<and> int_in_range (PID r) \<and> 0 \<le> Start r \<and> int_in_range (Start r))"

lemma fields_from_word:
  "\<forall>x \<in> set w. \<not> isSpaceByte x \<Longrightarrow> fields_from cur (w @ s) = fields_from (rev w @ cur) s"
  by (induction w arbitrary: cur) auto

lemma Itoa_no_space: "0 \<le> n \<Longrightarrow> x \<in> set (Itoa n) \<Longrightarrow> \<not> isSpaceByte x"
  using Itoa_digits [of n] isSpaceByte_not_digit by blast

lemma Fields_one: "\<forall>x \<in> set w. \<not> isSpaceByte x \<Longrightarrow> w \<noteq> [] \<Longrightarrow> Fields w = [w]"
  using fields_from_word [of w "[]" "[]"] by (simp add: Fields_def)

lemma Fields_two:
  assumes "\<forall>x \<in> set v. \<not> isSpaceByte x" "v \<noteq> []" "\<forall>x \<in> set w. \<not> isSpaceByte x" "w \<noteq> []"
  shows "Fields (v @ '' '' @ w) = [v, w]"
proof -
  have "isSpaceByte CHR '' ''" by (simp add: isSpaceByte_def)
  with fields_from_word [OF assms(1), of "[]" "'' '' @ w"] fields_from_word [OF assms(3), of "[]" "[]"] assms
  show ?thesis by (simp add: Fields_def)
qed

lemma proc_Parse_String:
  assumes "wf_proc r"
  shows "proc_Parse (proc_String r) = Some r"
proof -
  have r: "r = mk_proc (PID r) (Start r)" by (simp add: mk_proc_def)
  have p: "Atoi (Itoa (PID r)) = Some (PID r)" "Atoi (Itoa (Start r)) = Some (Start r)"
    using assms by (auto simp: wf_proc_def intro: Atoi_Itoa)
  show ?thesis
  proof (cases "Start r = 0")
    case True
    then have "proc_Parse (proc_String r) = Some (mk_proc (PID r) 0)"
      using assms p Fields_one [of "Itoa (PID r)"] Itoa_no_space [of "PID r"]
      by (simp add: proc_Parse_def proc_String_def wf_proc_def Itoa_ne)
    with True r show ?thesis by simp
  next
    case False
    then have "proc_Parse (proc_String r) = Some (mk_proc (PID r) (Start r))"
      using assms p Fields_two [of "Itoa (PID r)" "Itoa (Start r)"] Itoa_no_space [of "PID r"] Itoa_no_space [of "Start r"]
      by (simp add: proc_Parse_def proc_String_def wf_proc_def Itoa_ne)
    with r show ?thesis by simp
  qed
qed

lemma Cut_absent: "c \<notin> set s \<Longrightarrow> Cut s c = None"
  by (cases "Cut s c") (auto simp: Cut_iff)

lemma proc_String_no_newline: "wf_proc r \<Longrightarrow> CHR 0x0A \<notin> set (proc_String r)"
proof -
  assume w: "wf_proc r"
  have nl: "isSpaceByte CHR 0x0A" by (simp add: isSpaceByte_def)
  have "CHR 0x0A \<notin> set (Itoa (PID r))" "CHR 0x0A \<notin> set (Itoa (Start r))"
    using w nl Itoa_no_space [of "PID r" "CHR 0x0A"] Itoa_no_space [of "Start r" "CHR 0x0A"] by (auto simp: wf_proc_def)
  then show ?thesis by (simp add: proc_String_def)
qed

lemma parse_record_body:
  assumes "wf_proc r"
  shows "parse_record (lock_body r kind) = (Some r, TrimSpace kind)"
proof (cases "kind = []")
  case True
  then show ?thesis using proc_Parse_String [OF assms] Cut_absent [OF proc_String_no_newline [OF assms]]
    by (simp add: parse_record_def lock_body_def) (simp add: TrimSpace_def)
next
  case False
  have "Cut (proc_String r @ CHR 0x0A # kind) CHR 0x0A = Some (proc_String r, kind)"
    using proc_String_no_newline [OF assms] by (simp add: Cut_iff)
  with False proc_Parse_String [OF assms] show ?thesis by (simp add: parse_record_def lock_body_def)
qed

text \<open>
  A lock file says who holds it: the record and the kind a holder writes are what every reader
  gets back, for every pid and start time a process can have.
\<close>

theorem lock_record_round_trip:
  assumes "wf_proc r" and "kind \<in> {[], kindWith}" and "fs path = Some (lock_body r kind, age)"
  shows "readRecord fs path = (Some r, kind)"
proof -
  have "TrimSpace kind = kind" using assms(2) by (auto simp: kindWith_def) code_simp+
  with assms show ?thesis by (simp add: readRecord_def parse_record_body)
qed

theorem lock_record_round_trip_witness:
  "readRecord [''/h/.sbx/locks/x.lock'' \<mapsto> (''4711 998'' @ [CHR 0x0A] @ ''with'', 0)] ''/h/.sbx/locks/x.lock''
     = (Some (mk_proc 4711 998), ''with'')"
proof -
  have 1: "wf_proc (mk_proc 4711 998)" by code_simp
  have 2: "lock_body (mk_proc 4711 998) kindWith = ''4711 998'' @ [CHR 0x0A] @ ''with''" by code_simp
  show ?thesis
    using lock_record_round_trip [OF 1, of kindWith "[''/h/.sbx/locks/x.lock'' \<mapsto> (lock_body (mk_proc 4711 998) kindWith, 0)]" "''/h/.sbx/locks/x.lock''" 0]
    unfolding 2 by (simp add: kindWith_def)
qed

lemma verdict_alive: "Alive os r \<Longrightarrow> \<not> verdict os body (Some r) old"
  by (simp add: verdict_def)

lemma stale_alive:
  assumes "wf_proc r" "fs path = Some (lock_body r kind, age)" "Alive os r"
  shows "\<not> stale os fs path"
  using assms by (simp add: stale_def readRecord_def parse_record_body verdict_alive)

lemma RemoveStale_alive:
  assumes "wf_proc r" "fs path = Some (lock_body r kind, age)" "Alive os r"
  shows "snd (RemoveStale os rm ps fs) path = fs path"
  using assms(2)
proof (induction ps arbitrary: fs)
  case Nil
  then show ?case by simp
next
  case (Cons p ps)
  have "stale os fs p \<Longrightarrow> p \<noteq> path" using stale_alive [where fs = fs and path = path, OF assms(1) Cons.prems assms(3)] by auto
  then have keep: "stale os fs p \<Longrightarrow> (fs(p := None)) path = Some (lock_body r kind, age)" using Cons.prems by auto
  have 1: "snd (RemoveStale os rm ps fs) path = fs path" using Cons.IH Cons.prems by blast
  have 2: "stale os fs p \<Longrightarrow> snd (RemoveStale os rm ps (fs(p := None))) path = fs path"
    using Cons.IH [where fs = "fs(p := None)"] keep Cons.prems by metis
  show ?case using 1 2 by (auto split: option.splits prod.splits)
qed

text \<open>
  Cleaning up never takes a live holder's lock: while the process that wrote a lock file runs,
  neither \<open>clearStale\<close> nor \<open>RemoveStale\<close> nor \<open>ClearStaleName\<close>, seeing one file system, removes that
  file, whatever else they are asked to remove.
\<close>

theorem live_lock_not_cleared:
  assumes "wf_proc r" and "fs path = Some (lock_body r kind, age)" and "Alive os r"
  shows "snd (clearStale os path fs) path = fs path \<and> fst (clearStale os path fs) = False \<and>
    snd (RemoveStale os rm paths fs) path = fs path \<and>
    (\<forall>home sandbox. NamePath home sandbox = path \<longrightarrow>
       ClearStaleName os rm (Some home) sandbox fs = (None, fs))"
  using stale_alive [where fs = fs and path = path, OF assms] RemoveStale_alive [where fs = fs and path = path, OF assms] assms(2)
  by (auto simp: clearStale_def ClearStaleName_def Let_def)

theorem live_lock_not_cleared_witness:
  "let os = \<lparr>os_self = mk_proc 7 70, os_exists = (\<lambda>p. p = 9), os_StartOf = (\<lambda>p. Some 90)\<rparr>;
       fs = [''a'' \<mapsto> (lock_body (mk_proc 9 90) [], 0), ''b'' \<mapsto> (lock_body (mk_proc 9 80) [], 0)];
       fs' = snd (RemoveStale os (\<lambda>_. None) [''a'', ''b''] fs)
   in fs' ''a'' = fs ''a'' \<and> fs' ''b'' = None"
proof -
  let ?os = "\<lparr>os_self = mk_proc 7 70, os_exists = (\<lambda>p. p = 9), os_StartOf = (\<lambda>p. Some 90)\<rparr>"
  let ?fs = "[''a'' \<mapsto> (lock_body (mk_proc 9 90) [], 0), ''b'' \<mapsto> (lock_body (mk_proc 9 80) [], 0 :: int)]"
  have 1: "wf_proc (mk_proc 9 90)" by code_simp
  have 2: "?fs ''a'' = Some (lock_body (mk_proc 9 90) [], 0)" by simp
  have 3: "Alive ?os (mk_proc 9 90)" by code_simp
  have 4: "snd (RemoveStale ?os (\<lambda>_. None) [''a'', ''b''] ?fs) ''b'' = None" by code_simp
  show ?thesis unfolding Let_def using live_lock_not_cleared [where fs = ?fs and path = "''a''", OF 1 2 3] 4 by blast
qed

section \<open>Mutual exclusion\<close>

definition holder :: "lock_state \<Rightarrow> nat \<Rightarrow> bool" where
  "holder st c = (caller_alive st c \<and> (\<exists>n. lk_pc st c = Holding n))"

definition lock_init :: "lock_state \<Rightarrow> bool" where
  "lock_init st = (list_all wf_proc (lk_procs st) \<and> distinct (map PID (lk_procs st)) \<and> lk_dead st = [] \<and>
     lk_file st = None \<and> lk_pc st = (\<lambda>_. Want) \<and> lk_local st = (\<lambda>_. False) \<and> lk_usable st \<and> \<not> lk_slow st)"





text \<open>The fixed part of a state, and what a live caller with a file owns.\<close>

definition machine_ok :: "lock_state \<Rightarrow> bool" where
  "machine_ok st = (list_all wf_proc (lk_procs st) \<and> distinct (map PID (lk_procs st)) \<and> lk_usable st \<and> \<not> lk_slow st)"

definition owns :: "lock_state \<Rightarrow> nat \<Rightarrow> bool" where
  "owns st c = (case lk_pc st c of
      Created n \<Rightarrow> lk_file st = Some n \<and> lk_maker st n = c \<and> lk_body st n = []
    | Holding n \<Rightarrow> lk_file st = Some n \<and> lk_maker st n = c \<and> lk_body st n = body_of st c
    | Reading \<Rightarrow> False | Judging _ \<Rightarrow> False | Removing \<Rightarrow> False
    | _ \<Rightarrow> True)"


lemma goto_simps [simp]:
  "lk_pc (goto c l st) = (lk_pc st)(c := l)" "lk_procs (goto c l st) = lk_procs st"
  "lk_dead (goto c l st) = lk_dead st" "lk_proc (goto c l st) = lk_proc st" "lk_kind (goto c l st) = lk_kind st"
  "lk_local (goto c l st) = lk_local st" "lk_file (goto c l st) = lk_file st" "lk_body (goto c l st) = lk_body st"
  "lk_maker (goto c l st) = lk_maker st" "lk_next (goto c l st) = lk_next st"
  "lk_usable (goto c l st) = lk_usable st" "lk_slow (goto c l st) = lk_slow st"
  by (simp_all add: goto_def)

lemma alive_fields [simp]:
  "caller_alive (goto c l st) d = caller_alive st d" "body_of (goto c l st) d = body_of st d"
  "caller_alive (st\<lparr>lk_file := f\<rparr>) d = caller_alive st d" "body_of (st\<lparr>lk_file := f\<rparr>) d = body_of st d"
  "caller_alive (st\<lparr>lk_local := g\<rparr>) d = caller_alive st d" "body_of (st\<lparr>lk_local := g\<rparr>) d = body_of st d"
  "caller_alive (st\<lparr>lk_body := b\<rparr>) d = caller_alive st d" "body_of (st\<lparr>lk_body := b\<rparr>) d = body_of st d"
  "caller_alive (st\<lparr>lk_file := f, lk_body := b, lk_maker := m, lk_next := n\<rparr>) d = caller_alive st d"
  "body_of (st\<lparr>lk_file := f, lk_body := b, lk_maker := m, lk_next := n\<rparr>) d = body_of st d"
  by (simp_all add: goto_def caller_alive_def proc_alive_def body_of_def)

lemma machine_fields [simp]:
  "machine_ok (goto c l st) = machine_ok st" "machine_ok (st\<lparr>lk_file := f\<rparr>) = machine_ok st"
  "machine_ok (st\<lparr>lk_local := g\<rparr>) = machine_ok st" "machine_ok (st\<lparr>lk_body := b\<rparr>) = machine_ok st"
  "machine_ok (st\<lparr>lk_file := f, lk_body := b, lk_maker := m, lk_next := n\<rparr>) = machine_ok st"
  "machine_ok (st\<lparr>lk_dead := q\<rparr>) = machine_ok st"
  by (simp_all add: goto_def machine_ok_def)




lemma owns_local [simp]: "owns (st\<lparr>lk_local := g\<rparr>) c = owns st c"
  by (simp add: owns_def split: pc.splits)


















lemma run_reach: "run s st = Some st' \<Longrightarrow> reach ini lock_step st \<Longrightarrow> reach ini lock_step st'"
  by (induction s st rule: run.induct)
    (auto split: if_splits option.splits intro: reach_step lock_step.acts)

definition demo_machine :: lock_state where
  "demo_machine = \<lparr>lk_procs = [mk_proc 11 100, mk_proc 12 200, mk_proc 13 300], lk_dead = [], lk_proc = id,
     lk_kind = (\<lambda>_. []), lk_local = (\<lambda>_. False), lk_file = None, lk_body = (\<lambda>_. []), lk_maker = (\<lambda>_. 0),
     lk_next = 0, lk_pc = (\<lambda>_. Want), lk_usable = True, lk_slow = False\<rparr>"

text \<open>
  The schedule: process 1 takes the lock; process 0 finds it and reads the file; process 1 releases;
  process 0 reads the record, finds no file, and calls the lock stale because the body it has is not
  empty; process 2 takes the lock; process 0 removes it and takes the lock as well.
\<close>

definition race :: "(action \<times> nat) list" where
  "race = [(A_local, 1), (A_open, 1), (A_write, 1), (A_local, 0), (A_open, 0), (A_stat, 0), (A_read, 0),
     (A_release, 1), (A_judge, 0), (A_local, 2), (A_open, 2), (A_write, 2),
     (A_remove, 0), (A_open, 0), (A_write, 0)]"

text \<open>
  With its file operations interleaved the lock does not exclude, even if no process ever dies:
  \<open>stale\<close> reads the file twice, and a lock that is released between the two reads is judged to be
  rubbish and the next holder's file is removed. Two processes hold the lock at once.
\<close>

theorem interleaved_lock_race:
  "\<exists>st. reach lock_init lock_step st \<and> lk_dead st = [] \<and> holder st 0 \<and> holder st 2"
proof -
  have i: "lock_init demo_machine"
    unfolding lock_init_def by (simp add: demo_machine_def wf_proc_def mk_proc_def int_in_range_def)
  have r: "case run race demo_machine of Some st \<Rightarrow> lk_dead st = [] \<and> lk_pc st 0 = Holding 2 \<and>
      lk_pc st 2 = Holding 1 \<and> caller_alive st 0 \<and> caller_alive st 2 | None \<Rightarrow> False"
    by code_simp
  then obtain st where st: "run race demo_machine = Some st" by (cases "run race demo_machine") auto
  from run_reach [OF st, of lock_init] i have "reach lock_init lock_step st" by (auto intro: reach_init)
  with r st show ?thesis by (auto simp: holder_def)
qed


end
