(* ===== verification/Ws_Frame.thy ===== *)
theory Ws_Frame
  imports Go_Strings "HOL-Library.Word"
begin

unbundle bit_operations_syntax

text \<open>
  WebSocket connections: the server half \<^verbatim>\<open>internal/wsserver/wsserver.go\<close> and the client half
  \<^verbatim>\<open>internal/wsclient/wsclient.go\<close>. A connection is the bytes still to arrive, the bytes written and
  its flags; deadlines are left out. Random mask keys are drawn from a supply. Both packages have
  the same loop in \<open>ReadMessage\<close>, written once here over the functions in which they differ. Its
  fuel is one more than the number of bytes to arrive, since every frame takes at least two.
\<close>

section \<open>Bytes\<close>

type_synonym byte = "8 word"
type_synonym bytes = "byte list"

text \<open>\<open>binary.BigEndian\<close>: \<open>k\<close> bytes of a number, and the number of some bytes.\<close>

fun be :: "nat \<Rightarrow> int \<Rightarrow> bytes" where
  "be 0 n = []"
| "be (Suc k) n = be k (n div 256) @ [of_int n]"

definition un_be :: "bytes \<Rightarrow> int" where
  "un_be bs = fold (\<lambda>b n. n * 256 + uint b) bs 0"

definition of_string :: "string \<Rightarrow> bytes" where
  "of_string s = map (\<lambda>c. of_char c) s"

text \<open>\<open>utf8.Valid\<close>: the length of the first character, if it is well formed.\<close>

definition utf8_cont :: "byte \<Rightarrow> byte \<Rightarrow> bytes \<Rightarrow> nat \<Rightarrow> bool" where
  "utf8_cont lo hi bs n = (n < length bs \<and> lo \<le> bs ! 1 \<and> bs ! 1 \<le> hi \<and>
     list_all (\<lambda>b. 0x80 \<le> b \<and> b \<le> 0xBF) (take (n - 1) (drop 2 bs)))"

definition utf8_first :: "bytes \<Rightarrow> nat option" where
  "utf8_first bs = (let b = hd bs in
     if b < 0x80 then Some 1
     else if 0xC2 \<le> b \<and> b \<le> 0xDF then (if utf8_cont 0x80 0xBF bs 1 then Some 2 else None)
     else if b = 0xE0 then (if utf8_cont 0xA0 0xBF bs 2 then Some 3 else None)
     else if b = 0xED then (if utf8_cont 0x80 0x9F bs 2 then Some 3 else None)
     else if 0xE1 \<le> b \<and> b \<le> 0xEF then (if utf8_cont 0x80 0xBF bs 2 then Some 3 else None)
     else if b = 0xF0 then (if utf8_cont 0x90 0xBF bs 3 then Some 4 else None)
     else if 0xF1 \<le> b \<and> b \<le> 0xF3 then (if utf8_cont 0x80 0xBF bs 3 then Some 4 else None)
     else if b = 0xF4 then (if utf8_cont 0x80 0x8F bs 3 then Some 4 else None)
     else None)"

lemma utf8_first_pos: "utf8_first bs = Some n \<Longrightarrow> 0 < n"
  by (auto simp: utf8_first_def Let_def split: if_splits)

function utf8_valid :: "bytes \<Rightarrow> bool" where
  "utf8_valid bs = (if bs = [] then True
     else (case utf8_first bs of None \<Rightarrow> False | Some n \<Rightarrow> utf8_valid (drop n bs)))"
  by pat_completeness auto
termination by (relation "measure length") (auto dest: utf8_first_pos)

declare utf8_valid.simps [simp del]

section \<open>Constants and connections\<close>

definition opContinuation :: byte where "opContinuation = 0x0"
definition opText :: byte where "opText = 0x1"
definition opBinary :: byte where "opBinary = 0x2"
definition opClose :: byte where "opClose = 0x8"
definition opPing :: byte where "opPing = 0x9"
definition opPong :: byte where "opPong = 0xA"

lemmas op_defs = opContinuation_def opText_def opBinary_def opClose_def opPing_def opPong_def

definition CloseNormal :: int where "CloseNormal = 1000"
definition CloseProtocolError :: int where "CloseProtocolError = 1002"
definition CloseInvalidData :: int where "CloseInvalidData = 1007"
definition CloseTooBig :: int where "CloseTooBig = 1009"
definition closeNoStatus :: int where "closeNoStatus = 1005"

definition srv_DefaultMaxMessage :: int where "srv_DefaultMaxMessage = 4 * 1048576"
definition cli_DefaultMaxMessage :: int where "cli_DefaultMaxMessage = 64 * 1048576"

text \<open>\<open>ws_closed\<close> is the field \<open>closed\<close>; \<open>ws_shut\<close> says that the socket was closed here, after which
  a write fails; \<open>ws_pongs\<close> counts the pongs recorded; \<open>ws_rand\<close> and \<open>ws_drawn\<close> are the key supply.\<close>

record conn =
  ws_in :: bytes
  ws_out :: bytes
  ws_closed :: bool
  ws_shut :: bool
  ws_max :: int
  ws_pongs :: nat
  ws_rand :: "nat \<Rightarrow> bytes"
  ws_drawn :: nat

datatype ws_error =
    Eof
  | Ws_fail int string
  | CloseError int bytes
  | ErrClosed
  | Write_failed
  | Bad_type byte
  | Ping_too_big

section \<open>Writing\<close>

definition header :: "byte \<Rightarrow> byte \<Rightarrow> int \<Rightarrow> bytes" where
  "header op m n = (0x80 OR op) # (if n < 126 then [m OR of_int n]
     else if n < 65536 then (m OR 126) # be 2 n
     else (m OR 127) # be 8 n)"

definition srv_frame :: "byte \<Rightarrow> bytes \<Rightarrow> bytes" where
  "srv_frame op payload = header op 0 (int (length payload)) @ payload"

definition xor_mask :: "bytes \<Rightarrow> bytes \<Rightarrow> bytes" where
  "xor_mask key payload = map (\<lambda>(i, b). b XOR key ! (i mod 4)) (enumerate 0 payload)"

definition cli_frame :: "bytes \<Rightarrow> byte \<Rightarrow> bytes \<Rightarrow> bytes" where
  "cli_frame key op payload = header op 0x80 (int (length payload)) @ key @ xor_mask key payload"

definition closePayload :: "int \<Rightarrow> string \<Rightarrow> bytes" where
  "closePayload code reason = be 2 code @ of_string (take 123 reason)"

text \<open>The common part of both writers: nothing after a close frame, then the bytes.\<close>

definition send :: "byte \<Rightarrow> bytes \<Rightarrow> conn \<Rightarrow> ws_error option \<times> conn" where
  "send op b c = (let c1 = c\<lparr>ws_closed := op = opClose\<rparr> in
     if ws_shut c then (Some Write_failed, c1) else (None, c1\<lparr>ws_out := ws_out c @ b\<rparr>))"

definition srv_write :: "byte \<Rightarrow> bytes \<Rightarrow> conn \<Rightarrow> ws_error option \<times> conn" where
  "srv_write op payload c = (if ws_closed c then (Some ErrClosed, c) else send op (srv_frame op payload) c)"

definition cli_writeFrame :: "byte \<Rightarrow> bytes \<Rightarrow> conn \<Rightarrow> ws_error option \<times> conn" where
  "cli_writeFrame op payload c = (if ws_closed c then (Some ErrClosed, c)
     else send op (cli_frame (ws_rand c (ws_drawn c)) op payload) (c\<lparr>ws_drawn := ws_drawn c + 1\<rparr>))"

definition shut :: "conn \<Rightarrow> conn" where "shut c = c\<lparr>ws_shut := True\<rparr>"

definition srv_fail :: "int \<Rightarrow> string \<Rightarrow> conn \<Rightarrow> ws_error \<times> conn" where
  "srv_fail code reason c = (Ws_fail code reason, shut (snd (srv_write opClose (closePayload code reason) c)))"

definition cli_fail :: "int \<Rightarrow> string \<Rightarrow> conn \<Rightarrow> ws_error \<times> conn" where
  "cli_fail code reason c = (Ws_fail code reason, shut (snd (cli_writeFrame opClose (closePayload code reason) c)))"

definition srv_WriteMessage :: "byte \<Rightarrow> bytes \<Rightarrow> conn \<Rightarrow> ws_error option \<times> conn" where
  "srv_WriteMessage t payload c = (if t \<noteq> opText \<and> t \<noteq> opBinary then (Some (Bad_type t), c) else srv_write t payload c)"

definition cli_WriteMessage :: "byte \<Rightarrow> bytes \<Rightarrow> conn \<Rightarrow> ws_error option \<times> conn" where
  "cli_WriteMessage t payload c = (if t \<noteq> opText \<and> t \<noteq> opBinary then (Some (Bad_type t), c) else cli_writeFrame t payload c)"

definition cli_WriteText :: "bytes \<Rightarrow> conn \<Rightarrow> ws_error option \<times> conn" where
  "cli_WriteText payload c = cli_WriteMessage opText payload c"

definition srv_Ping :: "conn \<Rightarrow> ws_error option \<times> conn" where "srv_Ping c = srv_write opPing [] c"

definition cli_Ping :: "bytes \<Rightarrow> conn \<Rightarrow> ws_error option \<times> conn" where
  "cli_Ping payload c = (if length payload > 125 then (Some Ping_too_big, c) else cli_writeFrame opPing payload c)"

definition CloseWith :: "int \<Rightarrow> string \<Rightarrow> conn \<Rightarrow> ws_error option \<times> conn" where
  "CloseWith code reason c = (let (e, c') = srv_write opClose (closePayload code reason) c in (e, shut c'))"

text \<open>\<open>CloseNow\<close>: \<open>locked\<close> says whether the write lock came free in time.\<close>

definition CloseNow :: "bool \<Rightarrow> int \<Rightarrow> string \<Rightarrow> conn \<Rightarrow> conn" where
  "CloseNow locked code reason c = shut (if locked \<and> \<not> ws_closed c
     then snd (send opClose (srv_frame opClose (closePayload code reason)) c) else c)"

definition cli_Close :: "conn \<Rightarrow> ws_error option \<times> conn" where
  "cli_Close c = (let (e, c') = cli_writeFrame opClose (closePayload CloseNormal []) c in
     (if e = Some ErrClosed then None else e, shut c'))"

section \<open>Reading a frame\<close>

definition ReadFull :: "nat \<Rightarrow> conn \<Rightarrow> (bytes \<times> conn) option" where
  "ReadFull n c = (if length (ws_in c) < n then None
     else Some (take n (ws_in c), c\<lparr>ws_in := drop n (ws_in c)\<rparr>))"

type_synonym frame_read = "(ws_error, bool \<times> byte \<times> bytes) res \<times> conn"

definition read_length :: "byte \<Rightarrow> conn \<Rightarrow> (int \<times> conn) option" where
  "read_length h c = (let n = uint (h AND 0x7f) in
     if n = 126 then map_option (\<lambda>(b, c'). (un_be b, c')) (ReadFull 2 c)
     else if n = 127 then map_option (\<lambda>(b, c'). (un_be b, c')) (ReadFull 8 c)
     else Some (n, c))"

definition failed :: "ws_error \<times> conn \<Rightarrow> frame_read" where
  "failed ec = (Inl (fst ec), snd ec)"

text \<open>The checks of both \<open>readFrame\<close> functions up to the payload: \<open>masked\<close> is what the mask bit must
  be, \<open>why\<close> what is said when it is not.\<close>

definition read_header :: "(int \<Rightarrow> string \<Rightarrow> conn \<Rightarrow> ws_error \<times> conn) \<Rightarrow> bool \<Rightarrow> string \<Rightarrow> conn
    \<Rightarrow> (ws_error, bool \<times> byte \<times> nat) res \<times> conn" where
  "read_header fl masked why c = (case ReadFull 2 c of None \<Rightarrow> (Inl Eof, c)
     | Some (head, c1) \<Rightarrow>
         (let fin = head ! 0 AND 0x80 \<noteq> 0; op = head ! 0 AND 0x0f; bad = (\<lambda>code reason ct. (let (e, c') = fl code reason ct in (Inl e, c'))) in
          if head ! 0 AND 0x70 \<noteq> 0 then bad CloseProtocolError ''reserved bits set with no extension negotiated'' c1
          else if (head ! 1 AND 0x80 \<noteq> 0) \<noteq> masked then bad CloseProtocolError why c1
          else (case read_length (head ! 1) c1 of None \<Rightarrow> (Inl Eof, c1)
            | Some (n, c2) \<Rightarrow>
                if op \<ge> opClose \<and> (\<not> fin \<or> n > 125) then bad CloseProtocolError ''control frame fragmented or over 125 bytes'' c2
                else if n > ws_max c then bad CloseTooBig (''frame declares '' @ Itoa n @ '' bytes, over the '' @ Itoa (ws_max c) @ '' limit'') c2
                else (Inr (fin, op, nat n), c2))))"

definition srv_readFrame :: "conn \<Rightarrow> frame_read" where
  "srv_readFrame c = (case read_header srv_fail True ''client frame is not masked'' c of
      (Inl e, c1) \<Rightarrow> (Inl e, c1)
    | (Inr (fin, op, n), c1) \<Rightarrow> (case ReadFull 4 c1 of None \<Rightarrow> (Inl Eof, c1)
        | Some (key, c2) \<Rightarrow> (case ReadFull n c2 of None \<Rightarrow> (Inl Eof, c2)
            | Some (payload, c3) \<Rightarrow> (Inr (fin, op, xor_mask key payload), c3))))"

definition cli_readFrame :: "conn \<Rightarrow> frame_read" where
  "cli_readFrame c = (case read_header cli_fail False ''server frame is masked'' c of
      (Inl e, c1) \<Rightarrow> (Inl e, c1)
    | (Inr (fin, op, n), c1) \<Rightarrow> (case ReadFull n c1 of None \<Rightarrow> (Inl Eof, c1)
        | Some (payload, c2) \<Rightarrow> (Inr (fin, op, payload), c2)))"

section \<open>Reading a message\<close>

definition close_of :: "bytes \<Rightarrow> ws_error" where
  "close_of payload = (if length payload \<ge> 2 then CloseError (un_be (take 2 payload)) (drop 2 payload)
     else CloseError closeNoStatus [])"

definition srv_onClose :: "bytes \<Rightarrow> conn \<Rightarrow> ws_error \<times> conn" where
  "srv_onClose payload c = (close_of payload, shut (snd (srv_write opClose (take 2 payload) c)))"

definition cli_onClose :: "bytes \<Rightarrow> conn \<Rightarrow> ws_error \<times> conn" where
  "cli_onClose payload c = (if length payload = 1
     then (CloseError closeNoStatus [], snd (cli_fail CloseProtocolError ''close frame with a one-byte payload'' c))
     else (close_of payload, shut (snd (cli_writeFrame opClose (take 2 payload) c))))"

text \<open>What the two packages plug into the loop.\<close>

record half =
  h_read :: "conn \<Rightarrow> frame_read"
  h_write :: "byte \<Rightarrow> bytes \<Rightarrow> conn \<Rightarrow> ws_error option \<times> conn"
  h_pong :: "conn \<Rightarrow> conn"
  h_onClose :: "bytes \<Rightarrow> conn \<Rightarrow> ws_error \<times> conn"
  h_fail :: "int \<Rightarrow> string \<Rightarrow> conn \<Rightarrow> ws_error \<times> conn"

definition server :: half where
  "server = \<lparr>h_read = srv_readFrame, h_write = srv_write, h_pong = (\<lambda>c. c\<lparr>ws_pongs := ws_pongs c + 1\<rparr>),
     h_onClose = srv_onClose, h_fail = srv_fail\<rparr>"

definition client :: half where
  "client = \<lparr>h_read = cli_readFrame, h_write = cli_writeFrame, h_pong = (\<lambda>c. c),
     h_onClose = cli_onClose, h_fail = cli_fail\<rparr>"

type_synonym message_read = "(ws_error, byte \<times> bytes) res \<times> conn"

definition hex_op :: "byte \<Rightarrow> string" where
  "hex_op op = ''0x'' @ [if op < 10 then char_of (48 + uint op) else char_of (87 + uint op)]"

text \<open>The data part of one round: \<open>msg\<close> is the message being assembled, with its type.\<close>

definition data_frame :: "half \<Rightarrow> (byte \<times> bytes) option \<Rightarrow> bool \<times> byte \<times> bytes \<Rightarrow> conn
    \<Rightarrow> (ws_error, (byte \<times> bytes) \<times> bool) res \<times> conn" where
  "data_frame h msg fr c = (case fr of (fin, op, payload) \<Rightarrow>
     (let bad = (\<lambda>code reason. (let (e, c') = h_fail h code reason c in (Inl e, c'))) in
      if (op = opText \<or> op = opBinary) \<and> msg \<noteq> None then bad CloseProtocolError ''data frame inside a fragmented message''
      else if op = opContinuation \<and> msg = None then bad CloseProtocolError ''continuation frame with no message to continue''
      else if op \<noteq> opText \<and> op \<noteq> opBinary \<and> op \<noteq> opContinuation then bad CloseProtocolError (''unknown opcode '' @ hex_op op)
      else (let (t, assembled) = (case msg of None \<Rightarrow> (op, []) | Some m \<Rightarrow> m) in
        if int (length assembled) + int (length payload) > ws_max c
          then bad CloseTooBig (''message over the '' @ Itoa (ws_max c) @ '' byte limit'')
        else if fin \<and> t = opText \<and> \<not> utf8_valid (assembled @ payload)
          then bad CloseInvalidData ''text message is not valid UTF-8''
        else (Inr ((t, assembled @ payload), fin), c))))"

fun read_loop :: "half \<Rightarrow> nat \<Rightarrow> (byte \<times> bytes) option \<Rightarrow> conn \<Rightarrow> message_read option" where
  "read_loop h 0 msg c = None"
| "read_loop h (Suc fuel) msg c = (case h_read h c of
      (Inl e, c1) \<Rightarrow> Some (Inl e, c1)
    | (Inr (fin, op, payload), c1) \<Rightarrow>
        if op = opPing then (case h_write h opPong payload c1 of
            (None, c2) \<Rightarrow> read_loop h fuel msg c2
          | (Some e, c2) \<Rightarrow> if e = ErrClosed then read_loop h fuel msg c2 else Some (Inl e, c2))
        else if op = opPong then read_loop h fuel msg (h_pong h c1)
        else if op = opClose then (let (e, c2) = h_onClose h payload c1 in Some (Inl e, c2))
        else (case data_frame h msg (fin, op, payload) c1 of
            (Inl e, c2) \<Rightarrow> Some (Inl e, c2)
          | (Inr (m, fin), c2) \<Rightarrow> if fin then Some (Inr m, c2) else read_loop h fuel (Some m) c2))"

definition srv_ReadMessage :: "conn \<Rightarrow> message_read option" where
  "srv_ReadMessage c = read_loop server (length (ws_in c) + 1) None c"

definition cli_ReadMessage :: "conn \<Rightarrow> message_read option" where
  "cli_ReadMessage c = read_loop client (length (ws_in c) + 1) None c"

section \<open>Facts on bytes\<close>

lemma length_be [simp]: "length (be k n) = k"
  by (induction k arbitrary: n) auto

lemma un_be_snoc: "un_be (bs @ [b]) = un_be bs * 256 + uint b"
  by (simp add: un_be_def)

lemma uint_of_int8: "uint (of_int n :: byte) = n mod 256"
  by (simp add: unsigned_of_int take_bit_int_def)

lemma int_div_lt: "(n::int) < 256 * m \<Longrightarrow> n div 256 < m"
  by presburger

lemma un_be_be: "0 \<le> n \<Longrightarrow> n < 256 ^ k \<Longrightarrow> un_be (be k n) = n"
proof (induction k arbitrary: n)
  case 0
  then show ?case by (simp add: un_be_def)
next
  case (Suc k)
  have "n div 256 < 256 ^ k" using Suc.prems by (intro int_div_lt) simp
  with Suc have "un_be (be k (n div 256)) = n div 256" by (simp add: pos_imp_zdiv_nonneg_iff)
  then show ?case by (simp add: un_be_snoc uint_of_int8)
qed

lemma length_xor_mask [simp]: "length (xor_mask key bs) = length bs"
  by (simp add: xor_mask_def)

lemma xor_mask_xor_mask [simp]: "xor_mask key (xor_mask key bs) = bs"
  by (rule nth_equalityI) (simp_all add: xor_mask_def nth_enumerate_eq xor.assoc)

text \<open>The bits of the two header bytes.\<close>

lemma length_bits:
  assumes "0 \<le> n" "n < 128"
  shows "uint (((0::byte) OR of_int n) AND 0x7f) = n" "uint (((0x80::byte) OR of_int n) AND 0x7f) = n"
    "((0::byte) OR of_int n) AND 0x80 = 0" "((0x80::byte) OR of_int n) AND 0x80 \<noteq> 0"
proof -
  have "\<forall>n \<in> set [0..127]. uint (((0::byte) OR of_int n) AND 0x7f) = n \<and> uint (((0x80::byte) OR of_int n) AND 0x7f) = n \<and>
    ((0::byte) OR of_int n) AND 0x80 = 0 \<and> ((0x80::byte) OR of_int n) AND 0x80 \<noteq> 0" by code_simp
  moreover have "n \<in> set [0..127]" using assms by simp
  ultimately show "uint (((0::byte) OR of_int n) AND 0x7f) = n" "uint (((0x80::byte) OR of_int n) AND 0x7f) = n"
    "((0::byte) OR of_int n) AND 0x80 = 0" "((0x80::byte) OR of_int n) AND 0x80 \<noteq> 0" by blast+
qed

lemma op_bits:
  assumes "op < 16"
  shows "((0x80::byte) OR op) AND 0x80 \<noteq> 0" "((0x80::byte) OR op) AND 0x0f = op" "((0x80::byte) OR op) AND 0x70 = 0"
proof -
  have "\<forall>n \<in> set [0..15]. ((0x80::byte) OR of_int n) AND 0x80 \<noteq> 0 \<and> ((0x80::byte) OR of_int n) AND 0x0f = of_int n \<and>
      ((0x80::byte) OR of_int n) AND 0x70 = 0" by code_simp
  moreover have "uint op \<in> set [0..15]"
    using assms by (simp add: word_less_def) 
  ultimately have "((0x80::byte) OR of_int (uint op)) AND 0x80 \<noteq> 0 \<and> ((0x80::byte) OR of_int (uint op)) AND 0x0f = of_int (uint op) \<and>
      ((0x80::byte) OR of_int (uint op)) AND 0x70 = 0" by blast
  then show "((0x80::byte) OR op) AND 0x80 \<noteq> 0" "((0x80::byte) OR op) AND 0x0f = op" "((0x80::byte) OR op) AND 0x70 = 0"
    by simp_all
qed

section \<open>Frames on the wire\<close>

text \<open>A frame as a peer may send it, final or not: \<open>m\<close> is the mask bit.\<close>

definition wire :: "bool \<Rightarrow> byte \<Rightarrow> byte \<Rightarrow> int \<Rightarrow> bytes" where
  "wire fin op m n = (if fin then 0x80 OR op else op) # tl (header op m n)"

definition srv_wire :: "bytes \<Rightarrow> bool \<Rightarrow> byte \<Rightarrow> bytes \<Rightarrow> bytes" where
  "srv_wire _ fin op p = wire fin op 0 (int (length p)) @ p"

definition cli_wire :: "bytes \<Rightarrow> bool \<Rightarrow> byte \<Rightarrow> bytes \<Rightarrow> bytes" where
  "cli_wire key fin op p = wire fin op 0x80 (int (length p)) @ key @ xor_mask key p"

lemma frame_wire: "srv_frame op p = srv_wire k True op p" "cli_frame key op p = cli_wire key True op p"
  by (simp_all add: srv_frame_def cli_frame_def srv_wire_def cli_wire_def wire_def header_def)

lemma op_low:
  assumes "op < 16"
  shows "op AND 0x80 = (0::byte)" "op AND 0x0f = (op::byte)" "op AND 0x70 = (0::byte)"
proof -
  have "\<forall>n \<in> set [0..15]. (of_int n :: byte) AND 0x80 = 0 \<and> (of_int n :: byte) AND 0x0f = of_int n \<and>
      (of_int n :: byte) AND 0x70 = 0" by code_simp
  moreover have "uint op \<in> set [0..15]" using assms by (simp add: word_less_def)
  ultimately have "(of_int (uint op) :: byte) AND 0x80 = 0 \<and> (of_int (uint op) :: byte) AND 0x0f = of_int (uint op) \<and>
      (of_int (uint op) :: byte) AND 0x70 = 0" by blast
  then show "op AND 0x80 = (0::byte)" "op AND 0x0f = (op::byte)" "op AND 0x70 = (0::byte)" by simp_all
qed

lemma ReadFull_append: "length a = n \<Longrightarrow> ws_in c = a @ rest \<Longrightarrow> ReadFull n c = Some (a, c\<lparr>ws_in := rest\<rparr>)"
  by (simp add: ReadFull_def)

lemma read_length_wire:
  assumes "0 \<le> n" "n < 256 ^ 8" "m = 0 \<or> m = 0x80"
  obtains h ext where "tl (header op m n) = h # ext" "h AND 0x80 \<noteq> 0 \<longleftrightarrow> m \<noteq> 0"
    "\<And>c rest. ws_in c = ext @ rest \<Longrightarrow> read_length h c = Some (n, c\<lparr>ws_in := rest\<rparr>)"
proof -
  consider "n < 126" | "126 \<le> n" "n < 65536" | "65536 \<le> n" by linarith
  then show thesis
  proof cases
    case 1
    show thesis
    proof (rule that [of "m OR of_int n" "[]"])
      show "tl (header op m n) = [m OR of_int n]" using 1 by (simp add: header_def)
      show "(m OR of_int n) AND 0x80 \<noteq> 0 \<longleftrightarrow> m \<noteq> 0" using assms 1 length_bits [of n] by auto
      show "read_length (m OR of_int n) c = Some (n, c\<lparr>ws_in := rest\<rparr>)" if "ws_in c = [] @ rest" for c rest
        using assms 1 length_bits [of n] that by (auto simp: read_length_def Let_def)
    qed
  next
    case 2
    show thesis
    proof (rule that [of "m OR 126" "be 2 n"])
      show "tl (header op m n) = (m OR 126) # be 2 n" using 2 by (simp add: header_def)
      show "(m OR 126) AND 0x80 \<noteq> 0 \<longleftrightarrow> m \<noteq> 0" using assms length_bits [of 126] by auto
      have u: "uint ((m OR 126) AND 0x7f) = 126" using assms length_bits [of 126] by auto
      have v: "un_be (be 2 n) = n" using assms 2 by (intro un_be_be) auto
      show "read_length (m OR 126) c = Some (n, c\<lparr>ws_in := rest\<rparr>)" if "ws_in c = be 2 n @ rest" for c rest
        using ReadFull_append [OF _ that, of 2] by (simp add: read_length_def Let_def u v)
    qed
  next
    case 3
    show thesis
    proof (rule that [of "m OR 127" "be 8 n"])
      show "tl (header op m n) = (m OR 127) # be 8 n" using 3 by (simp add: header_def)
      show "(m OR 127) AND 0x80 \<noteq> 0 \<longleftrightarrow> m \<noteq> 0" using assms length_bits [of 127] by auto
      have u: "uint ((m OR 127) AND 0x7f) = 127" using assms length_bits [of 127] by auto
      have v: "un_be (be 8 n) = n" using assms by (intro un_be_be) auto
      show "read_length (m OR 127) c = Some (n, c\<lparr>ws_in := rest\<rparr>)" if "ws_in c = be 8 n @ rest" for c rest
        using ReadFull_append [OF _ that, of 8] by (simp add: read_length_def Let_def u v)
    qed
  qed
qed

lemma read_header_wire:
  assumes op: "op < 16" and n: "0 \<le> n" "n < 256 ^ 8" "n \<le> ws_max c" and ctl: "opClose \<le> op \<longrightarrow> fin \<and> n \<le> 125"
    and c: "ws_in c = wire fin op (if masked then 0x80 else 0) n @ rest"
  shows "read_header fl masked why c = (Inr (fin, op, nat n), c\<lparr>ws_in := rest\<rparr>)"
proof -
  let ?m = "if masked then 0x80 else (0::byte)" and ?b = "if fin then 0x80 OR op else op"
  obtain h ext where h: "tl (header op ?m n) = h # ext" "h AND 0x80 \<noteq> 0 \<longleftrightarrow> ?m \<noteq> 0"
    "\<And>c rest. ws_in c = ext @ rest \<Longrightarrow> read_length h c = Some (n, c\<lparr>ws_in := rest\<rparr>)"
  proof (rule read_length_wire [OF n(1,2), of ?m op])
    show "?m = 0 \<or> ?m = 0x80" by simp
  qed blast
  have bits: "(?b AND 0x80 \<noteq> 0) = fin" "?b AND 0x0f = op" "?b AND 0x70 = 0"
    using op_bits [OF op] op_low [OF op] by (cases fin; simp)+
  have "ReadFull 2 c = Some ([?b, h], c\<lparr>ws_in := ext @ rest\<rparr>)"
    using c h(1) by (simp add: ReadFull_def wire_def)
  moreover have "read_length h (c\<lparr>ws_in := ext @ rest\<rparr>) = Some (n, c\<lparr>ws_in := rest\<rparr>)"
    using h(3) [of "c\<lparr>ws_in := ext @ rest\<rparr>" rest] by simp
  moreover have "(h AND 0x80 \<noteq> 0) = masked" using h(2) by (cases masked) simp_all
  ultimately show ?thesis using ctl n(3)
    by (auto simp: read_header_def Let_def bits)
qed

section \<open>The contract of a half\<close>

text \<open>
  What the loop relies on: \<open>h_read\<close> reads back a frame in the peer's encoding \<open>enc\<close> and otherwise
  gets nearer to the end of the input; writing a reply leaves the input alone. \<open>good\<close> are the mask
  keys.
\<close>

definition is_control :: "byte \<Rightarrow> bool" where "is_control op = (opClose \<le> op)"

lemma op_facts [simp]:
  "\<not> is_control opText" "\<not> is_control opBinary" "\<not> is_control opContinuation"
  "opText < 16" "opBinary < 16" "opContinuation < 16" "opPing < 16" "opPong < 16" "opClose < 16"
  by code_simp+

lemma op_distinct [simp]:
  "opText \<noteq> opPing" "opText \<noteq> opPong" "opText \<noteq> opClose" "opBinary \<noteq> opPing" "opBinary \<noteq> opPong"
  "opBinary \<noteq> opClose" "opContinuation \<noteq> opPing" "opContinuation \<noteq> opPong" "opContinuation \<noteq> opClose"
  by code_simp+

text \<open>What is delivered: a data message within the limit, and text only if it is UTF-8.\<close>

definition sound :: "int \<Rightarrow> byte \<times> bytes \<Rightarrow> bool" where
  "sound n m = (fst m \<in> {opText, opBinary} \<and> int (length (snd m)) \<le> n)"

text \<open>A message as a peer may send it: fragments, each after some pings and pongs.\<close>

type_synonym fragment = "(bool \<times> bytes) list \<times> bytes"

definition ctl_op :: "bool \<Rightarrow> byte" where "ctl_op ping = (if ping then opPing else opPong)"

fun wire_msg :: "(bool \<Rightarrow> byte \<Rightarrow> bytes \<Rightarrow> bytes) \<Rightarrow> byte \<Rightarrow> fragment list \<Rightarrow> bytes" where
  "wire_msg e t [] = []"
| "wire_msg e t (([], p) # fs) = e (fs = []) t p @ wire_msg e opContinuation fs"
| "wire_msg e t (((ping, q) # cs, p) # fs) = e True (ctl_op ping) q @ wire_msg e t ((cs, p) # fs)"

definition frames :: "fragment list \<Rightarrow> nat" where
  "frames fs = (\<Sum>f \<leftarrow> fs. length (fst f) + 1)"

definition text_of :: "fragment list \<Rightarrow> bytes" where
  "text_of fs = concat (map snd fs)"

definition small_controls :: "fragment list \<Rightarrow> bool" where
  "small_controls fs = list_all (\<lambda>f. list_all (\<lambda>q. length (snd q) \<le> 125) (fst f)) fs"

locale ws_half =
  fixes h :: half and enc :: "bytes \<Rightarrow> bool \<Rightarrow> byte \<Rightarrow> bytes \<Rightarrow> bytes" and good :: "bytes \<Rightarrow> bool"
  assumes read_enc: "good k \<Longrightarrow> op < 16 \<Longrightarrow> int (length p) \<le> ws_max c \<Longrightarrow> int (length p) < 256 ^ 8 \<Longrightarrow>
      (is_control op \<Longrightarrow> fin \<and> length p \<le> 125) \<Longrightarrow> ws_in c = enc k fin op p @ rest \<Longrightarrow>
      h_read h c = (Inr (fin, op, p), c\<lparr>ws_in := rest\<rparr>)"
    and read_shrinks: "h_read h c = (Inr f, c') \<Longrightarrow> length (ws_in c') < length (ws_in c) \<and> ws_max c' = ws_max c"
    and write_in: "ws_in (snd (h_write h op p c)) = ws_in c \<and> ws_max (snd (h_write h op p c)) = ws_max c"
    and write_open: "\<not> ws_shut c \<Longrightarrow> fst (h_write h op p c) \<in> {None, Some ErrClosed} \<and> \<not> ws_shut (snd (h_write h op p c))"
    and pong_keeps: "ws_in (h_pong h c) = ws_in c \<and> ws_max (h_pong h c) = ws_max c \<and> ws_shut (h_pong h c) = ws_shut c"
begin

lemma loop_returns: "length (ws_in c) < fuel \<Longrightarrow> read_loop h fuel msg c \<noteq> None"
proof (induction fuel arbitrary: msg c)
  case 0
  then show ?case by simp
next
  case (Suc fuel)
  show ?case
  proof (cases "h_read h c")
    case (Pair r c1)
    show ?thesis
    proof (cases r)
      case (Inl e)
      with Pair show ?thesis by simp
    next
      case (Inr f)
      obtain fin op p where f: "f = (fin, op, p)" by (cases f)
      have c1: "length (ws_in c1) < fuel" using read_shrinks Pair Inr Suc.prems by fastforce
      have w: "length (ws_in (snd (h_write h opPong p c1))) < fuel" using c1 write_in by simp
      have d: "data_frame h msg (fin, op, p) c1 = (Inr x, c2) \<Longrightarrow> c2 = c1" for x c2
        by (auto simp: data_frame_def Let_def split: if_splits prod.splits)
      show ?thesis
        using Pair Inr f c1 w Suc.IH d pong_keeps
        by (auto simp: Let_def split: option.splits prod.splits sum.splits if_splits)
    qed
  qed
qed

lemma data_frame_sound:
  assumes "data_frame h msg fr c = (Inr (m, fin), c')" "\<forall>m0. msg = Some m0 \<longrightarrow> sound (ws_max c) m0"
  shows "c' = c \<and> sound (ws_max c) m \<and> (fin \<longrightarrow> fst m = opText \<longrightarrow> utf8_valid (snd m))"
  using assms
  by (cases fr) (auto simp: data_frame_def sound_def Let_def op_defs split: if_splits prod.splits option.splits)

lemma loop_sound:
  "read_loop h fuel msg c = Some (Inr m, c') \<Longrightarrow> \<forall>m0. msg = Some m0 \<longrightarrow> sound (ws_max c) m0 \<Longrightarrow>
   sound (ws_max c) m \<and> (fst m = opText \<longrightarrow> utf8_valid (snd m))"
proof (induction fuel arbitrary: msg c)
  case 0
  then show ?case by simp
next
  case (Suc fuel)
  obtain f c1 where r: "h_read h c = (Inr f, c1)"
    using Suc.prems(1) by (cases "h_read h c"; cases "fst (h_read h c)") auto
  obtain fin op p where f: "f = (fin, op, p)" by (cases f)
  have m1: "ws_max c1 = ws_max c" using read_shrinks [OF r] by simp
  have m0: "\<forall>m0. msg = Some m0 \<longrightarrow> sound (ws_max c1) m0" using Suc.prems(2) m1 by simp
  consider "op = opPing" | "op = opPong" | "op = opClose" | "op \<notin> {opPing, opPong, opClose}" by blast
  then show ?case
  proof cases
    case 1
    obtain e c2 where w: "h_write h opPong p c1 = (e, c2)" by (cases "h_write h opPong p c1")
    have "ws_max c2 = ws_max c" using write_in [of opPong p c1] w m1 by simp
    moreover have "read_loop h fuel msg c2 = Some (Inr m, c')"
      using Suc.prems(1) r f 1 w by (auto split: option.splits if_splits)
    ultimately show ?thesis using Suc.IH [of msg c2] Suc.prems(2) by simp
  next
    case 2
    then have "read_loop h fuel msg (h_pong h c1) = Some (Inr m, c')"
      using Suc.prems(1) r f by (auto simp: op_defs)
    then show ?thesis using Suc.IH [of msg "h_pong h c1"] Suc.prems(2) pong_keeps [of c1] m1 by simp
  next
    case 3
    then show ?thesis using Suc.prems(1) r f by (auto simp: op_defs split: prod.splits)
  next
    case 4
    then obtain m1' fin' c2 where d: "data_frame h msg (fin, op, p) c1 = (Inr (m1', fin'), c2)"
      and next_: "if fin' then m = m1' \<and> c' = c2 else read_loop h fuel (Some m1') c2 = Some (Inr m, c')"
      using Suc.prems(1) r f by (auto split: prod.splits sum.splits if_splits)
    from data_frame_sound [OF d m0] have s: "c2 = c1" "sound (ws_max c) m1'" "fin' \<longrightarrow> fst m1' = opText \<longrightarrow> utf8_valid (snd m1')"
      using m1 by auto
    show ?thesis
      using next_ s Suc.IH [of "Some m1'" c1] m1 by (cases fin') auto
  qed
qed

text \<open>Reassembly: \<open>acc\<close> is what was assembled before, with its type.\<close>

lemma read_control:
  assumes "good k" "\<not> ws_shut c" "125 \<le> ws_max c" "length q \<le> 125"
    and "ws_in c = enc k True (ctl_op ping) q @ rest"
  shows "\<exists>c1. read_loop h (Suc fuel) msg c = read_loop h fuel msg c1 \<and> ws_in c1 = rest \<and>
     ws_max c1 = ws_max c \<and> \<not> ws_shut c1"
proof -
  have "ctl_op ping < 16" by (simp add: ctl_op_def op_defs)
  with assms have r: "h_read h c = (Inr (True, ctl_op ping, q), c\<lparr>ws_in := rest\<rparr>)"
    by (intro read_enc) auto
  let ?c = "c\<lparr>ws_in := rest\<rparr>"
  show ?thesis
  proof (cases ping)
    case True
    obtain e c1 where w: "h_write h opPong q ?c = (e, c1)" by (cases "h_write h opPong q ?c")
    have "e \<in> {None, Some ErrClosed}" "\<not> ws_shut c1" using write_open [of ?c opPong q] w assms(2) by auto
    moreover have "ws_in c1 = rest" "ws_max c1 = ws_max c" using write_in [of opPong q ?c] w by auto
    ultimately show ?thesis using r w True by (auto simp: ctl_op_def)
  next
    case False
    then have "read_loop h (Suc fuel) msg c = read_loop h fuel msg (h_pong h ?c)"
      using r by (simp add: ctl_op_def op_defs)
    then show ?thesis using pong_keeps [of ?c] assms(2) by auto
  qed
qed

lemma read_fragments:
  assumes k: "good k" and m: "125 \<le> ws_max c" "ws_max c < 256 ^ 8"
  shows "fs \<noteq> [] \<Longrightarrow> small_controls fs \<Longrightarrow> t \<in> {opText, opBinary} \<Longrightarrow> frames fs \<le> fuel \<Longrightarrow>
    int (length (acc @ text_of fs)) \<le> ws_max c \<Longrightarrow> (t = opText \<Longrightarrow> utf8_valid (acc @ text_of fs)) \<Longrightarrow>
    \<not> ws_shut c \<Longrightarrow> op = (if msg = None then t else opContinuation) \<Longrightarrow> msg \<in> {None, Some (t, acc)} \<Longrightarrow>
    (msg = None \<Longrightarrow> acc = []) \<Longrightarrow> ws_in c = wire_msg (enc k) op fs @ rest \<Longrightarrow>
    \<exists>c'. read_loop h fuel msg c = Some (Inr (t, acc @ text_of fs), c') \<and> ws_in c' = rest"
  using m
proof (induction "enc k" op fs arbitrary: c fuel msg acc rule: wire_msg.induct)
  case (1 t)
  then show ?case by simp
next
  case (3 op ping q cs p fs)
  have f: "frames ((cs, p) # fs) \<le> fuel - 1" "fuel = Suc (fuel - 1)"
    and s: "small_controls ((cs, p) # fs)" "length q \<le> 125"
    using 3(3,5) by (auto simp: frames_def small_controls_def)
  have tx: "text_of (((ping, q) # cs, p) # fs) = text_of ((cs, p) # fs)" by (simp add: text_of_def)
  have w: "ws_in c = enc k True (ctl_op ping) q @ wire_msg (enc k) op ((cs, p) # fs) @ rest" using 3(12) by simp
  from read_control [OF k 3(8,13) s(2) w, of "fuel - 1" msg] obtain c1 where
    c1: "read_loop h fuel msg c = read_loop h (fuel - 1) msg c1"
      "ws_in c1 = wire_msg (enc k) op ((cs, p) # fs) @ rest" "ws_max c1 = ws_max c" "\<not> ws_shut c1"
    using f(2) by auto
  show ?case
    unfolding c1(1) tx
    by (rule 3(1)) (use 3 f s c1 tx in auto)
next
  case (2 op p fs)
  have tx: "text_of (([], p) # fs) = p @ text_of fs" by (simp add: text_of_def)
  have op16: "op < 16" "\<not> is_control op" "op \<notin> {opPing, opPong, opClose}"
    using 2(4,9) by (auto split: if_splits)
  have len: "int (length p) \<le> ws_max c" "int (length acc) + int (length p) \<le> ws_max c" using 2(6) tx by auto
  have r: "h_read h c = (Inr (fs = [], op, p), c\<lparr>ws_in := wire_msg (enc k) opContinuation fs @ rest\<rparr>)"
    using k op16 len 2(12,14) by (intro read_enc) auto
  let ?c = "c\<lparr>ws_in := wire_msg (enc k) opContinuation fs @ rest\<rparr>"
  have v: "fs = [] \<Longrightarrow> t = opText \<Longrightarrow> utf8_valid (acc @ p)" using 2(7) tx by (auto simp: text_of_def)
  have d: "data_frame h msg (fs = [], op, p) ?c = (Inr ((t, acc @ p), fs = []), ?c)"
    using 2(4,9,10,11) len v by (auto simp: data_frame_def Let_def op_defs split: if_splits)
  obtain fuel' where fu: "fuel = Suc fuel'" using 2(5) by (cases fuel) (auto simp: frames_def)
  have step: "read_loop h fuel msg c = (if fs = [] then Some (Inr (t, acc @ p), ?c) else read_loop h fuel' (Some (t, acc @ p)) ?c)"
    using r d op16 fu by simp
  show ?case
  proof (cases "fs = []")
    case True
    then show ?thesis using step by (simp add: tx text_of_def)
  next
    case False
    have "\<exists>c'. read_loop h fuel' (Some (t, acc @ p)) ?c = Some (Inr (t, (acc @ p) @ text_of fs), c') \<and> ws_in c' = rest"
    proof (rule 2(1))
      show "fs \<noteq> []" by fact
      show "small_controls fs" using 2(3) by (simp add: small_controls_def)
      show "frames fs \<le> fuel'" using 2(5) fu by (simp add: frames_def)
    qed (use 2 tx len in \<open>auto simp: op_defs\<close>)
    with step False tx show ?thesis by simp
  qed
qed

end

section \<open>Both halves keep it\<close>

lemma ReadFull_in: "ReadFull n c = Some (b, c') \<Longrightarrow> length (ws_in c) = n + length (ws_in c') \<and> ws_max c' = ws_max c"
  by (auto simp: ReadFull_def split: if_splits)

lemma read_length_in: "read_length b c = Some (n, c') \<Longrightarrow> length (ws_in c') \<le> length (ws_in c) \<and> ws_max c' = ws_max c"
  by (auto simp: read_length_def Let_def dest!: ReadFull_in split: if_splits)

lemma read_header_in:
  "read_header fl masked why c = (Inr x, c') \<Longrightarrow> length (ws_in c') < length (ws_in c) \<and> ws_max c' = ws_max c"
  by (auto simp: read_header_def Let_def dest!: ReadFull_in read_length_in split: option.splits if_splits prod.splits)

lemma srv_readFrame_in: "srv_readFrame c = (Inr f, c') \<Longrightarrow> length (ws_in c') < length (ws_in c) \<and> ws_max c' = ws_max c"
  by (auto simp: srv_readFrame_def dest!: ReadFull_in read_header_in split: option.splits sum.splits prod.splits)

lemma cli_readFrame_in: "cli_readFrame c = (Inr f, c') \<Longrightarrow> length (ws_in c') < length (ws_in c) \<and> ws_max c' = ws_max c"
  by (auto simp: cli_readFrame_def dest!: ReadFull_in read_header_in split: option.splits sum.splits prod.splits)

lemma srv_readFrame_wire:
  assumes "length k = 4" "op < 16" "int (length p) \<le> ws_max c" "int (length p) < 256 ^ 8"
    "is_control op \<Longrightarrow> fin \<and> length p \<le> 125" "ws_in c = cli_wire k fin op p @ rest"
  shows "srv_readFrame c = (Inr (fin, op, p), c\<lparr>ws_in := rest\<rparr>)"
proof -
  let ?c1 = "c\<lparr>ws_in := k @ xor_mask k p @ rest\<rparr>"
  have h: "read_header srv_fail True ''client frame is not masked'' c = (Inr (fin, op, nat (int (length p))), ?c1)"
    using assms by (intro read_header_wire) (auto simp: cli_wire_def is_control_def)
  have "ReadFull 4 ?c1 = Some (k, c\<lparr>ws_in := xor_mask k p @ rest\<rparr>)"
    using ReadFull_append [of k 4 ?c1] assms(1) by simp
  moreover have "ReadFull (length p) (c\<lparr>ws_in := xor_mask k p @ rest\<rparr>) = Some (xor_mask k p, c\<lparr>ws_in := rest\<rparr>)"
    using ReadFull_append [of "xor_mask k p" "length p" "c\<lparr>ws_in := xor_mask k p @ rest\<rparr>"] by simp
  ultimately show ?thesis using h by (simp add: srv_readFrame_def)
qed

lemma cli_readFrame_wire:
  assumes "op < 16" "int (length p) \<le> ws_max c" "int (length p) < 256 ^ 8"
    "is_control op \<Longrightarrow> fin \<and> length p \<le> 125" "ws_in c = srv_wire k fin op p @ rest"
  shows "cli_readFrame c = (Inr (fin, op, p), c\<lparr>ws_in := rest\<rparr>)"
proof -
  let ?c1 = "c\<lparr>ws_in := p @ rest\<rparr>"
  have h: "read_header cli_fail False ''server frame is masked'' c = (Inr (fin, op, nat (int (length p))), ?c1)"
    using assms by (intro read_header_wire) (auto simp: srv_wire_def is_control_def)
  have "ReadFull (length p) ?c1 = Some (p, c\<lparr>ws_in := rest\<rparr>)"
    using ReadFull_append [of p "length p" ?c1] by simp
  with h show ?thesis by (simp add: cli_readFrame_def)
qed

lemma send_facts:
  "ws_in (snd (send op b c)) = ws_in c" "ws_max (snd (send op b c)) = ws_max c" "ws_shut (snd (send op b c)) = ws_shut c"
  "\<not> ws_shut c \<Longrightarrow> fst (send op b c) = None"
  by (auto simp: send_def Let_def)

interpretation server_half: ws_half server cli_wire "\<lambda>k. length k = 4"
  by unfold_locales
    (auto simp: server_def srv_readFrame_wire srv_write_def send_facts dest: srv_readFrame_in)

interpretation client_half: ws_half client srv_wire "\<lambda>_. True"
  by unfold_locales
    (auto simp: client_def cli_readFrame_wire cli_writeFrame_def send_facts dest: cli_readFrame_in)


definition demo_conn :: "bytes \<Rightarrow> int \<Rightarrow> conn" where
  "demo_conn input n = \<lparr>ws_in = input, ws_out = [], ws_closed = False, ws_shut = False, ws_max = n,
     ws_pongs = 0, ws_rand = (\<lambda>_. [1, 2, 3, 4]), ws_drawn = 0\<rparr>"


text \<open>
  What the server writes the client reads: a message the server sent is delivered by the
  client as it was sent, up to the client's limit, and the client goes on at the next byte.
\<close>

theorem client_reads_server:
  assumes "srv_WriteMessage t p s = (None, s')" and "ws_out s' = ws_out s @ b" and "ws_in c = b @ rest"
    and "125 \<le> ws_max c" and "ws_max c < 2 ^ 63" and "int (length p) \<le> ws_max c"
    and "t = opText \<longrightarrow> utf8_valid p" and "\<not> ws_shut c"
  shows "\<exists>c'. cli_ReadMessage c = Some (Inr (t, p), c') \<and> ws_in c' = rest"
proof -
  have t: "t \<in> {opText, opBinary}" and b: "b = srv_wire [] True t p"
    using assms(1,2) by (auto simp: srv_WriteMessage_def srv_write_def send_def Let_def frame_wire [of _ _ "[]"] split: if_splits)
  have "ws_in c = wire_msg (srv_wire []) t [([], p)] @ rest" using assms(3) b by simp
  then show ?thesis unfolding cli_ReadMessage_def
    using client_half.read_fragments [where k = "[]" and c = c and fs = "[([], p)]" and t = t and
      fuel = "length (ws_in c) + 1" and acc = "[]" and op = t and msg = None and rest = rest] t assms
    by (auto simp: small_controls_def frames_def text_of_def)
qed

theorem client_reads_server_witness:
  "let s' = snd (srv_WriteMessage opBinary [0, 255] (demo_conn [] 200)) in
   case cli_ReadMessage (demo_conn (ws_out s' @ [9]) 200) of
     Some (Inr (t, p), c') \<Rightarrow> t = opBinary \<and> p = [0, 255] \<and> ws_in c' = [9] | _ \<Rightarrow> False"
proof -
  let ?w = "srv_WriteMessage opBinary [0, 255] (demo_conn [] 200)"
  let ?c = "demo_conn (ws_out (snd ?w) @ [9]) 200"
  have 1: "fst ?w = None" by code_simp
  then have 2: "?w = (None, snd ?w)" by (simp add: prod_eq_iff)
  have 3: "ws_out (snd ?w) = ws_out (demo_conn [] 200) @ ws_out (snd ?w)" by (simp add: demo_conn_def)
  have 4: "ws_in ?c = ws_out (snd ?w) @ [9]" by (simp add: demo_conn_def)
  have 5: "125 \<le> ws_max ?c" "ws_max ?c < 2 ^ 63" "int (length [0, 255 :: byte]) \<le> ws_max ?c" "\<not> ws_shut ?c"
    by (simp_all add: demo_conn_def)
  have 6: "opBinary = opText \<longrightarrow> utf8_valid [0, 255]" by code_simp
  from client_reads_server [OF 2 3 4 5(1-3) 6 5(4)] show ?thesis by (auto simp: Let_def)
qed

text \<open>
  (C35) \<open>ReadMessage\<close> always comes to an end on the bytes that arrive, and what the server delivers is
  a text or binary message no longer than its limit, text only if it is valid UTF-8.
\<close>

theorem server_delivers_bounded:
  "case srv_ReadMessage c of
     None \<Rightarrow> False
   | Some (Inr (t, p), _) \<Rightarrow> t \<in> {opText, opBinary} \<and> int (length p) \<le> ws_max c \<and> (t = opText \<longrightarrow> utf8_valid p)
   | Some (Inl _, _) \<Rightarrow> True"
  using server_half.loop_returns [of c "length (ws_in c) + 1" None]
    server_half.loop_sound [of "length (ws_in c) + 1" None c]
  unfolding srv_ReadMessage_def
  by (auto simp: sound_def split: option.splits sum.splits)

theorem server_delivers_bounded_witness:
  "case srv_ReadMessage (demo_conn (cli_wire [1, 2, 3, 4] True opText [195, 40]) 200) of
     Some (Inl e, c') \<Rightarrow> e = Ws_fail CloseInvalidData ''text message is not valid UTF-8'' \<and> ws_shut c' | _ \<Rightarrow> False"
proof -
  let ?c = "demo_conn (cli_wire [1, 2, 3, 4] True opText [195, 40]) 200"
  have "srv_ReadMessage ?c \<noteq> None" using server_delivers_bounded [of ?c] by (auto split: option.splits)
  moreover have "case srv_ReadMessage ?c of Some (Inl e, c') \<Rightarrow>
      e = Ws_fail CloseInvalidData ''text message is not valid UTF-8'' \<and> ws_shut c' | _ \<Rightarrow> False" by code_simp
  ultimately show ?thesis by blast
qed

text \<open>
  A client frame that is not masked never reaches the application: the server answers with a
  close frame of status 1002 and drops the connection.
\<close>

theorem unmasked_frame_refused:
  assumes "ws_in c = a # b # rest" and "a AND 0x70 = 0" and "b AND 0x80 = 0"
    and "\<not> ws_closed c" and "\<not> ws_shut c"
  shows "\<exists>c'. srv_ReadMessage c = Some (Inl (Ws_fail CloseProtocolError ''client frame is not masked''), c') \<and>
    ws_shut c' \<and> ws_out c' = ws_out c @ srv_frame opClose (closePayload CloseProtocolError ''client frame is not masked'')"
proof -
  have "ReadFull 2 c = Some ([a, b], c\<lparr>ws_in := rest\<rparr>)" using assms(1) by (simp add: ReadFull_def)
  then have "srv_readFrame c = (let (e, c') = srv_fail CloseProtocolError ''client frame is not masked'' (c\<lparr>ws_in := rest\<rparr>) in (Inl e, c'))"
    using assms(2,3) by (simp add: srv_readFrame_def read_header_def Let_def split: prod.splits)
  then show ?thesis
    using assms(4,5) by (simp add: srv_ReadMessage_def server_def srv_fail_def srv_write_def send_def shut_def Let_def)
qed

theorem unmasked_frame_refused_witness:
  "case srv_ReadMessage (demo_conn (srv_frame opText [104]) 200) of
     Some (Inl e, c') \<Rightarrow> e = Ws_fail CloseProtocolError ''client frame is not masked'' \<and> ws_shut c' | _ \<Rightarrow> False"
proof -
  let ?c = "demo_conn (srv_frame opText [104]) 200"
  have 0: "srv_frame opText [104] = [0x81, 1, 104]" by code_simp
  have 1: "ws_in ?c = 0x81 # 1 # [104]" "\<not> ws_closed ?c" "\<not> ws_shut ?c" by (simp_all add: demo_conn_def 0)
  have 2: "(0x81 :: byte) AND 0x70 = 0" "(1 :: byte) AND 0x80 = 0" by code_simp+
  from unmasked_frame_refused [OF 1(1) 2 1(2,3)] show ?thesis by auto
qed

section \<open>Nothing after a close frame\<close>

text \<open>A property of the connection that every operation of a half keeps is kept by the loop.\<close>

locale ws_keeps = ws_half +
  fixes I :: "conn \<Rightarrow> bool"
  assumes I_read: "I c \<Longrightarrow> I (snd (h_read h c))"
    and I_write: "I c \<Longrightarrow> I (snd (h_write h op p c))"
    and I_pong: "I c \<Longrightarrow> I (h_pong h c)"
    and I_onClose: "I c \<Longrightarrow> I (snd (h_onClose h p c))"
    and I_fail: "I c \<Longrightarrow> I (snd (h_fail h code reason c))"
begin

lemma data_frame_keeps: "I c \<Longrightarrow> I (snd (data_frame h msg fr c))"
  using I_fail by (cases fr) (auto simp: data_frame_def Let_def case_prod_beta)

lemma loop_keeps: "I c \<Longrightarrow> read_loop h fuel msg c = Some (r, c') \<Longrightarrow> I c'"
proof (induction fuel arbitrary: msg c)
  case 0
  then show ?case by simp
next
  case (Suc fuel)
  obtain x c1 where rd: "h_read h c = (x, c1)" by (cases "h_read h c")
  have i1: "I c1" using I_read [OF Suc.prems(1)] rd by simp
  show ?case
  proof (cases x)
    case (Inl e)
    then show ?thesis using Suc.prems(2) rd i1 by simp
  next
    case (Inr f)
    obtain fin op p where f: "f = (fin, op, p)" by (cases f)
    obtain e c2 where w: "h_write h opPong p c1 = (e, c2)" by (cases "h_write h opPong p c1")
    obtain y c3 where d: "data_frame h msg (fin, op, p) c1 = (y, c3)" by (cases "data_frame h msg (fin, op, p) c1")
    have i2: "I c2" using I_write [OF i1] w by (metis snd_conv)
    have i3: "I c3" using data_frame_keeps [OF i1] d by (metis snd_conv)
    show ?thesis
      using Suc.prems(2) rd Inr f w d Suc.IH [OF i2] Suc.IH [OF i3] Suc.IH [OF I_pong [OF i1]] I_onClose [OF i1] i2 i3
      by (auto simp: Let_def case_prod_beta split: option.splits sum.splits if_splits)
  qed
qed

end

text \<open>What was written is a sequence of whole frames, none of them after a close frame.\<close>

definition close_last :: "conn \<Rightarrow> bool" where
  "close_last c = (\<exists>fs. ws_out c = concat (map (\<lambda>(op, p). srv_frame op p) fs) \<and>
     (\<forall>f \<in> set (butlast fs). fst f \<noteq> opClose) \<and> (fs \<noteq> [] \<and> fst (last fs) = opClose \<longrightarrow> ws_closed c))"

lemma close_last_fields [simp]:
  "close_last (c\<lparr>ws_in := i\<rparr>) = close_last c" "close_last (c\<lparr>ws_pongs := n\<rparr>) = close_last c" "close_last (shut c) = close_last c"
  by (simp_all add: close_last_def shut_def)

lemma close_last_send:
  assumes "close_last c" "\<not> ws_closed c"
  shows "close_last (snd (send op (srv_frame op p) c))"
proof -
  from assms obtain fs where fs: "ws_out c = concat (map (\<lambda>(op, p). srv_frame op p) fs)"
    "\<forall>f \<in> set (butlast fs). fst f \<noteq> opClose" "fs \<noteq> [] \<longrightarrow> fst (last fs) \<noteq> opClose"
    by (auto simp: close_last_def)
  then have all: "\<forall>f \<in> set fs. fst f \<noteq> opClose"
    by (cases fs rule: rev_cases) auto
  show ?thesis
  proof (cases "ws_shut c")
    case True
    then show ?thesis using fs by (auto simp: send_def Let_def close_last_def)
  next
    case False
    have "ws_out (snd (send op (srv_frame op p) c)) = concat (map (\<lambda>(op, p). srv_frame op p) (fs @ [(op, p)]))"
      "ws_closed (snd (send op (srv_frame op p) c)) = (op = opClose)"
      using False fs(1) by (simp_all add: send_def Let_def)
    with all show ?thesis unfolding close_last_def by (intro exI [of _ "fs @ [(op, p)]"]) auto
  qed
qed

lemma close_last_write: "close_last c \<Longrightarrow> close_last (snd (srv_write op p c))"
  by (simp add: srv_write_def close_last_send)

lemma close_last_fail: "close_last c \<Longrightarrow> close_last (snd (srv_fail code reason c))"
  by (simp add: srv_fail_def close_last_write)

lemma ReadFull_conn: "ReadFull n c = Some (b, c') \<Longrightarrow> close_last c' = close_last c"
  by (auto simp: ReadFull_def split: if_splits)

lemma read_length_conn: "read_length b c = Some (n, c') \<Longrightarrow> close_last c' = close_last c"
  by (auto simp: read_length_def Let_def dest!: ReadFull_conn split: if_splits)

lemma close_last_header: "close_last c \<Longrightarrow> close_last (snd (read_header srv_fail m why c))"
  by (auto simp: read_header_def Let_def case_prod_beta close_last_fail
      dest: ReadFull_conn read_length_conn split: option.splits)

lemma close_last_readFrame:
  assumes "close_last c"
  shows "close_last (snd (srv_readFrame c))"
proof -
  obtain r c1 where h: "read_header srv_fail True ''client frame is not masked'' c = (r, c1)"
    by (cases "read_header srv_fail True ''client frame is not masked'' c")
  with close_last_header [OF assms, of True "''client frame is not masked''"] have "close_last c1" by simp
  with h show ?thesis
    by (auto simp: srv_readFrame_def dest: ReadFull_conn split: sum.splits option.splits)
qed

interpretation server_closes: ws_keeps server cli_wire "\<lambda>k. length k = 4" close_last
  by unfold_locales
    (simp_all add: server_def close_last_readFrame close_last_write close_last_fail srv_onClose_def)

text \<open>What happens to a server connection: its operations, bytes that arrive, and a lost peer.\<close>

inductive srv_step :: "conn \<Rightarrow> conn \<Rightarrow> bool" where
  message: "srv_step c (snd (srv_WriteMessage t p c))"
| ping: "srv_step c (snd (srv_Ping c))"
| close_with: "srv_step c (snd (CloseWith code reason c))"
| close_now: "srv_step c (CloseNow locked code reason c)"
| reads: "srv_ReadMessage c = Some (r, c') \<Longrightarrow> srv_step c c'"
| arrives: "srv_step c (c\<lparr>ws_in := ws_in c @ b\<rparr>)"
| lost: "srv_step c (shut c)"

definition srv_fresh :: "conn \<Rightarrow> bool" where
  "srv_fresh c = (ws_out c = [] \<and> \<not> ws_closed c)"

interpretation server_conn: invariant_system srv_fresh srv_step close_last
proof unfold_locales
  show "srv_fresh c \<Longrightarrow> close_last c" for c unfolding srv_fresh_def close_last_def by (intro exI [of _ "[]"]) simp
  fix c c' assume i: "close_last c" and "srv_step c c'"
  from this(2) show "close_last c'"
  proof cases
    case (reads r)
    then show ?thesis unfolding srv_ReadMessage_def by (rule server_closes.loop_keeps [OF i])
  qed (use i in \<open>simp_all add: srv_WriteMessage_def srv_Ping_def CloseWith_def CloseNow_def case_prod_beta
      close_last_write close_last_send\<close>)
qed

text \<open>
  A server connection writes whole frames and nothing after a close frame: whatever its
  callers, its reader and the peer do, in any order, the bytes written are a sequence of frames in
  which a close frame, if there is one, is the last.
\<close>

theorem nothing_after_close:
  assumes "reach srv_fresh srv_step c"
  shows "\<exists>fs. ws_out c = concat (map (\<lambda>(op, p). srv_frame op p) fs) \<and> (\<forall>f \<in> set (butlast fs). fst f \<noteq> opClose)"
  using server_conn.reach_inv [OF assms] by (auto simp: close_last_def)

theorem nothing_after_close_witness:
  "let c1 = snd (CloseWith CloseNormal ''bye'' (demo_conn [] 200)); c2 = snd (srv_WriteMessage opText [104] c1) in
   ws_out c2 = srv_frame opClose [3, 232, 98, 121, 101] \<and>
   (\<exists>fs. ws_out c2 = concat (map (\<lambda>(op, p). srv_frame op p) fs) \<and> (\<forall>f \<in> set (butlast fs). fst f \<noteq> opClose))"
proof -
  let ?c1 = "snd (CloseWith CloseNormal ''bye'' (demo_conn [] 200))"
  let ?c2 = "snd (srv_WriteMessage opText [104] ?c1)"
  have "srv_fresh (demo_conn [] 200)" by (simp add: srv_fresh_def demo_conn_def)
  then have "reach srv_fresh srv_step ?c2"
    by (meson reach_init reach_step srv_step.close_with srv_step.message)
  moreover have "ws_out ?c2 = srv_frame opClose [3, 232, 98, 121, 101]" by code_simp
  ultimately show ?thesis unfolding Let_def using nothing_after_close by blast
qed

text \<open>
  A close is understood: the status and reason a server closes with are what the client
  reports, the reason cut to the 123 bytes a control frame has room for.
\<close>

theorem close_is_understood:
  assumes "CloseWith code reason s = (None, s')" and "ws_out s' = ws_out s @ b" and "ws_in c = b @ rest"
    and "0 \<le> code" and "code < 65536" and "125 \<le> ws_max c"
  shows "\<exists>c'. cli_ReadMessage c = Some (Inl (CloseError code (of_string (take 123 reason))), c') \<and> ws_shut c'"
proof -
  let ?p = "closePayload code reason"
  have b: "b = srv_wire [] True opClose ?p"
    using assms(1,2) by (auto simp: CloseWith_def srv_write_def send_def shut_def Let_def frame_wire [of _ _ "[]"]
        split: if_splits prod.splits)
  have len: "length ?p \<le> 125" "2 \<le> length ?p" by (simp_all add: closePayload_def of_string_def)
  have "cli_readFrame c = (Inr (True, opClose, ?p), c\<lparr>ws_in := rest\<rparr>)"
    using assms(3,6) b len by (intro cli_readFrame_wire [where k = "[]"]) auto
  moreover have "un_be (be 2 code) = code" using assms(4,5) by (intro un_be_be) simp_all
  ultimately show ?thesis using len
    by (auto simp: cli_ReadMessage_def client_def cli_onClose_def close_of_def closePayload_def shut_def op_defs)
qed

theorem close_is_understood_witness:
  "let s' = snd (CloseWith 4001 ''taken'' (demo_conn [] 200)) in
   case cli_ReadMessage (demo_conn (ws_out s') 200) of
     Some (Inl e, c') \<Rightarrow> e = CloseError 4001 (of_string ''taken'') \<and> ws_shut c' | _ \<Rightarrow> False"
proof -
  let ?w = "CloseWith 4001 ''taken'' (demo_conn [] 200)" and ?c = "demo_conn (ws_out (snd (CloseWith 4001 ''taken'' (demo_conn [] 200)))) 200"
  have "fst ?w = None" by code_simp
  then have 1: "?w = (None, snd ?w)" by (simp add: prod_eq_iff)
  have 2: "ws_out (snd ?w) = ws_out (demo_conn [] 200) @ ws_out (snd ?w)" by (simp add: demo_conn_def)
  have 3: "ws_in ?c = ws_out (snd ?w) @ []" "125 \<le> ws_max ?c" by (simp_all add: demo_conn_def)
  from close_is_understood [OF 1 2 3(1) _ _ 3(2)] show ?thesis by (auto simp: Let_def)
qed

section \<open>The handshake\<close>

text \<open>Headers by canonical name. \<open>EqualFold\<close> on ASCII text. \<open>Accept\<close>, a SHA-1 in base 64, is an
  argument.\<close>

type_synonym headers = "(string \<times> string list) list"

definition Values :: "headers \<Rightarrow> string \<Rightarrow> string list" where
  "Values h name = (case map_of h name of None \<Rightarrow> [] | Some vs \<Rightarrow> vs)"

definition Get :: "headers \<Rightarrow> string \<Rightarrow> string" where
  "Get h name = (case Values h name of [] \<Rightarrow> [] | v # _ \<Rightarrow> v)"

definition EqualFold :: "string \<Rightarrow> string \<Rightarrow> bool" where
  "EqualFold a b = (ToLower a = ToLower b)"

definition headerHas :: "headers \<Rightarrow> string \<Rightarrow> string \<Rightarrow> bool" where
  "headerHas h name token = list_ex (\<lambda>v. list_ex (\<lambda>t. EqualFold (TrimSpace t) token) (Split v CHR '','')) (Values h name)"

definition IsUpgrade :: "headers \<Rightarrow> bool" where
  "IsUpgrade h = (headerHas h ''Connection'' ''upgrade'' \<and> EqualFold (Get h ''Upgrade'') ''websocket'')"

datatype upgrade_error = Not_get | Not_upgrade | Bad_ws_version | No_key | Not_hijacked

text \<open>The answer of a successful upgrade is the status and headers the client gets; the connection
  starts with what the hijacked reader had buffered.\<close>

definition Upgrade :: "(string \<Rightarrow> string) \<Rightarrow> string \<Rightarrow> headers \<Rightarrow> bytes option \<Rightarrow> int \<Rightarrow> (upgrade_error, (int \<times> headers) \<times> conn) res" where
  "Upgrade Accept verb h hijacked maxMessage =
     (if verb \<noteq> ''GET'' then Inl Not_get
      else if \<not> IsUpgrade h then Inl Not_upgrade
      else if Get h ''Sec-Websocket-Version'' \<noteq> ''13'' then Inl Bad_ws_version
      else if Get h ''Sec-Websocket-Key'' = [] then Inl No_key
      else (case hijacked of None \<Rightarrow> Inl Not_hijacked
        | Some buffered \<Rightarrow> Inr ((101, [(''Upgrade'', [''websocket'']), (''Connection'', [''Upgrade'']),
              (''Sec-Websocket-Accept'', [Accept (Get h ''Sec-Websocket-Key'')])]),
            \<lparr>ws_in = buffered, ws_out = [], ws_closed = False, ws_shut = False,
             ws_max = (if maxMessage \<le> 0 then srv_DefaultMaxMessage else maxMessage),
             ws_pongs = 0, ws_rand = (\<lambda>_. []), ws_drawn = 0\<rparr>)))"

datatype handshake_error = HandshakeError int | Not_websocket | Bad_accept | Extension string

definition check_answer :: "(string \<Rightarrow> string) \<Rightarrow> string \<Rightarrow> int \<times> headers \<Rightarrow> (handshake_error, unit) res" where
  "check_answer Accept key ans = (case ans of (status, h) \<Rightarrow>
     if status \<noteq> 101 then Inl (HandshakeError status)
     else if \<not> EqualFold (Get h ''Upgrade'') ''websocket'' \<or> \<not> Contains (ToLower (Get h ''Connection'')) ''upgrade''
       then Inl Not_websocket
     else if Get h ''Sec-Websocket-Accept'' \<noteq> Accept key then Inl Bad_accept
     else if Get h ''Sec-Websocket-Extensions'' \<noteq> [] then Inl (Extension (Get h ''Sec-Websocket-Extensions''))
     else Inr ())"

text \<open>The headers of the client's own request.\<close>

definition request_headers :: "string \<Rightarrow> headers" where
  "request_headers key = [(''Upgrade'', [''websocket'']), (''Connection'', [''Upgrade'']),
     (''Sec-Websocket-Version'', [''13'']), (''Sec-Websocket-Key'', [key])]"

text \<open>
  The two halves agree on the handshake: the server upgrades the client's request, with any
  further headers the caller sent besides the ones the client keeps for itself, and the client accepts its answer; the connection starts fresh and
  with a limit.
\<close>

theorem handshake_agrees:
  assumes "key \<noteq> []"
    and "fst ` set extra \<inter> {''Host'', ''Upgrade'', ''Connection'', ''Sec-Websocket-Key'', ''Sec-Websocket-Version''} = {}"
  shows "\<exists>ans c. Upgrade Accept ''GET'' (request_headers key @ extra) (Some b) n = Inr (ans, c) \<and>
    check_answer Accept key ans = Inr () \<and> srv_fresh c \<and> 0 < ws_max c \<and> ws_in c = b"
proof -
  let ?h = "request_headers key @ extra"
  have g: "Get ?h ''Upgrade'' = ''websocket''" "Values ?h ''Connection'' = [''Upgrade'']"
    "Get ?h ''Sec-Websocket-Version'' = ''13''" "Get ?h ''Sec-Websocket-Key'' = key"
    by (simp_all add: Get_def Values_def request_headers_def)
  have "list_ex (\<lambda>v. list_ex (\<lambda>t. EqualFold (TrimSpace t) ''upgrade'') (Split v CHR '','')) [''Upgrade'']"
    by code_simp
  then have "IsUpgrade ?h" by (simp add: IsUpgrade_def headerHas_def g EqualFold_def)
  moreover have "check_answer Accept key (101, [(''Upgrade'', [''websocket'']), (''Connection'', [''Upgrade'']),
      (''Sec-Websocket-Accept'', [Accept key])]) = Inr ()"
  proof -
    have "Contains (ToLower ''Upgrade'') ''upgrade''" by code_simp
    then show ?thesis by (simp add: check_answer_def Get_def Values_def EqualFold_def)
  qed
  ultimately show ?thesis
    using assms by (auto simp: Upgrade_def g srv_fresh_def srv_DefaultMaxMessage_def)
qed

theorem handshake_agrees_witness:
  "\<exists>ans c. Upgrade rev ''GET'' (request_headers ''abc'' @ [(''Authorization'', [''t''])]) (Some []) 0 = Inr (ans, c) \<and>
    check_answer rev ''abc'' ans = Inr () \<and> ws_max c = 4194304"
proof -
  have k: "''abc'' \<noteq> []" by simp
  have "case Upgrade rev ''GET'' (request_headers ''abc'' @ [(''Authorization'', [''t''])]) (Some []) 0 of
      Inr (_, c) \<Rightarrow> ws_max c = 4194304 | Inl _ \<Rightarrow> False" by code_simp
  moreover have "fst ` set [(''Authorization'', [''t''])] \<inter> {''Host'', ''Upgrade'', ''Connection'', ''Sec-Websocket-Key'', ''Sec-Websocket-Version''} = {}"
    by simp
  ultimately show ?thesis using handshake_agrees [OF k, of "[(''Authorization'', [''t''])]" rev "[]" 0] by auto
qed

end
