(* ===== verification/Osb_Slots.thy ===== *)
theory Osb_Slots
  imports Sbx_Prelude
begin

text \<open>
  Port slots: the docker provider's \<open>PickSlot\<close>, \<open>AllocSlot\<close> and \<open>Endpoints\<close> of
  \<^verbatim>\<open>internal/provider/docker_provider.go\<close> and the reservations of a burst of creates,
  \<open>createPicked\<close> of \<^verbatim>\<open>internal/osb/slots.go\<close>. A create runs as a sequence of steps that interleave with
  those of other creates: it lists the containers, chooses a slot under the lock, runs the container
  and settles its reservation. Time is an \<open>int\<close> of nanoseconds that only moves forward. The port
  probe, the container engine and the clock are arguments or steps of the environment. The locale
  \<open>slot_picker\<close> is the contract of \<open>provider.SlotPicker\<close>.
\<close>

section \<open>Slots and ports of the docker provider\<close>

definition publicBase :: int where "publicBase = 20000"
definition backingBase :: int where "backingBase = 30000"
definition blockSize :: int where "blockSize = 20"
definition maxSlots :: nat where "maxSlots = 128"

datatype slot_error = All_slots_used | List_failed string | Lock_failed string | Create_failed string | Gone

text \<open>\<open>free\<close> is the probe \<open>slotPortsFree\<close>, \<open>bindable\<close> says which ports can be bound.\<close>

definition PortRanges :: "int \<times> int \<times> int \<times> int" where
  "PortRanges = (publicBase, publicBase + int maxSlots * blockSize, backingBase, backingBase + int maxSlots * blockSize)"

definition slotPortsFree :: "(int \<Rightarrow> bool) \<Rightarrow> nat \<Rightarrow> bool" where
  "slotPortsFree bindable slot = list_all (\<lambda>base. list_all (\<lambda>i. bindable (base + int slot * blockSize + i)) [0, 1, 2])
     [backingBase, publicBase]"

fun pick_from :: "(nat \<Rightarrow> bool) \<Rightarrow> (nat \<Rightarrow> bool) \<Rightarrow> nat list \<Rightarrow> (slot_error, nat) res" where
  "pick_from free taken [] = Inl All_slots_used"
| "pick_from free taken (i # is) = (if taken i then pick_from free taken is
     else if \<not> free i then pick_from free taken is else Inr i)"

definition PickSlot :: "(int \<Rightarrow> bool) \<Rightarrow> (nat \<Rightarrow> bool) \<Rightarrow> (slot_error, nat) res" where
  "PickSlot bindable taken = pick_from (slotPortsFree bindable) taken [0..<maxSlots]"

text \<open>\<open>own\<close> is the slot the sandbox already has; \<open>units\<close> what the engine lists.\<close>

definition AllocSlot :: "(int \<Rightarrow> bool) \<Rightarrow> nat option \<Rightarrow> (string, nat list) res \<Rightarrow> (slot_error, nat) res" where
  "AllocSlot bindable own units = (case own of Some s \<Rightarrow> Inr s
     | None \<Rightarrow> (case units of Inl e \<Rightarrow> Inl (List_failed e) | Inr us \<Rightarrow> PickSlot bindable (\<lambda>i. i \<in> set us)))"

definition Endpoints :: "nat \<Rightarrow> nat \<Rightarrow> int list \<Rightarrow> int list" where
  "Endpoints slot startIndex containerPorts =
     map (\<lambda>i. publicBase + int slot * blockSize + int startIndex + int i) [0..<length containerPorts]"

section \<open>Reservations\<close>

definition slotGrace :: int where "slotGrace = 60000000000"

text \<open>
  Where one create is: not started; holding a list, made at some time; its slot chosen; its container
  there, the reservation not yet settled; settled, at some time; ended without a container. The
  reservation of a slot is \<open>Some None\<close> while a create is in flight and \<open>Some (Some until)\<close> after it.
\<close>

datatype job = Waiting | Listed "nat list" int | Picked nat | Running nat | Settled nat int | Ended

record slots =
  sl_now :: int
  sl_reserved :: "nat \<Rightarrow> int option option"
  sl_units :: "nat list"
  sl_job :: "nat \<Rightarrow> job"

definition swept :: "slots \<Rightarrow> nat \<Rightarrow> int option option" where
  "swept s slot = (case sl_reserved s slot of
      Some (Some until) \<Rightarrow> if sl_now s > until then None else Some (Some until)
    | r \<Rightarrow> r)"

definition taken :: "slots \<Rightarrow> nat list \<Rightarrow> nat \<Rightarrow> bool" where
  "taken s units i = (swept s i \<noteq> None \<or> i \<in> set units)"

definition set_job :: "nat \<Rightarrow> job \<Rightarrow> slots \<Rightarrow> slots" where
  "set_job j x s = s\<lparr>sl_job := (sl_job s)(j := x)\<rparr>"

definition list_units :: "nat \<Rightarrow> slots \<Rightarrow> slots option" where
  "list_units j s = (if sl_job s j = Waiting then Some (set_job j (Listed (sl_units s) (sl_now s)) s) else None)"

text \<open>A create ends without a slot when its context ends, its list fails or it does not get the lock.\<close>

definition give_up :: "nat \<Rightarrow> slots \<Rightarrow> slots option" where
  "give_up j s = (case sl_job s j of Waiting \<Rightarrow> Some (set_job j Ended s) | Listed _ _ \<Rightarrow> Some (set_job j Ended s) | _ \<Rightarrow> None)"

text \<open>The choice, under the machine's slot lock and \<open>slotMu\<close>: expired reservations go, what is
  reserved or listed is taken, and the slot picked is reserved with no expiry.\<close>

definition choose_slot :: "((nat \<Rightarrow> bool) \<Rightarrow> (slot_error, nat) res) \<Rightarrow> nat \<Rightarrow> slots \<Rightarrow> slots option" where
  "choose_slot picker j s = (case sl_job s j of
      Listed units at \<Rightarrow> (let s1 = s\<lparr>sl_reserved := swept s\<rparr> in
        case picker (taken s units) of
          Inl _ \<Rightarrow> Some (set_job j Ended s1)
        | Inr slot \<Rightarrow> Some (set_job j (Picked slot) (s1\<lparr>sl_reserved := (swept s)(slot := Some None)\<rparr>)))
    | _ \<Rightarrow> None)"

definition create :: "bool \<Rightarrow> nat \<Rightarrow> slots \<Rightarrow> slots option" where
  "create ok j s = (case sl_job s j of
      Picked slot \<Rightarrow> if ok then Some (set_job j (Running slot) (s\<lparr>sl_units := slot # sl_units s\<rparr>))
        else Some (set_job j Ended (s\<lparr>sl_reserved := (sl_reserved s)(slot := None)\<rparr>))
    | _ \<Rightarrow> None)"

definition settle :: "nat \<Rightarrow> slots \<Rightarrow> slots option" where
  "settle j s = (case sl_job s j of
      Running slot \<Rightarrow> Some (set_job j (Settled slot (sl_now s))
        (s\<lparr>sl_reserved := (sl_reserved s)(slot := Some (Some (sl_now s + slotGrace)))\<rparr>))
    | _ \<Rightarrow> None)"

definition remove :: "nat \<Rightarrow> slots \<Rightarrow> slots option" where
  "remove j s = (case sl_job s j of
      Settled slot _ \<Rightarrow> Some (set_job j Ended (s\<lparr>sl_units := remove1 slot (sl_units s)\<rparr>))
    | _ \<Rightarrow> None)"

text \<open>The steps of a server, with the bound \<open>age\<close> on how old a list may be when the choice is made.\<close>

inductive slot_step :: "((nat \<Rightarrow> bool) \<Rightarrow> (slot_error, nat) res) \<Rightarrow> int option \<Rightarrow> slots \<Rightarrow> slots \<Rightarrow> bool" for picker age where
  lists: "list_units j s = Some s' \<Longrightarrow> slot_step picker age s s'"
| chooses: "choose_slot picker j s = Some s' \<Longrightarrow> sl_job s j = Listed units at \<Longrightarrow>
     (\<forall>a. age = Some a \<longrightarrow> sl_now s - at \<le> a) \<Longrightarrow> slot_step picker age s s'"
| gives_up: "give_up j s = Some s' \<Longrightarrow> slot_step picker age s s'"
| creates: "create ok j s = Some s' \<Longrightarrow> slot_step picker age s s'"
| settles: "settle j s = Some s' \<Longrightarrow> slot_step picker age s s'"
| removes: "remove j s = Some s' \<Longrightarrow> slot_step picker age s s'"
| ticks: "0 \<le> dt \<Longrightarrow> slot_step picker age s (s\<lparr>sl_now := sl_now s + dt\<rparr>)"

definition slots_start :: "slots \<Rightarrow> bool" where
  "slots_start s = (sl_reserved s = (\<lambda>_. None) \<and> sl_units s = [] \<and> sl_job s = (\<lambda>_. Waiting))"

definition slot_of :: "job \<Rightarrow> nat option" where
  "slot_of x = (case x of Picked i \<Rightarrow> Some i | Running i \<Rightarrow> Some i | Settled i _ \<Rightarrow> Some i | _ \<Rightarrow> None)"

section \<open>The contract of a slot picker\<close>

text \<open>
  The contract of \<open>provider.SlotPicker\<close>: a slot that is returned was not taken. That is all
  \<open>createPicked\<close> needs for two creates of one server never to have the same slot, as long as no list
  is older than the grace of a reservation when the choice is made.
\<close>

locale slot_picker =
  fixes picker :: "(nat \<Rightarrow> bool) \<Rightarrow> (slot_error, nat) res"
  assumes picked_free: "picker tk = Inr i \<Longrightarrow> \<not> tk i"

text \<open>
  The invariant: a create with a slot has it reserved, without an expiry until it settles and then
  for the grace; a list that lacks the slot of a settled create was made before it settled; and no
  two creates have one slot.
\<close>

definition reserved_for :: "slots \<Rightarrow> job \<Rightarrow> bool" where
  "reserved_for s x = (case x of
      Picked i \<Rightarrow> sl_reserved s i = Some None
    | Running i \<Rightarrow> sl_reserved s i = Some None
    | Settled i t \<Rightarrow> t \<le> sl_now s \<and> (sl_now s \<le> t + slotGrace \<longrightarrow> sl_reserved s i = Some (Some (t + slotGrace)))
    | _ \<Rightarrow> True)"

definition knows :: "job \<Rightarrow> job \<Rightarrow> slots \<Rightarrow> bool" where
  "knows l x s = (case l of Listed units at \<Rightarrow> at \<le> sl_now s \<and>
      (case x of Settled i t \<Rightarrow> i \<in> set units \<or> at \<le> t | _ \<Rightarrow> True) | _ \<Rightarrow> True)"

definition listed_there :: "slots \<Rightarrow> job \<Rightarrow> bool" where
  "listed_there s x = (case x of Running i \<Rightarrow> i \<in> set (sl_units s) | Settled i _ \<Rightarrow> i \<in> set (sl_units s) | _ \<Rightarrow> True)"

definition slots_inv :: "slots \<Rightarrow> bool" where
  "slots_inv s = ((\<forall>j. reserved_for s (sl_job s j)) \<and> (\<forall>j k. knows (sl_job s j) (sl_job s k) s) \<and>
     (\<forall>j. listed_there s (sl_job s j)) \<and>
     (\<forall>j k. j \<noteq> k \<longrightarrow> slot_of (sl_job s j) \<noteq> None \<longrightarrow> slot_of (sl_job s j) \<noteq> slot_of (sl_job s k)))"

lemma slots_invD:
  assumes "slots_inv s"
  shows "reserved_for s (sl_job s j)" "knows (sl_job s j) (sl_job s k) s" "listed_there s (sl_job s j)"
    "j \<noteq> k \<Longrightarrow> slot_of (sl_job s j) = Some i \<Longrightarrow> slot_of (sl_job s k) \<noteq> Some i"
  using assms unfolding slots_inv_def 
  by (simp, simp, simp, metis option.distinct(1))

text \<open>A step that changes one create: the others keep their reservation, the list and its age.\<close>

lemma slots_invI:
  assumes inv: "slots_inv s" and jobs: "\<And>k. k \<noteq> j \<Longrightarrow> sl_job s' k = sl_job s k"
    and others: "\<And>k. k \<noteq> j \<Longrightarrow> reserved_for s' (sl_job s k) \<and> listed_there s' (sl_job s k)"
    and own: "reserved_for s' (sl_job s' j)" "listed_there s' (sl_job s' j)"
    and knows: "\<And>k. knows (sl_job s' j) (sl_job s' k) s'" "\<And>k. k \<noteq> j \<Longrightarrow> knows (sl_job s k) (sl_job s' j) s'"
    and now: "sl_now s' = sl_now s"
    and slot: "\<And>k i. k \<noteq> j \<Longrightarrow> slot_of (sl_job s' j) = Some i \<Longrightarrow> slot_of (sl_job s k) \<noteq> Some i"
  shows "slots_inv s'"
proof -
  have kn: "knows l x s' = knows l x s" for l x by (simp add: knows_def now split: job.splits)
  have 1: "reserved_for s' (sl_job s' k)" for k using own others [of k] jobs [of k] by (cases "k = j") auto
  have 2: "listed_there s' (sl_job s' k)" for k using own others [of k] jobs [of k] by (cases "k = j") auto
  have 3: "knows (sl_job s' k) (sl_job s' l) s'" for k l
  proof (cases "k = j")
    case True
    then show ?thesis using knows(1) by simp
  next
    case False
    show ?thesis using knows(2) [OF False] jobs [OF False] jobs [of l] slots_invD(2) [OF inv, of k l] kn
      by (cases "l = j") simp_all
  qed
  have 4: "slot_of (sl_job s' k) \<noteq> slot_of (sl_job s' l)" if "k \<noteq> l" "slot_of (sl_job s' k) \<noteq> None" for k l
  proof -
    from that(2) obtain i where i: "slot_of (sl_job s' k) = Some i" by auto
    have "slot_of (sl_job s' l) \<noteq> Some i"
    proof (cases "k = j")
      case True
      then show ?thesis using slot [of l i] jobs [of l] i that(1) by simp
    next
      case False
      note kj = jobs [OF False]
      show ?thesis
      proof (cases "l = j")
        case True
        then show ?thesis using slot [of k i] False i kj by auto
      next
        case lj: False
        show ?thesis using slots_invD(4) [OF inv that(1)] i kj jobs [OF lj] by simp
      qed
    qed
    then show ?thesis using i by simp
  qed
  show ?thesis unfolding slots_inv_def using 1 2 3 4 by simp
qed

lemma swept_le: "swept s i = None \<or> swept s i = sl_reserved s i"
  by (auto simp: swept_def split: option.splits)

text \<open>Sweeping removes no reservation that a create still relies on.\<close>

lemma reserved_for_swept: "reserved_for s x \<Longrightarrow> reserved_for (s\<lparr>sl_reserved := swept s\<rparr>) x"
  by (auto simp: reserved_for_def swept_def split: job.splits option.splits)

lemma reserved_swept:
  assumes "reserved_for s x" "slot_of x = Some i" "\<And>i t. x = Settled i t \<Longrightarrow> sl_now s \<le> t + slotGrace"
  shows "swept s i \<noteq> None"
  using assms by (cases x) (auto simp: reserved_for_def slot_of_def swept_def)

lemma set_job_simps [simp]:
  "sl_job (set_job j x s) = (sl_job s)(j := x)" "sl_now (set_job j x s) = sl_now s"
  "sl_reserved (set_job j x s) = sl_reserved s" "sl_units (set_job j x s) = sl_units s"
  by (simp_all add: set_job_def)

lemma slot_of_simps [simp]:
  "slot_of (Listed u at) = None" "slot_of Waiting = None" "slot_of Ended = None"
  "slot_of (Picked i) = Some i" "slot_of (Running i) = Some i" "slot_of (Settled i t) = Some i"
  by (simp_all add: slot_of_def)

lemma list_units_inv:
  assumes "slots_inv s" "list_units j s = Some s'"
  shows "slots_inv s'"
proof -
  have s': "s' = set_job j (Listed (sl_units s) (sl_now s)) s" and w: "sl_job s j = Waiting"
    using assms(2) by (auto simp: list_units_def split: if_splits)
  show ?thesis
  proof (rule slots_invI [OF assms(1), where j = j])
    fix k assume "k \<noteq> j"
    show "reserved_for s' (sl_job s k) \<and> listed_there s' (sl_job s k)"
      using slots_invD(1,3) [OF assms(1), of k] by (simp add: s' reserved_for_def listed_there_def split: job.splits)
    show "knows (sl_job s k) (sl_job s' j) s'"
      using slots_invD(2) [OF assms(1), of k j] w by (simp add: s' knows_def split: job.splits)
  next
    fix k show "knows (sl_job s' j) (sl_job s' k) s'"
      using slots_invD(3) [OF assms(1), of k] by (auto simp: s' knows_def listed_there_def split: job.splits)
  qed (simp_all add: s' reserved_for_def listed_there_def)
qed


lemma others_keep:
  assumes inv: "slots_inv s" and k: "k \<noteq> j" and own: "slot_of (sl_job s j) = Some i"
    and r: "\<And>l. l \<noteq> i \<Longrightarrow> sl_reserved s' l = sl_reserved s l" and now: "sl_now s' = sl_now s"
  shows "reserved_for s' (sl_job s k)"
proof -
  have "slot_of (sl_job s k) \<noteq> Some i" using slots_invD(4) [OF inv k [symmetric]] own by simp
  then show ?thesis using slots_invD(1) [OF inv, of k] r now by (auto simp: reserved_for_def split: job.splits)
qed

lemma give_up_inv:
  assumes inv: "slots_inv s" and c: "give_up j s = Some s'"
  shows "slots_inv s'"
proof -
  have s': "s' = set_job j Ended s" using c by (auto simp: give_up_def split: job.splits)
  show ?thesis
  proof (rule slots_invI [OF inv, where j = j])
    fix k assume k: "k \<noteq> j"
    show "reserved_for s' (sl_job s k) \<and> listed_there s' (sl_job s k)"
      using slots_invD(1,3) [OF inv, of k] by (simp add: s' reserved_for_def listed_there_def split: job.splits)
    show "knows (sl_job s k) (sl_job s' j) s'"
      using slots_invD(2) [OF inv, of k j] by (simp add: s' knows_def split: job.splits)
  qed (simp_all add: s' reserved_for_def listed_there_def knows_def)
qed

lemma create_inv:
  assumes inv: "slots_inv s" and c: "create ok j s = Some s'"
  shows "slots_inv s'"
proof -
  obtain i where i: "sl_job s j = Picked i" using c by (auto simp: create_def split: job.splits)
  have own: "slot_of (sl_job s j) = Some i" by (simp add: i)
  note free = slots_invD(4) [OF inv _ own]
  show ?thesis
  proof (cases ok)
    case True
    then have s': "s' = set_job j (Running i) (s\<lparr>sl_units := i # sl_units s\<rparr>)" using c i by (simp add: create_def)
    show ?thesis
    proof (rule slots_invI [OF inv, where j = j])
      fix k assume k: "k \<noteq> j"
      show "reserved_for s' (sl_job s k) \<and> listed_there s' (sl_job s k)"
        using slots_invD(3) [OF inv, of k] others_keep [OF inv k own, of s']
        by (simp add: s' listed_there_def split: job.splits)
      show "knows (sl_job s k) (sl_job s' j) s'"
        using slots_invD(2) [OF inv, of k j] by (simp add: s' knows_def split: job.splits)
      fix l assume "slot_of (sl_job s' j) = Some l"
      then show "slot_of (sl_job s k) \<noteq> Some l" using free [OF k [symmetric]] by (simp add: s')
    qed (use slots_invD(1) [OF inv, of j] i in \<open>simp_all add: s' reserved_for_def listed_there_def knows_def\<close>)
  next
    case False
    then have s': "s' = set_job j Ended (s\<lparr>sl_reserved := (sl_reserved s)(i := None)\<rparr>)" using c i by (simp add: create_def)
    show ?thesis
    proof (rule slots_invI [OF inv, where j = j])
      fix k assume k: "k \<noteq> j"
      show "reserved_for s' (sl_job s k) \<and> listed_there s' (sl_job s k)"
        using slots_invD(3) [OF inv, of k] others_keep [OF inv k own, of s']
        by (simp add: s' listed_there_def split: job.splits)
      show "knows (sl_job s k) (sl_job s' j) s'"
        using slots_invD(2) [OF inv, of k j] by (simp add: s' knows_def split: job.splits)
    qed (simp_all add: s' reserved_for_def listed_there_def knows_def)
  qed
qed

lemma settle_inv:
  assumes inv: "slots_inv s" and c: "settle j s = Some s'"
  shows "slots_inv s'"
proof -
  obtain i where i: "sl_job s j = Running i" using c by (auto simp: settle_def split: job.splits)
  have own: "slot_of (sl_job s j) = Some i" by (simp add: i)
  have s': "s' = set_job j (Settled i (sl_now s)) (s\<lparr>sl_reserved := (sl_reserved s)(i := Some (Some (sl_now s + slotGrace)))\<rparr>)"
    using c i by (simp add: settle_def)
  show ?thesis
  proof (rule slots_invI [OF inv, where j = j])
    fix k assume k: "k \<noteq> j"
    show "reserved_for s' (sl_job s k) \<and> listed_there s' (sl_job s k)"
      using slots_invD(3) [OF inv, of k] others_keep [OF inv k own, of s']
      by (simp add: s' listed_there_def split: job.splits)
    show "knows (sl_job s k) (sl_job s' j) s'"
      using slots_invD(2) [OF inv, of k j] by (simp add: s' knows_def split: job.splits)
    fix l assume "slot_of (sl_job s' j) = Some l"
    then show "slot_of (sl_job s k) \<noteq> Some l" using slots_invD(4) [OF inv k [symmetric] own] by (simp add: s')
  qed (use slots_invD(3) [OF inv, of j] i in \<open>simp_all add: s' reserved_for_def listed_there_def knows_def\<close>)
qed

lemma remove_inv:
  assumes inv: "slots_inv s" and c: "remove j s = Some s'"
  shows "slots_inv s'"
proof -
  obtain i t where i: "sl_job s j = Settled i t" using c by (auto simp: remove_def split: job.splits)
  have own: "slot_of (sl_job s j) = Some i" by (simp add: i)
  have s': "s' = set_job j Ended (s\<lparr>sl_units := remove1 i (sl_units s)\<rparr>)" using c i by (simp add: remove_def)
  show ?thesis
  proof (rule slots_invI [OF inv, where j = j])
    fix k assume k: "k \<noteq> j"
    have "slot_of (sl_job s k) \<noteq> Some i" using slots_invD(4) [OF inv k [symmetric] own] .
    then have "listed_there s' (sl_job s k)"
      using slots_invD(3) [OF inv, of k] by (auto simp: s' listed_there_def split: job.splits)
    moreover have "reserved_for s' (sl_job s k)" by (rule others_keep [OF inv k own]) (simp_all add: s')
    ultimately show "reserved_for s' (sl_job s k) \<and> listed_there s' (sl_job s k)" by simp
    show "knows (sl_job s k) (sl_job s' j) s'"
      using slots_invD(2) [OF inv, of k j] by (simp add: s' knows_def split: job.splits)
  qed (simp_all add: s' reserved_for_def listed_there_def knows_def)
qed

lemma tick_inv:
  assumes inv: "slots_inv s" and dt: "0 \<le> dt"
  shows "slots_inv (s\<lparr>sl_now := sl_now s + dt\<rparr>)"
proof -
  have 1: "reserved_for s x \<Longrightarrow> reserved_for (s\<lparr>sl_now := sl_now s + dt\<rparr>) x" for x
    using dt by (auto simp: reserved_for_def split: job.splits)
  have 2: "knows l x s \<Longrightarrow> knows l x (s\<lparr>sl_now := sl_now s + dt\<rparr>)" for l x
    using dt by (auto simp: knows_def split: job.splits)
  have 3: "listed_there (s\<lparr>sl_now := sl_now s + dt\<rparr>) x = listed_there s x" for x
    by (simp add: listed_there_def split: job.splits)
  show ?thesis using inv 1 2 unfolding slots_inv_def by (simp add: 3)
qed


context slot_picker
begin

lemma choose_inv:
  assumes inv: "slots_inv s" and c: "choose_slot picker j s = Some s'" and l: "sl_job s j = Listed units at"
    and age: "sl_now s - at \<le> slotGrace"
  shows "slots_inv s'"
proof (cases "picker (taken s units)")
  case (Inl e)
  then have s': "s' = set_job j Ended (s\<lparr>sl_reserved := swept s\<rparr>)" using c l by (simp add: choose_slot_def Let_def)
  show ?thesis
  proof (rule slots_invI [OF inv, where j = j])
    fix k assume k: "k \<noteq> j"
    show "reserved_for s' (sl_job s k) \<and> listed_there s' (sl_job s k)"
      using slots_invD(3) [OF inv, of k] reserved_for_swept [OF slots_invD(1) [OF inv, of k]]
      by (simp add: s' listed_there_def reserved_for_def split: job.splits)
    show "knows (sl_job s k) (sl_job s' j) s'"
      using slots_invD(2) [OF inv, of k j] by (simp add: s' knows_def split: job.splits)
  qed (simp_all add: s' reserved_for_def listed_there_def knows_def)
next
  case (Inr i)
  then have s': "s' = set_job j (Picked i) (s\<lparr>sl_reserved := (swept s)(i := Some None)\<rparr>)"
    using c l by (simp add: choose_slot_def Let_def)
  have free: "swept s i = None" "i \<notin> set units" using picked_free [OF Inr] by (auto simp: taken_def)
  have other: "slot_of (sl_job s k) \<noteq> Some i" if k: "k \<noteq> j" for k
  proof
    assume own: "slot_of (sl_job s k) = Some i"
    have "sl_now s \<le> t + slotGrace" if "sl_job s k = Settled l t" for l t
      using slots_invD(2) [OF inv, of j k] that own free(2) age by (simp add: knows_def assms(3))
    then show False using reserved_swept [OF slots_invD(1) [OF inv, of k] own] free(1) by simp
  qed
  show ?thesis
  proof (rule slots_invI [OF inv, where j = j])
    fix k assume k: "k \<noteq> j"
    show "reserved_for s' (sl_job s k) \<and> listed_there s' (sl_job s k)"
      using slots_invD(3) [OF inv, of k] reserved_for_swept [OF slots_invD(1) [OF inv, of k]] other [OF k]
      by (simp add: s' listed_there_def reserved_for_def split: job.splits)
    show "knows (sl_job s k) (sl_job s' j) s'"
      using slots_invD(2) [OF inv, of k j] by (simp add: s' knows_def split: job.splits)
    show "slot_of (sl_job s k) \<noteq> Some l" if "slot_of (sl_job s' j) = Some l" for l
      using that other [OF k] by (simp add: s')
  qed (simp_all add: s' reserved_for_def listed_there_def knows_def)
qed

lemma slot_step_inv:
  assumes "slots_inv s" "slot_step picker (Some slotGrace) s t"
  shows "slots_inv t"
  using assms(2)
proof cases
  case (chooses j units at)
  then show ?thesis using choose_inv [OF assms(1)] by simp
qed (use assms(1) list_units_inv give_up_inv create_inv settle_inv remove_inv tick_inv in blast)+

end

lemma slots_start_inv: "slots_start s \<Longrightarrow> slots_inv s"
  by (simp add: slots_start_def slots_inv_def reserved_for_def knows_def listed_there_def)

sublocale slot_picker \<subseteq> no_sharing: invariant_system slots_start "slot_step picker (Some slotGrace)" slots_inv
  by unfold_locales (auto intro: slots_start_inv slot_step_inv)

section \<open>The docker provider as a picker\<close>

lemma pick_from_find: "pick_from free tk is = (case find (\<lambda>i. \<not> tk i \<and> free i) is of
    None \<Rightarrow> Inl All_slots_used | Some i \<Rightarrow> Inr i)"
  by (induction "is") auto

lemma case_option_res [simp]:
  "(case x of None \<Rightarrow> Inl a | Some i \<Rightarrow> Inr i) = Inr b \<longleftrightarrow> x = Some b"
  "(case x of None \<Rightarrow> Inl a | Some i \<Rightarrow> Inr i) = Inl c \<longleftrightarrow> x = None \<and> c = a"
  by (auto split: option.splits)

lemma PickSlot_Inr: "PickSlot bindable tk = Inr i \<longleftrightarrow>
    i < maxSlots \<and> \<not> tk i \<and> slotPortsFree bindable i \<and> (\<forall>k < i. tk k \<or> \<not> slotPortsFree bindable k)"
proof
  assume "i < maxSlots \<and> \<not> tk i \<and> slotPortsFree bindable i \<and> (\<forall>k < i. tk k \<or> \<not> slotPortsFree bindable k)"
  then show "PickSlot bindable tk = Inr i" by (simp add: PickSlot_def pick_from_find find_Some_iff exI [of _ i])
qed (auto simp: PickSlot_def pick_from_find find_Some_iff)

lemma PickSlot_Inl: "PickSlot bindable tk = Inl e \<longleftrightarrow>
    e = All_slots_used \<and> (\<forall>k < maxSlots. tk k \<or> \<not> slotPortsFree bindable k)"
  by (auto simp: PickSlot_def pick_from_find find_None_iff)

interpretation docker: slot_picker "PickSlot bindable" for bindable
  by unfold_locales (simp add: PickSlot_Inr)

text \<open>
  (C23) Two creates of one server never have the same slot: not while a container is being made, not
  after, and whatever the port probe says, in every interleaving of their steps in which no list is
  older than \<open>slotGrace\<close> when the choice is made.
\<close>

theorem creates_never_share:
  assumes "reach slots_start (slot_step (PickSlot bindable) (Some slotGrace)) s" "j \<noteq> k"
    "slot_of (sl_job s j) = Some i"
  shows "slot_of (sl_job s k) \<noteq> Some i"
  by (rule slots_invD(4) [OF docker.no_sharing.reach_inv [OF assms(1)] assms(2,3)])

text \<open>An idle server at time 0, and a run of its steps on it.\<close>

definition slots_zero :: slots where
  "slots_zero = \<lparr>sl_now = 0, sl_reserved = \<lambda>_. None, sl_units = [], sl_job = \<lambda>_. Waiting\<rparr>"

datatype slot_op = Lists nat | Chooses nat | Creates bool nat | Settles nat | Removes nat | Ticks int

definition do_op :: "((nat \<Rightarrow> bool) \<Rightarrow> (slot_error, nat) res) \<Rightarrow> slots \<Rightarrow> slot_op \<Rightarrow> slots" where
  "do_op picker s x = (case (case x of Lists j \<Rightarrow> list_units j s | Chooses j \<Rightarrow> choose_slot picker j s
      | Creates ok j \<Rightarrow> create ok j s | Settles j \<Rightarrow> settle j s | Removes j \<Rightarrow> remove j s
      | Ticks dt \<Rightarrow> Some (s\<lparr>sl_now := sl_now s + max 0 dt\<rparr>)) of None \<Rightarrow> s | Some s' \<Rightarrow> s')"

definition in_time :: "int option \<Rightarrow> slots \<Rightarrow> slot_op \<Rightarrow> bool" where
  "in_time age s x = (case x of Chooses j \<Rightarrow> (case sl_job s j of Listed _ at \<Rightarrow>
      (case age of None \<Rightarrow> True | Some a \<Rightarrow> sl_now s - at \<le> a) | _ \<Rightarrow> True) | _ \<Rightarrow> True)"

fun run_ops :: "((nat \<Rightarrow> bool) \<Rightarrow> (slot_error, nat) res) \<Rightarrow> int option \<Rightarrow> slots \<Rightarrow> slot_op list \<Rightarrow> slots" where
  "run_ops picker age s [] = s"
| "run_ops picker age s (x # xs) = (if in_time age s x then run_ops picker age (do_op picker s x) xs else s)"

lemma choose_slot_listed: "choose_slot picker j s = Some s' \<Longrightarrow> \<exists>units at. sl_job s j = Listed units at"
  by (simp add: choose_slot_def split: job.splits)

lemma do_op_reach:
  assumes "reach slots_start (slot_step picker age) s" "in_time age s x"
  shows "reach slots_start (slot_step picker age) (do_op picker s x)"
proof -
  have "do_op picker s x = s \<or> slot_step picker age s (do_op picker s x)"
  proof (cases x)
    case (Chooses j)
    show ?thesis
    proof (cases "choose_slot picker j s")
      case (Some s')
      moreover obtain units at where l: "sl_job s j = Listed units at" using choose_slot_listed [OF Some] by auto
      moreover have "age = Some a \<longrightarrow> sl_now s - at \<le> a" for a using assms(2) l by (auto simp: in_time_def Chooses)
      ultimately show ?thesis by (auto simp: do_op_def Chooses intro: slot_step.chooses)
    qed (simp add: do_op_def Chooses)
  qed (auto simp: do_op_def intro: slot_step.intros split: option.splits)
  then show ?thesis using assms(1) by (auto intro: reach_step)
qed

lemma run_ops_reach:
  "reach slots_start (slot_step picker age) s \<Longrightarrow> reach slots_start (slot_step picker age) (run_ops picker age s xs)"
  by (induction xs arbitrary: s) (simp_all add: do_op_reach)

lemma zero_reach: "reach slots_start (slot_step picker age) slots_zero"
  by (rule reach_init) (simp add: slots_start_def slots_zero_def)

text \<open>Two creates on one list get slots 0 and 1, and one that ran before the other settled keeps its own.\<close>

theorem creates_never_share_witness:
  "let s = run_ops (PickSlot (\<lambda>_. True)) (Some slotGrace) slots_zero
       [Lists 0, Lists 1, Chooses 0, Creates True 0, Settles 0, Chooses 1] in
   slot_of (sl_job s 0) = Some 0 \<and> slot_of (sl_job s 1) = Some 1 \<and> slot_of (sl_job s 1) \<noteq> Some 0"
proof -
  let ?s = "run_ops (PickSlot (\<lambda>_. True)) (Some slotGrace) slots_zero
       [Lists 0, Lists 1, Chooses 0, Creates True 0, Settles 0, Chooses 1]"
  have 0: "slot_of (sl_job ?s 0) = Some 0" by code_simp
  have 1: "slot_of (sl_job ?s 1) = Some 1" by code_simp
  show ?thesis
    using 0 1 creates_never_share [OF run_ops_reach [OF zero_reach], where j = 0 and k = 1 and i = 0]
    by (simp add: Let_def)
qed

text \<open>
  The bound is needed: a create that waits more than the grace for the slot lock, which \<open>Acquire\<close>
  lets it do, chooses from a list that no reservation makes up for, and only the port probe stands
  between it and the slot of another create.
\<close>

theorem old_list_shares:
  "\<exists>s. reach slots_start (slot_step (PickSlot (\<lambda>_. True)) None) s \<and>
     slot_of (sl_job s 0) = Some 0 \<and> slot_of (sl_job s 1) = Some 0"
proof -
  let ?s = "run_ops (PickSlot (\<lambda>_. True)) None slots_zero
       [Lists 0, Lists 1, Chooses 0, Creates True 0, Settles 0, Ticks 60000000001, Chooses 1]"
  have "slot_of (sl_job ?s 0) = Some 0" "slot_of (sl_job ?s 1) = Some 0" by code_simp+
  then show ?thesis using run_ops_reach [OF zero_reach] by blast
qed

end
