(* ===== verification/Osb_Coalesce.thy ===== *)
theory Osb_Coalesce
  imports Sbx_Prelude
begin

text \<open>
  The coalescer of container lists, \<^verbatim>\<open>internal/osb/coalesce.go\<close>: callers that arrive while a list is
  in flight share the next one. The state is the coalescer's (\<open>next\<close> as the callers that wait on it,
  \<open>running\<close> as whether the loop goroutine lives) with the call in flight and, as history, when each
  caller asked and what it got. Callers and the loop take turns in any order; a step of either is one
  hold of \<open>mu\<close> or the end of a list call. Every step takes one tick of \<open>co_now\<close>.
\<close>

section \<open>State and steps\<close>

datatype 'u list_result = Listed_units 'u | List_error string | Ctx_done

record 'u coalescer =
  co_now :: nat
  co_next :: "nat list option"
  co_running :: bool
  co_busy :: "(nat list \<times> nat) option"
  co_asked :: "nat \<Rightarrow> nat option"
  co_got :: "nat \<Rightarrow> (nat \<times> 'u list_result) option"
  co_left :: "nat \<Rightarrow> bool"

definition co_units :: "nat \<Rightarrow> 'u coalescer \<Rightarrow> 'u coalescer option" where
  "co_units j s = (if co_asked s j \<noteq> None then None
     else Some (s\<lparr>co_now := co_now s + 1, co_asked := (co_asked s)(j \<mapsto> co_now s),
       co_next := Some (j # (case co_next s of None \<Rightarrow> [] | Some w \<Rightarrow> w)), co_running := True\<rparr>))"

text \<open>A caller whose context ends leaves with the context's error; its call goes on.\<close>

definition co_leave :: "nat \<Rightarrow> 'u coalescer \<Rightarrow> 'u coalescer option" where
  "co_leave j s = (if co_asked s j \<noteq> None \<and> co_got s j = None
     then Some (s\<lparr>co_now := co_now s + 1, co_left := (co_left s)(j := True)\<rparr>) else None)"

text \<open>The loop: it takes the next call, or ends when nobody waits; the list call ends with \<open>r\<close> and
  \<open>close(call.done)\<close> hands it to every caller of the batch.\<close>

definition loop_take :: "'u coalescer \<Rightarrow> 'u coalescer option" where
  "loop_take s = (if co_running s \<and> co_busy s = None then Some (case co_next s of
      None \<Rightarrow> s\<lparr>co_now := co_now s + 1, co_running := False\<rparr>
    | Some w \<Rightarrow> s\<lparr>co_now := co_now s + 1, co_next := None, co_busy := Some (w, co_now s)\<rparr>) else None)"

definition loop_done :: "'u list_result \<Rightarrow> 'u coalescer \<Rightarrow> 'u coalescer option" where
  "loop_done r s = (case co_busy s of None \<Rightarrow> None
     | Some (w, b) \<Rightarrow> Some (s\<lparr>co_now := co_now s + 1, co_busy := None,
         co_got := (\<lambda>j. if j \<in> set w then Some (b, r) else co_got s j)\<rparr>))"

inductive co_step :: "'u coalescer \<Rightarrow> 'u coalescer \<Rightarrow> bool" where
  asks: "co_units j s = Some s' \<Longrightarrow> co_step s s'"
| leaves: "co_leave j s = Some s' \<Longrightarrow> co_step s s'"
| takes: "loop_take s = Some s' \<Longrightarrow> co_step s s'"
| dones: "loop_done r s = Some s' \<Longrightarrow> co_step s s'"

definition co_zero :: "'u coalescer" where
  "co_zero = \<lparr>co_now = 0, co_next = None, co_running = False, co_busy = None,
     co_asked = \<lambda>_. None, co_got = \<lambda>_. None, co_left = \<lambda>_. False\<rparr>"

section \<open>The invariant\<close>

definition next_of :: "'u coalescer \<Rightarrow> nat set" where
  "next_of s = (case co_next s of None \<Rightarrow> {} | Some w \<Rightarrow> set w)"

definition busy_of :: "'u coalescer \<Rightarrow> nat \<Rightarrow> nat set" where
  "busy_of s b = (case co_busy s of None \<Rightarrow> {} | Some (w, b') \<Rightarrow> if b' = b then set w else {})"

text \<open>Somebody waiting means a live loop; a caller that asked waits on the next call, or on one that
  began after it asked, or has the result of one that did.\<close>

definition fresh :: "'u coalescer \<Rightarrow> nat \<Rightarrow> nat \<Rightarrow> bool" where
  "fresh s j b = (\<exists>a < b. co_asked s j = Some a)"

definition co_inv :: "'u coalescer \<Rightarrow> bool" where
  "co_inv s = ((co_next s \<noteq> None \<or> co_busy s \<noteq> None \<longrightarrow> co_running s) \<and>
     (\<forall>j \<in> dom (co_asked s). fresh s j (co_now s)) \<and>
     (\<forall>b. \<forall>j \<in> busy_of s b. fresh s j b) \<and>
     next_of s \<subseteq> dom (co_asked s) \<and>
     (\<forall>j b r. co_got s j = Some (b, r) \<longrightarrow> fresh s j b) \<and>
     dom (co_asked s) \<subseteq> next_of s \<union> (\<Union>b. busy_of s b) \<union> dom (co_got s))"

lemma co_invI:
  assumes "co_next s \<noteq> None \<or> co_busy s \<noteq> None \<Longrightarrow> co_running s"
    "\<And>j. j \<in> dom (co_asked s) \<Longrightarrow> fresh s j (co_now s)" "\<And>j b. j \<in> busy_of s b \<Longrightarrow> fresh s j b"
    "next_of s \<subseteq> dom (co_asked s)" "\<And>j b r. co_got s j = Some (b, r) \<Longrightarrow> fresh s j b"
    "dom (co_asked s) \<subseteq> next_of s \<union> (\<Union>b. busy_of s b) \<union> dom (co_got s)"
  shows "co_inv s"
  unfolding co_inv_def using assms by blast

lemma co_invD:
  assumes "co_inv s"
  shows "co_next s \<noteq> None \<or> co_busy s \<noteq> None \<Longrightarrow> co_running s"
    "j \<in> dom (co_asked s) \<Longrightarrow> fresh s j (co_now s)" "j \<in> busy_of s b \<Longrightarrow> fresh s j b"
    "next_of s \<subseteq> dom (co_asked s)" "co_got s j = Some (b, r) \<Longrightarrow> fresh s j b"
    "dom (co_asked s) \<subseteq> next_of s \<union> (\<Union>b. busy_of s b) \<union> dom (co_got s)"
  using assms unfolding co_inv_def by blast+

lemma fresh_mono: "fresh s j b \<Longrightarrow> b \<le> c \<Longrightarrow> fresh s j c"
  by (auto simp: fresh_def)

lemma co_units_inv:
  assumes inv: "co_inv s" and st: "co_units j s = Some s'"
  shows "co_inv s'"
proof -
  have s': "co_asked s j = None"
    "s' = s\<lparr>co_now := co_now s + 1, co_asked := (co_asked s)(j \<mapsto> co_now s),
       co_next := Some (j # (case co_next s of None \<Rightarrow> [] | Some w \<Rightarrow> w)), co_running := True\<rparr>"
    using st by (auto simp: co_units_def split: if_splits)
  have c: "co_now s' = co_now s + 1" "co_asked s' = (co_asked s)(j \<mapsto> co_now s)" "co_running s'" "co_got s' = co_got s"
    by (simp_all add: s')
  have n: "next_of s' = insert j (next_of s)" by (simp add: s' next_of_def split: option.splits)
  have b: "busy_of s' c = busy_of s c" for c by (simp add: s' busy_of_def)
  have f: "fresh s' k c" if "fresh s k c" for k c using that s'(1) by (auto simp: s' fresh_def)
  have f': "fresh s' j (co_now s')" by (simp add: s' fresh_def)
  show ?thesis
  proof (rule co_invI)
    show "fresh s' k (co_now s')" if "k \<in> dom (co_asked s')" for k
      using that f' fresh_mono [OF f [OF co_invD(2) [OF inv, of k]], of "co_now s'"] by (cases "k = j") (auto simp: c)
  qed (use co_invD [OF inv] f in \<open>auto simp: n b c\<close>)
qed

lemma co_leave_inv:
  assumes inv: "co_inv s" and st: "co_leave j s = Some s'"
  shows "co_inv s'"
proof -
  have s': "s' = s\<lparr>co_now := co_now s + 1, co_left := (co_left s)(j := True)\<rparr>"
    using st by (auto simp: co_leave_def split: if_splits)
  have c: "co_now s' = co_now s + 1" "co_asked s' = co_asked s" "co_running s' = co_running s" "co_got s' = co_got s"
    "co_next s' = co_next s" "co_busy s' = co_busy s"
    by (simp_all add: s')
  have eq: "next_of s' = next_of s" "busy_of s' = busy_of s" "fresh s' = fresh s"
    by (simp_all add: s' next_of_def busy_of_def fresh_def fun_eq_iff)
  show ?thesis
    by (rule co_invI) (use co_invD [OF inv] fresh_mono [of s _ "co_now s" "co_now s + 1"] in \<open>auto simp: eq c\<close>)
qed

lemma loop_take_inv:
  assumes inv: "co_inv s" and st: "loop_take s = Some s'"
  shows "co_inv s'"
proof -
  have b: "co_busy s = None" "busy_of s c = {}" for c
    using st by (auto simp: loop_take_def busy_of_def split: if_splits)
  have s': "co_asked s' = co_asked s" "co_now s' = co_now s + 1" "co_got s' = co_got s" "next_of s' = {}"
    "(\<Union>c. busy_of s' c) = next_of s" "co_next s' = None" "co_busy s' \<noteq> None \<Longrightarrow> co_running s'"
    using st by (auto simp: loop_take_def next_of_def busy_of_def b split: if_splits option.splits)
  have f: "fresh s' = fresh s" by (simp add: fresh_def s' fun_eq_iff)
  have nb: "c = co_now s \<and> j \<in> dom (co_asked s)" if "j \<in> busy_of s' c" for c j
    using that st co_invD(4) [OF inv]
    by (auto simp: loop_take_def next_of_def busy_of_def b split: if_splits option.splits)
  show ?thesis
    by (rule co_invI)
      (use co_invD [OF inv] nb fresh_mono [of s _ "co_now s" "co_now s + 1"] in \<open>auto simp: f s' b\<close>)
qed

lemma loop_done_inv:
  assumes inv: "co_inv s" and st: "loop_done r s = Some s'"
  shows "co_inv s'"
proof -
  obtain w b where w: "co_busy s = Some (w, b)" and
    s': "s' = s\<lparr>co_now := co_now s + 1, co_busy := None, co_got := (\<lambda>j. if j \<in> set w then Some (b, r) else co_got s j)\<rparr>"
    using st by (auto simp: loop_done_def split: option.splits)
  have c: "co_now s' = co_now s + 1" "co_asked s' = co_asked s" "co_running s' = co_running s" "co_next s' = co_next s"
    "co_busy s' = None" "co_got s' = (\<lambda>j. if j \<in> set w then Some (b, r) else co_got s j)"
    by (simp_all add: s')
  have eq: "next_of s' = next_of s" "busy_of s' c = {}" "fresh s' = fresh s" for c
    by (simp_all add: s' next_of_def busy_of_def fresh_def fun_eq_iff)
  have bw: "busy_of s c = (if c = b then set w else {})" for c by (auto simp: busy_of_def w)
  show ?thesis
    by (rule co_invI) (use co_invD [OF inv] fresh_mono [of s _ "co_now s" "co_now s + 1"] in
      \<open>auto simp: eq c bw w split: if_splits\<close>)
qed

interpretation coalesced: invariant_system "\<lambda>s. s = co_zero" co_step co_inv
proof
  show "co_inv s" if "s = co_zero" for s using that by (simp add: co_inv_def co_zero_def next_of_def busy_of_def)
  show "co_inv t" if "co_inv s" "co_step s t" for s t using that(2,1)
    by cases (auto intro: co_units_inv co_leave_inv loop_take_inv loop_done_inv)
qed

section \<open>What a caller gets\<close>

text \<open>
  Every list a caller gets began after the caller asked, over any interleaving of callers, the loop
  and callers that give up.
\<close>

theorem coalesced_list_is_fresh:
  assumes "reach (\<lambda>s. s = co_zero) co_step s" "co_got s j = Some (began, r)"
  shows "\<exists>asked < began. co_asked s j = Some asked"
  using co_invD(5) [OF coalesced.reach_inv [OF assms(1)] assms(2)] by (simp add: fresh_def)

text \<open>No caller is stranded, however the last one to ask and the loop about to end interleave.\<close>

definition finish :: "'u list_result \<Rightarrow> 'u coalescer \<Rightarrow> 'u coalescer" where
  "finish r s = (case loop_done r s of None \<Rightarrow> s | Some s' \<Rightarrow> s')"

definition take_next :: "'u coalescer \<Rightarrow> 'u coalescer" where
  "take_next s = (case loop_take s of None \<Rightarrow> s | Some s' \<Rightarrow> s')"

lemma finish_idle: "co_busy (finish r s) = None"
  by (simp add: finish_def loop_done_def split: option.splits)

lemma finish_got: "j \<in> busy_of s b \<or> co_got s j \<noteq> None \<Longrightarrow> co_got (finish r s) j \<noteq> None"
  by (auto simp: finish_def loop_done_def busy_of_def split: option.splits if_splits)

lemma take_next_got: "co_got (take_next s) j = co_got s j"
  by (simp add: take_next_def loop_take_def split: option.splits)

lemma finish_keeps: "next_of (finish r s) = next_of s" "co_running (finish r s) = co_running s"
  by (simp_all add: finish_def loop_done_def next_of_def split: option.splits)

lemma take_next_waits:
  assumes "co_running s" "co_busy s = None" "j \<in> next_of s"
  shows "j \<in> busy_of (take_next s) (co_now s)"
  using assms by (simp add: take_next_def loop_take_def busy_of_def next_of_def split: option.splits)

text \<open>
  (C28) In every reachable state a caller that asked has its result after the loop has ended the list in
  flight, taken the next call and ended that: at most two lists, and no caller waits for a loop that
  is gone.
\<close>

theorem caller_served_in_two_lists:
  assumes r: "reach (\<lambda>s. s = co_zero) co_step s" and a: "co_asked s j \<noteq> None"
  shows "co_got (finish r2 (take_next (finish r1 s))) j \<noteq> None"
proof -
  note inv = coalesced.reach_inv [OF r]
  consider b where "j \<in> busy_of s b \<or> co_got s j \<noteq> None" | "j \<in> next_of s"
    using co_invD(6) [OF inv] a by blast
  then show ?thesis
  proof cases
    case 1
    then show ?thesis using finish_got take_next_got by metis
  next
    case 2
    then have "co_running s" using co_invD(1) [OF inv] by (simp add: next_of_def split: option.splits)
    then have "j \<in> busy_of (take_next (finish r1 s)) (co_now (finish r1 s))"
      by (intro take_next_waits) (simp_all add: finish_keeps finish_idle 2)
    then show ?thesis by (intro finish_got) (rule disjI1)
  qed
qed

text \<open>A caller that asks while a list is in flight gets the next one.\<close>

definition asked_in_flight :: "nat list coalescer" where
  "asked_in_flight = (let get = \<lambda>x. case x of Some s \<Rightarrow> s | None \<Rightarrow> co_zero in
     get (co_units 1 (get (loop_take (get (co_units 0 co_zero))))))"

lemma asked_in_flight_reach: "reach (\<lambda>s. s = co_zero) co_step asked_in_flight"
proof -
  let ?a = "the (co_units 0 co_zero)" let ?b = "the (loop_take ?a)" let ?c = "the (co_units 1 ?b)"
  have "co_step co_zero ?a" by (rule asks [of 0]) (simp add: co_units_def co_zero_def)
  moreover have "co_step ?a ?b" by (rule takes) (simp add: co_units_def co_zero_def loop_take_def)
  moreover have "co_step ?b ?c" by (rule asks [of 1]) (simp add: co_units_def co_zero_def loop_take_def)
  moreover have "asked_in_flight = ?c" by (simp add: asked_in_flight_def co_units_def co_zero_def loop_take_def)
  ultimately show ?thesis using reach_init [of "\<lambda>s. s = co_zero" co_zero co_step] by (metis reach_step)
qed

theorem caller_served_witness:
  "co_asked asked_in_flight 1 \<noteq> None \<and> co_got (finish (Listed_units [7]) (take_next (finish (Listed_units [3]) asked_in_flight))) 1 \<noteq> None"
proof -
  have a: "co_asked asked_in_flight 1 \<noteq> None" by code_simp
  show ?thesis using a caller_served_in_two_lists [OF asked_in_flight_reach a] by blast
qed

theorem coalesced_list_witness:
  "let s = finish (Listed_units [3]) asked_in_flight in
   co_got s 0 = Some (1, Listed_units [3]) \<and> co_got s 1 = None \<and> (\<exists>asked < 1. co_asked s 0 = Some asked)"
proof -
  let ?s = "finish (Listed_units [3]) asked_in_flight"
  have g: "co_got ?s 0 = Some (1, Listed_units [3])" "co_got ?s 1 = None" by code_simp+
  have "co_step asked_in_flight ?s"
    by (rule dones [of "Listed_units [3]"]) (simp add: finish_def asked_in_flight_def loop_done_def co_units_def co_zero_def loop_take_def)
  from coalesced_list_is_fresh [OF reach_step [OF asked_in_flight_reach this] g(1)] show ?thesis using g by (simp add: Let_def)
qed

end
