(* ===== verification/Osb_Pool.thy ===== *)
theory Osb_Pool
  imports Go_Strings "HOL-Library.AList"
begin

text \<open>
  The warm pool of the OpenSandbox API, \<^verbatim>\<open>internal/osb/pool.go\<close>: sandboxes made before anyone asks, and
  how a create takes one over. The refill, the creates and the removals run at once; a step is what one
  of them does between two locks, and the theorems speak of every sequence of steps, with failures of
  the re-key and of the disk and restarts of the server anywhere in between.
  \<^item> Callers are numbered, and \<open>tok\<close> is the token minted for each request. Ids are fresh, as the random ids of
    \<open>validate\<close> are.
  \<^item> \<open>po_execd\<close> is the token that the agent in a sandbox accepts; making a member, re-keying it and removing it
    are single steps; a removal that fails leaves the record, one that succeeds its file gone.
  \<^item> \<open>po_filling\<close> holds the members that are being made and \<open>po_ending\<close> how many are made, or failed, and not
    yet subtracted: the counter \<open>filling\<close> of the code is their sum, so it counts a new member twice for a moment.
  \<^item> \<open>po_answers\<close> holds the creates that were answered with a sandbox, and \<open>po_blank\<close> those answered with the empty
    record, because the sandbox was deleted under the claim.
  \<^item> \<open>Close\<close> closes the connections before it drains the pools, so a stop is a restart here.
\<close>

section \<open>The key of a pool\<close>

record plan =
  pl_Image :: string
  pl_Entrypoint :: "string list"
  pl_cpu :: string
  pl_memory :: string
  pl_gpus :: string
  pl_onIdle :: string
  pl_Ports :: "int list"
  pl_Platform :: "(string \<times> string) option"
  pl_egressPolicy :: bool

definition NUL :: char where "NUL = char_of (0 :: nat)"
definition SOH :: char where "SOH = char_of (1 :: nat)"

definition key_parts :: "plan \<Rightarrow> string list" where
  "key_parts pl = [pl_Image pl, Join (pl_Entrypoint pl) [NUL], pl_cpu pl, pl_memory pl, pl_gpus pl, pl_onIdle pl,
     Join (map Itoa (pl_Ports pl)) '','',
     (case pl_Platform pl of None \<Rightarrow> [] | Some (os, arch) \<Rightarrow> os @ ''/'' @ arch)]"

definition poolKey :: "plan \<Rightarrow> string" where
  "poolKey pl = (if pl_egressPolicy pl then [] else Join (key_parts pl) [SOH])"

text \<open>What a request may not say to be served from a pool. \<open>body\<close> holds the fields of its body, in the order
  of their names, with the text of each, or None for a body that is not a JSON object.\<close>

definition present :: "string \<Rightarrow> bool" where
  "present raw = (TrimSpace raw \<notin> {[], ''null'', ''{}''})"

definition poolFields :: "string list" where
  "poolFields = [''image'', ''entrypoint'', ''resourceLimits'', ''timeout'', ''env'', ''metadata'', ''extensions'', ''platform'']"

definition poolExtensions :: "string list" where
  "poolExtensions = [''sbx.pool'']"

datatype blocker = Pool_off | Not_an_object | Sets_field string | Sets_extension string

definition poolBlocker :: "(string \<times> string) list option \<Rightarrow> (string \<times> string) list \<Rightarrow> blocker option" where
  "poolBlocker body ext =
     (if map_of ext ''sbx.pool'' = Some ''off'' then Some Pool_off
      else case body of
        None \<Rightarrow> Some Not_an_object
      | Some fs \<Rightarrow> (case List.find (\<lambda>(k, v). k \<notin> set poolFields \<and> present v \<and> v \<notin> {''[]'', [CHR 0x22, CHR 0x22], ''false''}) fs of
          Some (k, _) \<Rightarrow> Some (Sets_field k)
        | None \<Rightarrow> (case List.find (\<lambda>(k, _). k \<notin> set poolExtensions) ext of
            Some (k, _) \<Rightarrow> Some (Sets_extension k)
          | None \<Rightarrow> None)))"

text \<open>The entries of \<^verbatim>\<open>--osb-pool\<close>, and the pools they make: two entries of one key are one pool. \<open>val\<close> is what
  \<open>validate\<close> makes of the template of an image.\<close>

definition defaultPoolSize :: int where "defaultPoolSize = 8"

datatype pool_flag_error = No_image | Bad_size string

definition ParsePool :: "string \<Rightarrow> pool_flag_error + string \<times> int" where
  "ParsePool w = (let v = TrimSpace w;
       (im, n) = (case LastIndexByte v CHR ''='' of None \<Rightarrow> (v, None) | Some i \<Rightarrow> (take i v, Some (drop (i + 1) v)));
       img = TrimSpace im in
     if img = [] then Inl No_image
     else case n of
       None \<Rightarrow> Inr (img, defaultPoolSize)
     | Some n \<Rightarrow> (case Atoi (TrimSpace n) of
         None \<Rightarrow> Inl (Bad_size img)
       | Some sz \<Rightarrow> if sz < 1 then Inl (Bad_size img) else Inr (img, sz)))"

fun newPools :: "(string \<Rightarrow> plan option) \<Rightarrow> (string \<times> int) list \<Rightarrow> (string \<times> int) list \<Rightarrow> (string \<times> int) list option" where
  "newPools val [] pools = Some pools"
| "newPools val ((img, sz) # specs) pools = (case val img of
       None \<Rightarrow> None
     | Some pl \<Rightarrow> (case map_of pools (poolKey pl) of
         Some old \<Rightarrow> newPools val specs (AList.update (poolKey pl) (old + sz) pools)
       | None \<Rightarrow> newPools val specs (AList.update (poolKey pl) sz pools)))"

section \<open>Members and claims\<close>

record member =
  mb_id :: string
  mb_token :: string

record osb_record =
  or_Pool :: string
  or_Token :: string

datatype stage = Taken | Rekeyed | Recorded

record pool =
  po_size :: nat
  po_key :: string
  po_ready :: "member list"
  po_filling :: "string list"
  po_ending :: nat
  po_need :: nat
  po_recs :: "string \<Rightarrow> osb_record option"
  po_disk :: "string \<Rightarrow> osb_record option"
  po_execd :: "string \<Rightarrow> string"
  po_claims :: "(nat \<times> string \<times> stage) list"
  po_answers :: "(nat \<times> string) list"
  po_blank :: "nat list"
  po_discarding :: "string list"
  po_used :: "string list"

definition new_pool :: "nat \<Rightarrow> string \<Rightarrow> pool" where
  "new_pool sz key = \<lparr>po_size = sz, po_key = key, po_ready = [], po_filling = [], po_ending = 0, po_need = 0, po_recs = (\<lambda>_. None),
     po_disk = (\<lambda>_. None), po_execd = (\<lambda>_. []), po_claims = [], po_answers = [], po_blank = [], po_discarding = [], po_used = []\<rparr>"

text \<open>A round of the refill: how many members are missing.\<close>

definition fill_count :: "pool \<Rightarrow> pool" where
  "fill_count s = (if po_need s \<noteq> 0 then s
     else s\<lparr>po_need := po_size s - (length (po_ready s) + (length (po_filling s) + po_ending s))\<rparr>)"

text \<open>One member: recorded, saved or not, and then made or not.\<close>

definition add_begin :: "string \<Rightarrow> string \<Rightarrow> bool \<Rightarrow> pool \<Rightarrow> pool" where
  "add_begin i t saved s =
     (if po_need s = 0 \<or> i \<in> set (po_used s) then s
      else let s1 = s\<lparr>po_need := po_need s - 1, po_used := i # po_used s\<rparr> in
        if \<not> saved then s1\<lparr>po_ending := po_ending s + 1\<rparr>
        else let r = \<lparr>or_Pool = po_key s, or_Token = t\<rparr> in
          s1\<lparr>po_filling := i # po_filling s, po_recs := (po_recs s)(i := Some r), po_disk := (po_disk s)(i := Some r), po_execd := (po_execd s)(i := t)\<rparr>)"

definition add_end :: "string \<Rightarrow> bool \<Rightarrow> pool \<Rightarrow> pool" where
  "add_end i ok s =
     (if i \<notin> set (po_filling s) then s
      else let s1 = s\<lparr>po_filling := remove1 i (po_filling s), po_ending := po_ending s + 1\<rparr> in
        if ok then s1\<lparr>po_ready := po_ready s @ [\<lparr>mb_id = i, mb_token = po_execd s i\<rparr>]\<rparr>
        else s1\<lparr>po_discarding := i # po_discarding s\<rparr>)"

definition add_counted :: "pool \<Rightarrow> pool" where
  "add_counted s = s\<lparr>po_ending := po_ending s - 1\<rparr>"

text \<open>A create: it takes the first member, re-keys its agent, rewrites its record and saves that. A failure
  discards the member, and the create goes on with the next.\<close>

definition take_member :: "nat \<Rightarrow> pool \<Rightarrow> pool" where
  "take_member c s = (case po_ready s of
       [] \<Rightarrow> s
     | m # ms \<Rightarrow> if c \<in> fst ` set (po_claims s) \<union> fst ` set (po_answers s) \<union> set (po_blank s) then s
         else s\<lparr>po_ready := ms, po_claims := (c, mb_id m, Taken) # po_claims s\<rparr>)"

definition claim_failed :: "nat \<Rightarrow> string \<Rightarrow> pool \<Rightarrow> pool" where
  "claim_failed c i s = s\<lparr>po_claims := filter (\<lambda>(d, _). d \<noteq> c) (po_claims s), po_discarding := i # po_discarding s\<rparr>"

definition set_stage :: "nat \<Rightarrow> stage \<Rightarrow> pool \<Rightarrow> pool" where
  "set_stage c st s = s\<lparr>po_claims := map (\<lambda>(d, i, t). if d = c then (d, i, st) else (d, i, t)) (po_claims s)\<rparr>"

definition claim_of :: "nat \<Rightarrow> pool \<Rightarrow> (string \<times> stage) option" where
  "claim_of c s = map_of (po_claims s) c"

definition rekey_member :: "(nat \<Rightarrow> string) \<Rightarrow> nat \<Rightarrow> bool \<Rightarrow> bool \<Rightarrow> pool \<Rightarrow> pool" where
  "rekey_member tok c took ok s = (case claim_of c s of
       Some (i, Taken) \<Rightarrow>
         if ok then set_stage c Rekeyed (s\<lparr>po_execd := (po_execd s)(i := tok c)\<rparr>)
         else claim_failed c i (s\<lparr>po_execd := (po_execd s)(i := if took then tok c else po_execd s i)\<rparr>)
     | _ \<Rightarrow> s)"

definition recordClaim :: "(nat \<Rightarrow> string) \<Rightarrow> nat \<Rightarrow> pool \<Rightarrow> pool" where
  "recordClaim tok c s = (case claim_of c s of
       Some (i, Rekeyed) \<Rightarrow> (case po_recs s i of
           None \<Rightarrow> claim_failed c i s
         | Some r \<Rightarrow> if or_Pool r = [] then claim_failed c i s
             else set_stage c Recorded (s\<lparr>po_recs := (po_recs s)(i := Some (r\<lparr>or_Pool := [], or_Token := tok c\<rparr>))\<rparr>))
     | _ \<Rightarrow> s)"

definition saveClaim :: "nat \<Rightarrow> bool \<Rightarrow> pool \<Rightarrow> pool" where
  "saveClaim c saved s = (case claim_of c s of
       Some (i, Recorded) \<Rightarrow> (case po_recs s i of
           None \<Rightarrow> s\<lparr>po_claims := filter (\<lambda>(d, _). d \<noteq> c) (po_claims s), po_blank := c # po_blank s\<rparr>
         | Some r \<Rightarrow>
             if saved then s\<lparr>po_disk := (po_disk s)(i := Some r), po_claims := filter (\<lambda>(d, _). d \<noteq> c) (po_claims s), po_answers := (c, i) # po_answers s\<rparr>
             else claim_failed c i (s\<lparr>po_recs := (po_recs s)(i := Some (r\<lparr>or_Pool := ''claim-failed''\<rparr>))\<rparr>))
     | _ \<Rightarrow> s)"

text \<open>The removal of a discarded member, a delete of a sandbox that is visible, and a restart, which reads
  the records back and discards the members among them.\<close>

definition visible :: "pool \<Rightarrow> string \<Rightarrow> bool" where
  "visible s i \<longleftrightarrow> (case po_recs s i of None \<Rightarrow> False | Some r \<Rightarrow> or_Pool r = [])"

definition drop_record :: "string \<Rightarrow> pool \<Rightarrow> pool" where
  "drop_record i s = s\<lparr>po_recs := (po_recs s)(i := None), po_disk := (po_disk s)(i := None)\<rparr>"

definition discard :: "string \<Rightarrow> pool \<Rightarrow> pool" where
  "discard i s = (if i \<in> set (po_discarding s) then drop_record i s else s)"

definition delete_sandbox :: "string \<Rightarrow> pool \<Rightarrow> pool" where
  "delete_sandbox i s = (if visible s i then drop_record i s else s)"

definition restart :: "pool \<Rightarrow> pool" where
  "restart s = s\<lparr>po_ready := [], po_filling := [], po_ending := 0, po_need := 0, po_claims := [], po_recs := po_disk s,
     po_discarding := filter (\<lambda>i. case po_disk s i of None \<Rightarrow> False | Some r \<Rightarrow> or_Pool r \<noteq> []) (po_used s)\<rparr>"

datatype pool_op =
    Fill_count
  | Add_begin string string bool
  | Add_end string bool
  | Add_counted
  | Take nat
  | Rekey_member nat bool bool
  | Record_claim nat
  | Save_claim nat bool
  | Discard string
  | Delete_sandbox string
  | Restart

definition pool_do :: "(nat \<Rightarrow> string) \<Rightarrow> pool_op \<Rightarrow> pool \<Rightarrow> pool" where
  "pool_do tok op s = (case op of
       Fill_count \<Rightarrow> fill_count s
     | Add_begin i t saved \<Rightarrow> add_begin i t saved s
     | Add_end i ok \<Rightarrow> add_end i ok s
     | Add_counted \<Rightarrow> add_counted s
     | Take c \<Rightarrow> take_member c s
     | Rekey_member c took ok \<Rightarrow> rekey_member tok c took ok s
     | Record_claim c \<Rightarrow> recordClaim tok c s
     | Save_claim c saved \<Rightarrow> saveClaim c saved s
     | Discard i \<Rightarrow> discard i s
     | Delete_sandbox i \<Rightarrow> delete_sandbox i s
     | Restart \<Rightarrow> restart s)"

definition pool_step :: "(nat \<Rightarrow> string) \<Rightarrow> pool \<Rightarrow> pool \<Rightarrow> bool" where
  "pool_step tok s t \<longleftrightarrow> (\<exists>op. t = pool_do tok op s)"

section \<open>The invariant\<close>

definition claim_ids :: "pool \<Rightarrow> string list" where "claim_ids s = map (fst \<circ> snd) (po_claims s)"

definition owned :: "pool \<Rightarrow> string list" where
  "owned s = map mb_id (po_ready s) @ po_filling s @ claim_ids s @ map snd (po_answers s)"

definition claim_ok :: "(nat \<Rightarrow> string) \<Rightarrow> pool \<Rightarrow> nat \<times> string \<times> stage \<Rightarrow> bool" where
  "claim_ok tok s = (\<lambda>(c, i, st). case st of
       Taken \<Rightarrow> True
     | Rekeyed \<Rightarrow> po_execd s i = tok c
     | Recorded \<Rightarrow> po_execd s i = tok c \<and> (\<forall>r. po_recs s i = Some r \<longrightarrow> or_Pool r = [] \<and> or_Token r = tok c))"

definition answer_ok :: "(nat \<Rightarrow> string) \<Rightarrow> pool \<Rightarrow> nat \<times> string \<Rightarrow> bool" where
  "answer_ok tok s = (\<lambda>(c, i). po_execd s i = tok c \<and> po_disk s i = po_recs s i \<and>
     (\<forall>r. po_recs s i = Some r \<longrightarrow> or_Pool r = [] \<and> or_Token r = tok c))"

definition owners_ok :: "pool \<Rightarrow> bool" where
  "owners_ok s \<longleftrightarrow> distinct (owned s) \<and> distinct (map fst (po_claims s)) \<and> set (owned s) \<union> set (po_discarding s) \<subseteq> set (po_used s) \<and>
     set (po_discarding s) \<inter> set (owned s) = {} \<and> po_key s \<noteq> [] \<and>
     length (po_ready s) + length (po_filling s) + po_need s \<le> po_size s"

definition records_ok :: "(nat \<Rightarrow> string) \<Rightarrow> pool \<Rightarrow> bool" where
  "records_ok tok s \<longleftrightarrow> (\<forall>x \<in> set (po_claims s). claim_ok tok s x) \<and> (\<forall>x \<in> set (po_answers s). answer_ok tok s x) \<and>
     (\<forall>i. visible s i \<longrightarrow> i \<in> snd ` set (po_answers s) \<or> (\<exists>c. (c, i, Recorded) \<in> set (po_claims s))) \<and>
     (\<forall>i r. po_disk s i = Some r \<longrightarrow> or_Pool r = [] \<longrightarrow> i \<in> snd ` set (po_answers s)) \<and>
     (\<forall>i. i \<notin> set (po_used s) \<longrightarrow> po_recs s i = None \<and> po_disk s i = None)"

definition pool_inv :: "(nat \<Rightarrow> string) \<Rightarrow> pool \<Rightarrow> bool" where
  "pool_inv tok s \<longleftrightarrow> owners_ok s \<and> records_ok tok s"

lemmas pool_defs = owners_ok_def owned_def claim_ids_def

text \<open>Steps that leave the records alone, and steps on the record of a sandbox nobody has been given.\<close>

lemma records_frame:
  assumes r: "records_ok tok s"
    and same: "po_recs t = po_recs s" "po_disk t = po_disk s" "po_execd t = po_execd s" "po_answers t = po_answers s"
      "set (po_used s) \<subseteq> set (po_used t)"
    and cl: "\<And>c i x. (c, i, x) \<in> set (po_claims t) \<Longrightarrow> (c, i, x) \<in> set (po_claims s) \<or> x = Taken"
      "\<And>c i. (c, i, Recorded) \<in> set (po_claims s) \<Longrightarrow> (c, i, Recorded) \<in> set (po_claims t)"
  shows "records_ok tok t"
  unfolding records_ok_def
proof (intro conjI ballI allI impI)
  fix x assume "x \<in> set (po_claims t)"
  then obtain c i st where x: "x = (c, i, st)" "(c, i, st) \<in> set (po_claims s) \<or> st = Taken" using cl(1) by (metis prod_cases3)
  then show "claim_ok tok t x" using r same by (auto simp: records_ok_def claim_ok_def)
next
  fix x assume "x \<in> set (po_answers t)"
  then show "answer_ok tok t x" using r same by (auto simp: records_ok_def answer_ok_def)
next
  fix i assume "visible t i"
  then have "visible s i" using same by (simp add: visible_def)
  then show "i \<in> snd ` set (po_answers t) \<or> (\<exists>c. (c, i, Recorded) \<in> set (po_claims t))"
    using r same cl(2) unfolding records_ok_def by metis
next
  fix i rr assume "po_disk t i = Some rr" "or_Pool rr = []"
  then show "i \<in> snd ` set (po_answers t)" using r same by (simp add: records_ok_def)
next
  fix i assume "i \<notin> set (po_used t)"
  then show "po_recs t i = None" "po_disk t i = None" using r same by (auto simp: records_ok_def)
qed

lemma records_at:
  assumes r: "records_ok tok s" and u: "i \<in> set (po_used t)" "set (po_used s) \<subseteq> set (po_used t)"
    and t: "po_recs t = (po_recs s)(i := x)" "po_disk t = (po_disk s)(i := y)" "po_execd t = (po_execd s)(i := z)"
    and cl: "\<And>c j st. (c, j, st) \<in> set (po_claims t) \<Longrightarrow> j \<noteq> i \<and> (c, j, st) \<in> set (po_claims s) \<or> claim_ok tok t (c, j, st)"
      "\<And>c j. j \<noteq> i \<Longrightarrow> (c, j, Recorded) \<in> set (po_claims s) \<Longrightarrow> (c, j, Recorded) \<in> set (po_claims t)"
    and an: "\<And>c j. (c, j) \<in> set (po_answers t) \<Longrightarrow> j \<noteq> i \<and> (c, j) \<in> set (po_answers s) \<or> answer_ok tok t (c, j)"
      "set (po_answers s) \<subseteq> set (po_answers t)"
    and vis: "\<And>r. x = Some r \<Longrightarrow> or_Pool r = [] \<Longrightarrow> i \<in> snd ` set (po_answers t) \<or> (\<exists>c. (c, i, Recorded) \<in> set (po_claims t))"
      "\<And>r. y = Some r \<Longrightarrow> or_Pool r = [] \<Longrightarrow> i \<in> snd ` set (po_answers t)"
  shows "records_ok tok t"
  unfolding records_ok_def
proof (intro conjI ballI allI impI)
  fix q assume "q \<in> set (po_claims t)"
  then obtain c j st where q: "q = (c, j, st)" "j \<noteq> i \<and> (c, j, st) \<in> set (po_claims s) \<or> claim_ok tok t q" using cl(1) by (metis prod_cases3)
  moreover have "claim_ok tok t q" if a: "j \<noteq> i" "(c, j, st) \<in> set (po_claims s)"
  proof -
    have "claim_ok tok s (c, j, st)" using r a by (auto simp: records_ok_def)
    then show ?thesis using q(1) a t by (auto simp: claim_ok_def split: stage.splits)
  qed
  ultimately show "claim_ok tok t q" by auto
next
  fix q assume "q \<in> set (po_answers t)"
  then obtain c j where q: "q = (c, j)" "j \<noteq> i \<and> (c, j) \<in> set (po_answers s) \<or> answer_ok tok t q" using an(1) by (metis prod.collapse)
  moreover have "answer_ok tok t q" if a: "j \<noteq> i" "(c, j) \<in> set (po_answers s)"
  proof -
    have "answer_ok tok s (c, j)" using r a by (auto simp: records_ok_def)
    then show ?thesis using q(1) a t by (auto simp: answer_ok_def)
  qed
  ultimately show "answer_ok tok t q" by auto
next
  fix j assume v: "visible t j"
  show "j \<in> snd ` set (po_answers t) \<or> (\<exists>c. (c, j, Recorded) \<in> set (po_claims t))"
  proof (cases "j = i")
    case True
    then show ?thesis using v vis(1) t(1) by (auto simp: visible_def split: option.splits)
  next
    case False
    then have "visible s j" using v t(1) by (simp add: visible_def)
    then show ?thesis using r cl(2) an(2) False unfolding records_ok_def by (metis image_mono subsetD)
  qed
next
  fix j rr assume d: "po_disk t j = Some rr" "or_Pool rr = []"
  show "j \<in> snd ` set (po_answers t)"
  proof (cases "j = i")
    case False
    then have "j \<in> snd ` set (po_answers s)" using r d t(2) by (auto simp: records_ok_def)
    then show ?thesis using an(2) by auto
  qed (use d vis(2) t(2) in auto)
next
  fix j assume "j \<notin> set (po_used t)"
  then show "po_recs t j = None" "po_disk t j = None" using r t u by (auto simp: records_ok_def)
qed

text \<open>The claim in hand, and what it is to end it.\<close>

lemma claim_of_Some: "claim_of c s = Some (i, st) \<Longrightarrow> (c, i, st) \<in> set (po_claims s)"
  unfolding claim_of_def by (rule map_of_SomeD)

lemma claim_key:
  assumes "pool_inv tok s" "claim_of c s = Some (i, st)" "q \<in> set (po_claims s)"
  shows "fst q = c \<longleftrightarrow> fst (snd q) = i"
proof -
  have d: "distinct (map fst (po_claims s))" "distinct (claim_ids s)" using assms(1) by (auto simp: pool_inv_def owners_ok_def owned_def)
  have m: "(c, i, st) \<in> set (po_claims s)" using assms(2) by (simp add: claim_of_Some)
  show ?thesis
  proof
    assume "fst q = c"
    then have "q = (c, i, st)" using d(1) m assms(3) by (metis (no_types) distinct_map fst_conv inj_onD)
    then show "fst (snd q) = i" by simp
  next
    assume "fst (snd q) = i"
    then have "q = (c, i, st)" using d(2) m assms(3) unfolding claim_ids_def
      by (metis (no_types) comp_apply distinct_map fst_conv inj_onD snd_conv)
    then show "fst q = c" by simp
  qed
qed

lemma ended_claims:
  assumes "pool_inv tok s" "claim_of c s = Some (i, st)"
  shows "set (filter (\<lambda>(d, _). d \<noteq> c) (po_claims s)) = {q \<in> set (po_claims s). fst (snd q) \<noteq> i}"
  using claim_key [OF assms] by force

lemma fill_count_inv: "pool_inv tok s \<Longrightarrow> pool_inv tok (fill_count s)"
  by (auto simp: fill_count_def pool_inv_def pool_defs intro: records_frame)

lemma add_begin_inv: "pool_inv tok s \<Longrightarrow> pool_inv tok (add_begin i t saved s)"
proof -
  assume inv: "pool_inv tok s"
  have o: "owners_ok (add_begin i t saved s)" using inv by (auto simp: pool_inv_def add_begin_def pool_defs Let_def)
  have "records_ok tok (add_begin i t saved s)"
  proof (cases "po_need s = 0 \<or> i \<in> set (po_used s) \<or> \<not> saved")
    case True
    then show ?thesis using inv by (auto simp: pool_inv_def add_begin_def Let_def intro: records_frame)
  next
    case False
    have i: "i \<notin> set (claim_ids s)" "i \<notin> snd ` set (po_answers s)" "po_key s \<noteq> []"
      using inv False by (auto simp: pool_inv_def owners_ok_def owned_def)
    show ?thesis
      by (rule records_at [where s = s and i = i]) (use inv False i in \<open>force simp: pool_inv_def add_begin_def Let_def claim_ids_def\<close>)+
  qed
  with o show ?thesis by (simp add: pool_inv_def)
qed

lemma add_end_inv: "pool_inv tok s \<Longrightarrow> pool_inv tok (add_end i ok s)"
proof -
  assume inv: "pool_inv tok s"
  have "records_ok tok (add_end i ok s)" using inv by (auto simp: pool_inv_def add_end_def Let_def intro: records_frame)
  moreover have "owners_ok (add_end i ok s)"
  proof (cases "i \<in> set (po_filling s)")
    case True
    then have "length (remove1 i (po_filling s)) + 1 = length (po_filling s)" by (simp add: length_remove1) (metis Suc_pred length_pos_if_in_set)
    then show ?thesis using inv True by (auto simp: pool_inv_def add_end_def pool_defs Let_def)
  qed (use inv in \<open>simp add: add_end_def pool_inv_def\<close>)
  ultimately show ?thesis by (simp add: pool_inv_def)
qed

lemma add_counted_inv: "pool_inv tok s \<Longrightarrow> pool_inv tok (add_counted s)"
  by (auto simp: add_counted_def pool_inv_def pool_defs intro: records_frame)

lemma take_member_inv: "pool_inv tok s \<Longrightarrow> pool_inv tok (take_member c s)"
proof -
  assume inv: "pool_inv tok s"
  have "records_ok tok (take_member c s)"
    using inv by (cases "po_ready s") (auto simp: pool_inv_def take_member_def intro: records_frame)
  moreover have "owners_ok (take_member c s)"
    using inv by (cases "po_ready s") (auto simp: pool_inv_def take_member_def pool_defs)
  ultimately show ?thesis by (simp add: pool_inv_def)
qed


lemma ended_owners:
  assumes inv: "pool_inv tok s" and c: "claim_of c s = Some (i, st)"
    and t: "po_claims t = filter (\<lambda>(d, _). d \<noteq> c) (po_claims s)" "po_ready t = po_ready s" "po_filling t = po_filling s" "po_used t = po_used s"
      "po_key t = po_key s" "po_size t = po_size s" "po_need t = po_need s"
    and w: "po_answers t = po_answers s \<and> set (po_discarding t) \<subseteq> insert i (set (po_discarding s)) \<or>
      po_answers t = (c, i) # po_answers s \<and> po_discarding t = po_discarding s"
  shows "owners_ok t"
proof -
  have o: "owners_ok s" using inv by (simp add: pool_inv_def)
  have m: "i \<in> set (claim_ids s)" using claim_of_Some [OF c] by (force simp: claim_ids_def)
  have ids: "set (claim_ids t) = set (claim_ids s) - {i}"
    unfolding claim_ids_def t(1) set_map ended_claims [OF inv c] by auto
  have dist: "distinct (claim_ids t)" "distinct (map fst (po_claims t))"
    using o by (auto simp: t(1) owners_ok_def owned_def claim_ids_def distinct_map_filter)
  have p: "set (po_discarding s) \<inter> set (owned s) = {}" "i \<in> set (owned s)" "distinct (owned s)" using o m by (auto simp: owners_ok_def owned_def)
  have sub: "set (po_discarding s) \<union> set (owned s) \<subseteq> set (po_used s)" using o by (simp add: owners_ok_def)
  from w have own: "distinct (owned t) \<and> set (owned t) \<union> set (po_discarding t) \<subseteq> set (po_used t) \<and> set (po_discarding t) \<inter> set (owned t) = {}"
  proof (elim disjE conjE)
    assume a: "po_answers t = po_answers s" and d: "set (po_discarding t) \<subseteq> insert i (set (po_discarding s))"
    have "distinct (owned t)" using p(3) dist(1) by (simp add: owned_def t(2,3) a ids) blast
    moreover have "set (owned t) = set (owned s) - {i}" using p(3) m by (simp add: owned_def t(2,3) a ids) blast
    ultimately show ?thesis using p(1,2) sub d unfolding t(4) by blast
  next
    assume a: "po_answers t = (c, i) # po_answers s" and d: "po_discarding t = po_discarding s"
    have "distinct (owned t)" using p(3) dist(1) m by (simp add: owned_def t(2,3) a ids) blast
    moreover have "set (owned t) = set (owned s)" using m by (simp add: owned_def t(2,3) a ids) blast
    ultimately show ?thesis using p(1) sub d t(4) by auto
  qed
  then show ?thesis using own dist(2) o t(2-) by (simp add: owners_ok_def)
qed

lemma claim_frees:
  assumes inv: "pool_inv tok s" and c: "claim_of c s = Some (i, st)"
  shows "i \<in> set (po_used s)" "(d, i) \<notin> set (po_answers s)" "(d, i, st') \<in> set (po_claims s) \<Longrightarrow> d = c \<and> st' = st"
proof -
  have m: "(c, i, st) \<in> set (po_claims s)" by (rule claim_of_Some [OF c])
  have o: "owners_ok s" using inv by (simp add: pool_inv_def)
  have ic: "i \<in> set (claim_ids s)" using m by (force simp: claim_ids_def)
  show "i \<in> set (po_used s)" using o ic by (auto simp: owners_ok_def owned_def)
  have "set (claim_ids s) \<inter> snd ` set (po_answers s) = {}" using o by (auto simp: owners_ok_def owned_def)
  then show "(d, i) \<notin> set (po_answers s)" using ic by force
  assume a: "(d, i, st') \<in> set (po_claims s)"
  have "distinct (claim_ids s)" using o by (simp add: owners_ok_def owned_def)
  then have "(d, i, st') = (c, i, st)" using a m unfolding claim_ids_def
    by (metis (no_types) comp_apply distinct_map fst_conv inj_onD snd_conv)
  then show "d = c \<and> st' = st" by simp
qed

lemma claim_failed_inv:
  assumes inv: "pool_inv tok s" and c: "claim_of c s = Some (i, st)"
    and t: "t = claim_failed c i (s\<lparr>po_recs := (po_recs s)(i := x), po_execd := (po_execd s)(i := z)\<rparr>)"
    and hid: "\<And>r. x = Some r \<Longrightarrow> or_Pool r \<noteq> []" and disk: "\<And>r. po_disk s i = Some r \<Longrightarrow> or_Pool r \<noteq> []"
  shows "pool_inv tok t"
proof -
  have cl: "set (po_claims t) = {q \<in> set (po_claims s). fst (snd q) \<noteq> i}"
    using ended_claims [OF inv c] by (simp add: t claim_failed_def)
  have "owners_ok t" by (rule ended_owners [OF inv c]) (auto simp: t claim_failed_def)
  moreover have "records_ok tok t"
  proof (rule records_at [where s = s and i = i and x = x and y = "po_disk s i" and z = z])
    show "records_ok tok s" using inv by (simp add: pool_inv_def)
    show "j \<noteq> i \<and> (d, j) \<in> set (po_answers s) \<or> answer_ok tok t (d, j)" if "(d, j) \<in> set (po_answers t)" for d j
      using that claim_frees(2) [OF inv c] by (auto simp: t claim_failed_def)
  qed (use claim_frees(1) [OF inv c] hid disk in \<open>auto simp: cl\<close>, auto simp: t claim_failed_def)
  ultimately show ?thesis by (simp add: pool_inv_def)
qed

lemma claim_hidden:
  assumes "pool_inv tok s" "claim_of c s = Some (i, st)"
  shows "po_disk s i = Some r \<Longrightarrow> or_Pool r \<noteq> []"
    and "st \<noteq> Recorded \<Longrightarrow> po_recs s i = Some r \<Longrightarrow> or_Pool r \<noteq> []"
proof -
  have n: "i \<notin> snd ` set (po_answers s)" using claim_frees(2) [OF assms] by auto
  show "or_Pool r \<noteq> []" if "po_disk s i = Some r" using assms(1) n that by (auto simp: pool_inv_def records_ok_def)
  assume st: "st \<noteq> Recorded" and "po_recs s i = Some r"
  moreover have "\<not> visible s i"
  proof
    assume "visible s i"
    then obtain d where "(d, i, Recorded) \<in> set (po_claims s)" using assms(1) n unfolding pool_inv_def records_ok_def by blast
    then show False using claim_frees(3) [OF assms] st by blast
  qed
  ultimately show "or_Pool r \<noteq> []" by (auto simp: visible_def)
qed

lemma set_stage_claims:
  assumes inv: "pool_inv tok s" and c: "claim_of c s = Some (i, st)"
  shows "set (po_claims (set_stage c st' s)) = {q \<in> set (po_claims s). fst (snd q) \<noteq> i} \<union> {(c, i, st')}"
proof -
  note f = claim_key [OF inv c]
  have m: "(c, i, st) \<in> set (po_claims s)" by (rule claim_of_Some [OF c])
  show ?thesis
  proof (intro set_eqI iffI)
    fix q assume "q \<in> set (po_claims (set_stage c st' s))"
    then obtain d j x where "(d, j, x) \<in> set (po_claims s)" "q = (if d = c then (d, j, st') else (d, j, x))" by (auto simp: set_stage_def)
    then show "q \<in> {q \<in> set (po_claims s). fst (snd q) \<noteq> i} \<union> {(c, i, st')}" using f [of "(d, j, x)"] by (auto split: if_splits)
  next
    fix q assume q: "q \<in> {q \<in> set (po_claims s). fst (snd q) \<noteq> i} \<union> {(c, i, st')}"
    let ?g = "\<lambda>(d, i, t). if d = c then (d, i, st') else (d, i, t)"
    from q have "q = ?g (c, i, st) \<or> q \<in> set (po_claims s) \<and> q = ?g q" using f [of q] by (auto split: prod.splits)
    then have "q \<in> ?g ` set (po_claims s)" using m by blast
    then show "q \<in> set (po_claims (set_stage c st' s))" by (simp add: set_stage_def)
  qed
qed

lemma set_stage_keeps:
  "owners_ok (set_stage c st s) = owners_ok s" "visible (set_stage c st s) = visible s"
  "po_recs (set_stage c st s) = po_recs s" "po_disk (set_stage c st s) = po_disk s" "po_execd (set_stage c st s) = po_execd s"
  "po_answers (set_stage c st s) = po_answers s" "po_used (set_stage c st s) = po_used s"
proof -
  have "map fst (po_claims (set_stage c st s)) = map fst (po_claims s)" "claim_ids (set_stage c st s) = claim_ids s"
    by (simp_all add: set_stage_def claim_ids_def o_def split_def if_distrib)
  then show "owners_ok (set_stage c st s) = owners_ok s" by (simp add: owners_ok_def owned_def) (simp add: set_stage_def)
qed (auto simp: set_stage_def visible_def fun_eq_iff)

lemma claim_advances:
  assumes inv: "pool_inv tok s" and c: "claim_of c s = Some (i, st)"
    and s': "s' = s\<lparr>po_recs := (po_recs s)(i := x), po_execd := (po_execd s)(i := z)\<rparr>"
    and ok: "claim_ok tok s' (c, i, st')" and vis: "\<And>r. x = Some r \<Longrightarrow> or_Pool r = [] \<Longrightarrow> st' = Recorded"
  shows "pool_inv tok (set_stage c st' s')"
proof -
  have "owners_ok (set_stage c st' s')" unfolding set_stage_keeps using inv by (simp add: s' pool_inv_def pool_defs)
  moreover have cl: "set (po_claims (set_stage c st' s')) = {q \<in> set (po_claims s). fst (snd q) \<noteq> i} \<union> {(c, i, st')}"
    using set_stage_claims [OF inv c] by (simp add: set_stage_def s')
  moreover have "records_ok tok (set_stage c st' s')"
  proof (rule records_at [where s = s and i = i and x = x and y = "po_disk s i" and z = z])
    show "records_ok tok s" using inv by (simp add: pool_inv_def)
    show "j \<noteq> i \<and> (d, j, x) \<in> set (po_claims s) \<or> claim_ok tok (set_stage c st' s') (d, j, x)" if "(d, j, x) \<in> set (po_claims (set_stage c st' s'))" for d j x
      using that ok unfolding cl by (auto simp: claim_ok_def set_stage_keeps)
    show "j \<noteq> i \<and> (d, j) \<in> set (po_answers s) \<or> answer_ok tok (set_stage c st' s') (d, j)" if "(d, j) \<in> set (po_answers (set_stage c st' s'))" for d j
      using that claim_frees(2) [OF inv c] by (auto simp: s' set_stage_keeps)
    show "i \<in> snd ` set (po_answers (set_stage c st' s'))" if "po_disk s i = Some r" "or_Pool r = []" for r
      using that claim_hidden(1) [OF inv c] by auto
    show "i \<in> snd ` set (po_answers (set_stage c st' s')) \<or> (\<exists>d. (d, i, Recorded) \<in> set (po_claims (set_stage c st' s')))"
      if "x = Some r" "or_Pool r = []" for r using vis [OF that] unfolding cl by blast
  qed (use claim_frees(1) [OF inv c] vis in \<open>auto simp: cl [unfolded s'] set_stage_keeps s'\<close>)
  ultimately show ?thesis by (simp add: pool_inv_def)
qed

lemma rekey_member_inv: "pool_inv tok s \<Longrightarrow> pool_inv tok (rekey_member tok c took ok s)"
proof -
  assume inv: "pool_inv tok s"
  show ?thesis
  proof (cases "\<exists>i. claim_of c s = Some (i, Taken)")
    case True
    then obtain i where i: "claim_of c s = Some (i, Taken)" by auto
    note hid = claim_hidden [OF inv i]
    have same: "s\<lparr>po_execd := e\<rparr> = s\<lparr>po_recs := (po_recs s)(i := po_recs s i), po_execd := e\<rparr>" for e by simp
    show ?thesis
    proof (cases ok)
      case True
      then have "rekey_member tok c took ok s = set_stage c Rekeyed (s\<lparr>po_recs := (po_recs s)(i := po_recs s i), po_execd := (po_execd s)(i := tok c)\<rparr>)"
        by (simp add: rekey_member_def i)
      moreover have "pool_inv tok \<dots>" by (rule claim_advances [OF inv i refl]) (use hid(2) in \<open>auto simp: claim_ok_def\<close>)
      ultimately show ?thesis by simp
    next
      case False
      then have "rekey_member tok c took ok s = claim_failed c i (s\<lparr>po_recs := (po_recs s)(i := po_recs s i), po_execd := (po_execd s)(i := if took then tok c else po_execd s i)\<rparr>)"
        by (simp add: rekey_member_def i)
      then show ?thesis using claim_failed_inv [OF inv i] hid by blast
    qed
  next
    case False
    then have "rekey_member tok c took ok s = s" by (auto simp: rekey_member_def split: option.splits stage.splits)
    then show ?thesis using inv by simp
  qed
qed


lemma recordClaim_inv: "pool_inv tok s \<Longrightarrow> pool_inv tok (recordClaim tok c s)"
proof -
  assume inv: "pool_inv tok s"
  show ?thesis
  proof (cases "\<exists>i. claim_of c s = Some (i, Rekeyed)")
    case True
    then obtain i where i: "claim_of c s = Some (i, Rekeyed)" by auto
    note hid = claim_hidden [OF inv i]
    have key: "po_execd s i = tok c" using claim_of_Some [OF i] inv by (auto simp: pool_inv_def records_ok_def claim_ok_def)
    show ?thesis
    proof (cases "po_recs s i")
      case None
      have "pool_inv tok (claim_failed c i (s\<lparr>po_recs := (po_recs s)(i := po_recs s i), po_execd := (po_execd s)(i := po_execd s i)\<rparr>))"
        by (rule claim_failed_inv [OF inv i refl]) (use hid in auto)
      moreover have "s\<lparr>po_recs := (po_recs s)(i := po_recs s i), po_execd := (po_execd s)(i := po_execd s i)\<rparr> = s" by simp
      ultimately show ?thesis by (simp only: recordClaim_def i None option.case prod.case stage.case)
    next
      case (Some r)
      let ?x = "Some (r\<lparr>or_Pool := [], or_Token := tok c\<rparr>)"
      have "pool_inv tok (set_stage c Recorded (s\<lparr>po_recs := (po_recs s)(i := ?x), po_execd := (po_execd s)(i := po_execd s i)\<rparr>))"
        by (rule claim_advances [OF inv i refl]) (use key in \<open>auto simp: claim_ok_def\<close>)
      then show ?thesis using hid(2) [OF _ Some] by (simp add: recordClaim_def i Some)
    qed
  next
    case False
    then have "recordClaim tok c s = s" by (auto simp: recordClaim_def split: option.splits stage.splits)
    then show ?thesis using inv by simp
  qed
qed

lemma saved_inv:
  assumes inv: "pool_inv tok s" and i: "claim_of c s = Some (i, Recorded)" and r: "po_recs s i = Some r"
    and t: "t = s\<lparr>po_disk := (po_disk s)(i := Some r), po_claims := filter (\<lambda>(d, _). d \<noteq> c) (po_claims s), po_answers := (c, i) # po_answers s\<rparr>"
  shows "pool_inv tok t"
proof -
  have cl: "set (po_claims t) = {q \<in> set (po_claims s). fst (snd q) \<noteq> i}" using ended_claims [OF inv i] by (simp add: t)
  have "claim_ok tok s (c, i, Recorded)" using claim_of_Some [OF i] inv by (auto simp: pool_inv_def records_ok_def)
  then have an: "answer_ok tok t (c, i)" using r by (simp add: claim_ok_def answer_ok_def t)
  have "owners_ok t" by (rule ended_owners [OF inv i]) (simp_all add: t)
  moreover have "records_ok tok t"
  proof (rule records_at [where s = s and i = i and x = "Some r" and y = "Some r" and z = "po_execd s i"])
    show "records_ok tok s" using inv by (simp add: pool_inv_def)
    show "j \<noteq> i \<and> (d, j) \<in> set (po_answers s) \<or> answer_ok tok t (d, j)" if a: "(d, j) \<in> set (po_answers t)" for d j
    proof -
      have "(d, j) = (c, i) \<or> (d, j) \<in> set (po_answers s)" using a by (simp add: t)
      then show ?thesis using an claim_frees(2) [OF inv i] by auto
    qed
    show "(d, j, Recorded) \<in> set (po_claims t)" if "j \<noteq> i" "(d, j, Recorded) \<in> set (po_claims s)" for d j using that by (simp add: cl)
    show "j \<noteq> i \<and> (d, j, x) \<in> set (po_claims s) \<or> claim_ok tok t (d, j, x)" if "(d, j, x) \<in> set (po_claims t)" for d j x
      using that by (simp add: cl)
  qed (use claim_frees(1) [OF inv i] in \<open>auto simp: t r\<close>)
  ultimately show ?thesis by (simp add: pool_inv_def)
qed

lemma blank_inv:
  assumes inv: "pool_inv tok s" and i: "claim_of c s = Some (i, Recorded)" and r: "po_recs s i = None"
  shows "pool_inv tok (s\<lparr>po_claims := filter (\<lambda>(d, _). d \<noteq> c) (po_claims s), po_blank := b\<rparr>)" (is "pool_inv tok ?t")
proof -
  have cl: "set (po_claims ?t) = {q \<in> set (po_claims s). fst (snd q) \<noteq> i}" using ended_claims [OF inv i] by simp
  have "owners_ok ?t" by (rule ended_owners [OF inv i]) auto
  moreover have "records_ok tok ?t"
  proof (rule records_at [where s = s and i = i and x = "None" and y = "po_disk s i" and z = "po_execd s i"])
    show "records_ok tok s" using inv by (simp add: pool_inv_def)
    show "(d, j, Recorded) \<in> set (po_claims ?t)" if "j \<noteq> i" "(d, j, Recorded) \<in> set (po_claims s)" for d j using that unfolding cl by simp
    show "j \<noteq> i \<and> (d, j, x) \<in> set (po_claims s) \<or> claim_ok tok ?t (d, j, x)" if "(d, j, x) \<in> set (po_claims ?t)" for d j x
      using that unfolding cl by simp
    show "j \<noteq> i \<and> (d, j) \<in> set (po_answers s) \<or> answer_ok tok ?t (d, j)" if "(d, j) \<in> set (po_answers ?t)" for d j
      using that claim_frees(2) [OF inv i] by auto
  qed (use claim_frees(1) [OF inv i] claim_hidden(1) [OF inv i] r in \<open>auto simp: fun_eq_iff\<close>)
  ultimately show ?thesis by (simp add: pool_inv_def)
qed

lemma saveClaim_inv: "pool_inv tok s \<Longrightarrow> pool_inv tok (saveClaim c saved s)"
proof -
  assume inv: "pool_inv tok s"
  show ?thesis
  proof (cases "\<exists>i. claim_of c s = Some (i, Recorded)")
    case True
    then obtain i where i: "claim_of c s = Some (i, Recorded)" by auto
    show ?thesis
    proof (cases "po_recs s i")
      case None
      then show ?thesis using blank_inv [OF inv i None] by (simp add: saveClaim_def i)
    next
      case (Some r)
      have "pool_inv tok (claim_failed c i (s\<lparr>po_recs := (po_recs s)(i := Some (r\<lparr>or_Pool := ''claim-failed''\<rparr>)), po_execd := (po_execd s)(i := po_execd s i)\<rparr>))"
        by (rule claim_failed_inv [OF inv i refl]) (use claim_hidden(1) [OF inv i] in auto)
      then show ?thesis using saved_inv [OF inv i Some refl] by (simp add: saveClaim_def i Some)
    qed
  next
    case False
    then have "saveClaim c saved s = s" by (auto simp: saveClaim_def split: option.splits stage.splits)
    then show ?thesis using inv by simp
  qed
qed


lemma drop_record_inv:
  assumes inv: "pool_inv tok s" and u: "i \<in> set (po_used s)"
  shows "pool_inv tok (drop_record i s)"
proof -
  have r: "records_ok tok s" using inv by (simp add: pool_inv_def)
  have "owners_ok (drop_record i s)" using inv by (simp add: drop_record_def pool_inv_def pool_defs)
  moreover have "records_ok tok (drop_record i s)"
  proof (rule records_at [OF r, where i = i and x = "None" and y = "None" and z = "po_execd s i"])
    show "j \<noteq> i \<and> (d, j) \<in> set (po_answers s) \<or> answer_ok tok (drop_record i s) (d, j)" if a: "(d, j) \<in> set (po_answers (drop_record i s))" for d j
    proof -
      have "(d, j) \<in> set (po_answers s)" using a by (simp add: drop_record_def)
      moreover from this have "answer_ok tok s (d, j)" using r by (auto simp: records_ok_def)
      ultimately show ?thesis by (auto simp: answer_ok_def drop_record_def)
    qed
    show "j \<noteq> i \<and> (d, j, x) \<in> set (po_claims s) \<or> claim_ok tok (drop_record i s) (d, j, x)" if a: "(d, j, x) \<in> set (po_claims (drop_record i s))" for d j x
    proof -
      have "(d, j, x) \<in> set (po_claims s)" using a by (simp add: drop_record_def)
      moreover from this have "claim_ok tok s (d, j, x)" using r by (auto simp: records_ok_def)
      ultimately show ?thesis by (auto simp: claim_ok_def drop_record_def split: stage.splits)
    qed
  qed (use u in \<open>auto simp: drop_record_def\<close>)
  ultimately show ?thesis by (simp add: pool_inv_def)
qed

lemma discard_inv: "pool_inv tok s \<Longrightarrow> pool_inv tok (discard i s)"
proof -
  assume inv: "pool_inv tok s"
  then have "set (po_discarding s) \<subseteq> set (po_used s)" by (simp add: pool_inv_def owners_ok_def)
  then show ?thesis using inv drop_record_inv [OF inv] by (auto simp: discard_def)
qed

lemma delete_sandbox_inv: "pool_inv tok s \<Longrightarrow> pool_inv tok (delete_sandbox i s)"
proof -
  assume inv: "pool_inv tok s"
  have "i \<in> set (po_used s)" if v: "visible s i"
  proof (rule ccontr)
    assume "i \<notin> set (po_used s)"
    then have "po_recs s i = None" using inv by (simp add: pool_inv_def records_ok_def)
    then show False using v by (simp add: visible_def)
  qed
  then show ?thesis using inv drop_record_inv [OF inv] by (simp add: delete_sandbox_def)
qed

lemma restart_inv: "pool_inv tok s \<Longrightarrow> pool_inv tok (restart s)"
proof -
  assume inv: "pool_inv tok s"
  then have r: "records_ok tok s" and o: "owners_ok s" by (auto simp: pool_inv_def)
  have hid: "\<not> (case po_disk s i of None \<Rightarrow> False | Some r \<Rightarrow> or_Pool r \<noteq> [])" if a: "i \<in> snd ` set (po_answers s)" for i
  proof -
    obtain c where "(c, i) \<in> set (po_answers s)" using a by auto
    then have "answer_ok tok s (c, i)" using r by (auto simp: records_ok_def)
    then show ?thesis by (auto simp: answer_ok_def split: option.splits)
  qed
  have "owners_ok (restart s)" using o hid by (auto simp: owners_ok_def owned_def restart_def claim_ids_def)
  moreover have "records_ok tok (restart s)" unfolding records_ok_def
  proof (intro conjI ballI allI impI)
    fix q assume "q \<in> set (po_answers (restart s))"
    then have "answer_ok tok s q" using r by (simp add: records_ok_def restart_def)
    then show "answer_ok tok (restart s) q" by (auto simp: answer_ok_def restart_def)
  next
    fix i assume "visible (restart s) i"
    then have "i \<in> snd ` set (po_answers s)" using r by (auto simp: visible_def restart_def records_ok_def split: option.splits)
    then show "i \<in> snd ` set (po_answers (restart s)) \<or> (\<exists>c. (c, i, Recorded) \<in> set (po_claims (restart s)))" by (simp add: restart_def)
  qed (use r in \<open>auto simp: restart_def records_ok_def\<close>)
  ultimately show ?thesis by (simp add: pool_inv_def)
qed

lemmas pool_steps_inv = fill_count_inv add_begin_inv add_end_inv add_counted_inv take_member_inv rekey_member_inv
  recordClaim_inv saveClaim_inv discard_inv delete_sandbox_inv restart_inv

lemma pool_do_inv: "pool_inv tok s \<Longrightarrow> pool_inv tok (pool_do tok op s)"
  by (cases op) (simp_all add: pool_do_def pool_steps_inv)

lemma new_pool_inv: "key \<noteq> [] \<Longrightarrow> pool_inv tok (new_pool sz key)"
  by (simp add: pool_inv_def owners_ok_def owned_def claim_ids_def records_ok_def new_pool_def visible_def)

interpretation pl: invariant_system "\<lambda>s. \<exists>sz key. key \<noteq> [] \<and> s = new_pool sz key" "pool_step tok" "pool_inv tok"
proof (unfold_locales, goal_cases)
  case (1 s)
  then show ?case using new_pool_inv by auto
next
  case (2 s t)
  then show ?case using pool_do_inv by (auto simp: pool_step_def)
qed

section \<open>What holds of it\<close>












lemma reach_ops:
  assumes "key \<noteq> []"
  shows "reach (\<lambda>s. \<exists>sz key. key \<noteq> [] \<and> s = new_pool sz key) (pool_step tok) (fold (pool_do tok) ops (new_pool sz key))"
proof (induction ops rule: rev_induct)
  case Nil
  show ?case using assms by (auto intro: reach_init)
next
  case (snoc op ops)
  show ?case by (rule reach_step [OF snoc]) (auto simp: pool_step_def)
qed

definition demo_claim :: "pool_op list" where
  "demo_claim = [Fill_count, Add_begin ''osb-1'' ''t0'' True, Add_begin ''osb-2'' ''t1'' True, Add_end ''osb-1'' True, Add_end ''osb-2'' True, Take 0, Take 1,
     Rekey_member 0 False True, Rekey_member 1 True False, Record_claim 0, Save_claim 0 True]"


text \<open>
  (C26) The pool is bounded and unseen: the members ready and those being made are never more than its size,
  no member of it is visible through the API, and what is visible was answered to a create or is being
  recorded for one whose token its agent already has.\<close>

theorem pool_bounded_and_unseen:
  assumes "reach (\<lambda>s. \<exists>sz key. key \<noteq> [] \<and> s = new_pool sz key) (pool_step tok) s"
  shows "length (po_ready s) + length (po_filling s) \<le> po_size s \<and>
    (\<forall>i. visible s i \<longrightarrow> i \<notin> mb_id ` set (po_ready s) \<union> set (po_filling s) \<and> (\<exists>c. po_execd s i = tok c \<and>
      ((c, i) \<in> set (po_answers s) \<or> (c, i, Recorded) \<in> set (po_claims s))))"
proof (intro conjI allI impI)
  have inv: "pool_inv tok s" by (rule pl.reach_inv [OF assms])
  then show "length (po_ready s) + length (po_filling s) \<le> po_size s" by (simp add: pool_inv_def owners_ok_def)
  fix i assume "visible s i"
  then have v: "i \<in> snd ` set (po_answers s) \<or> (\<exists>c. (c, i, Recorded) \<in> set (po_claims s))" using inv by (simp add: pool_inv_def records_ok_def)
  then have "i \<in> set (map snd (po_answers s)) \<union> set (claim_ids s)" by (force simp: claim_ids_def)
  moreover have "distinct (owned s)" using inv by (simp add: pool_inv_def owners_ok_def)
  ultimately show "i \<notin> mb_id ` set (po_ready s) \<union> set (po_filling s)" by (auto simp: owned_def)
  from v obtain c where c: "(c, i) \<in> set (po_answers s) \<or> (c, i, Recorded) \<in> set (po_claims s)" by force
  moreover have "answer_ok tok s (c, i) \<or> claim_ok tok s (c, i, Recorded)" using c inv unfolding pool_inv_def records_ok_def by blast
  ultimately show "\<exists>c. po_execd s i = tok c \<and> ((c, i) \<in> set (po_answers s) \<or> (c, i, Recorded) \<in> set (po_claims s))"
    by (auto simp: answer_ok_def claim_ok_def)
qed

theorem pool_bounded_and_unseen_witness:
  "\<not> visible (fold (pool_do (\<lambda>_. ''key'')) (take 5 demo_claim) (new_pool 2 ''k'')) ''osb-1'' \<and>
   visible (fold (pool_do (\<lambda>_. ''key'')) (take 10 demo_claim) (new_pool 2 ''k'')) ''osb-1''"
proof -
  have k: "''k'' \<noteq> []" by simp
  have m: "''osb-1'' \<in> mb_id ` set (po_ready (fold (pool_do (\<lambda>_. ''key'')) (take 5 demo_claim) (new_pool 2 ''k'')))" by code_simp
  have v: "visible (fold (pool_do (\<lambda>_. ''key'')) (take 10 demo_claim) (new_pool 2 ''k'')) ''osb-1''" by code_simp
  show ?thesis using pool_bounded_and_unseen [OF reach_ops [OF k]] m v by blast
qed

text \<open>A sandbox deleted while its claim is being saved: the create is answered with the empty record.\<close>

lemma deleted_claim_answers_blank:
  "let s = fold (pool_do (\<lambda>_. ''key'')) (take 10 demo_claim @ [Delete_sandbox ''osb-1'', Save_claim 0 True]) (new_pool 2 ''k'')
   in po_blank s = [0] \<and> po_answers s = [] \<and> po_recs s ''osb-1'' = None"
  by code_simp

text \<open>A request that a pool can carry sets no field and no extension outside the two lists.\<close>

lemma poolable_iff:
  "poolBlocker body ext = None \<longleftrightarrow> map_of ext ''sbx.pool'' \<noteq> Some ''off'' \<and> (\<exists>fs. body = Some fs \<and>
     (\<forall>(k, v) \<in> set fs. k \<in> set poolFields \<or> \<not> present v \<or> v \<in> {''[]'', [CHR 0x22, CHR 0x22], ''false''})) \<and> fst ` set ext \<subseteq> set poolExtensions"
  (is "?l \<longleftrightarrow> ?r")
proof -
  have "(case List.find P xs of None \<Rightarrow> z | Some (k, _) \<Rightarrow> Some (f k)) = None \<longleftrightarrow> (\<forall>x \<in> set xs. \<not> P x) \<and> z = None"
    for P and xs :: "(string \<times> string) list" and z and f :: "string \<Rightarrow> blocker"
    by (auto simp: find_None_iff find_Some_iff split: option.splits)
  then show ?thesis by (auto simp: poolBlocker_def find_None_iff split: option.splits)
qed

lemma ParsePool_sized: "ParsePool w = Inr (img, sz) \<Longrightarrow> img \<noteq> [] \<and> 1 \<le> sz"
  by (auto simp: ParsePool_def Let_def defaultPoolSize_def split: prod.splits if_splits option.splits)

text \<open>Every sandbox asked for is in some pool.\<close>

lemma newPools_total:
  "newPools val specs pools = Some ps \<Longrightarrow> distinct (map fst pools) \<Longrightarrow>
     distinct (map fst ps) \<and> sum_list (map snd ps) = sum_list (map snd pools) + sum_list (map snd specs)"
proof (induction val specs pools rule: newPools.induct)
  case (2 val img sz specs pools)
  have new: "map_of pools k = None \<Longrightarrow> sum_list (map snd (AList.update k n pools)) = sum_list (map snd pools) + (n :: int)" for k n and pools :: "(string \<times> int) list"
    by (induction pools) (auto split: if_splits)
  have upd: "map_of pools k = Some m \<Longrightarrow> sum_list (map snd (AList.update k (m + n) pools)) = sum_list (map snd pools) + (n :: int)" for k m n and pools :: "(string \<times> int) list"
    by (induction pools) (auto split: if_splits)
  show ?case using 2 by (auto simp: new upd distinct_update split: option.splits)
qed simp

end
