(* ===== verification/Vault_Match.thy ===== *)
theory Vault_Match
  imports Go_Strings
begin

text \<open>
  What a credential binding says and which requests it covers: the wire types of
  \<^verbatim>\<open>internal/credvault/credvault.go\<close>, the normalisation and the overlap test of
  \<^verbatim>\<open>internal/credvault/validate.go\<close> and the match of \<^verbatim>\<open>internal/credvault/apply.go\<close> and
  \<^verbatim>\<open>vault.go\<close>. The central fact is that the overlap test is exact: it finds two normalised bindings to
  overlap exactly when some request is covered by both.
\<close>

section \<open>Wire types\<close>

record inlineSource =
  src_Type :: string
  src_Value :: string

record credential =
  cred_Name :: string
  cred_Source :: inlineSource

record "match" =
  m_Schemes :: "string list"
  m_Ports :: "int list"
  m_Hosts :: "string list"
  m_Methods :: "string list"
  m_Paths :: "string list"

record headerEntry =
  he_Name :: string
  he_Credential :: string

record substitution =
  sub_Credential :: string
  sub_Placeholder :: string
  sub_In :: "string list"

record auth =
  au_Type :: string
  au_Credential :: string
  au_Name :: string
  au_Headers :: "headerEntry list"
  au_Substitutions :: "substitution list"

record binding =
  b_Name :: string
  b_Match :: "match"
  b_Auth :: auth

text \<open>\<open>credrec\<close> is the type \<open>record\<close> of \<^verbatim>\<open>validate.go\<close>.\<close>

record credrec =
  rec_Name :: string
  rec_SourceType :: string
  rec_Source :: string
  rec_Revision :: int

section \<open>Refusals\<close>

text \<open>An \<open>Error\<close> of the package: the sentence of \<open>invalid\<close>, as a tag with its arguments, or one wrapped with
  the name of its binding.\<close>

datatype why = Invalid string "string list" | In_binding string why

abbreviation Blank_credential_name :: "why" where "Blank_credential_name \<equiv> Invalid ''a credential needs a name'' []"
abbreviation Bad_source :: "string \<Rightarrow> string \<Rightarrow> why" where "Bad_source x y \<equiv> Invalid ''source.type is not a source this vault has'' [x, y]"
abbreviation Empty_value :: "string \<Rightarrow> why" where "Empty_value x \<equiv> Invalid ''source.value is empty'' [x]"
abbreviation Blank_binding_name :: "why" where "Blank_binding_name \<equiv> Invalid ''a binding needs a name'' []"
abbreviation No_hosts :: "why" where "No_hosts \<equiv> Invalid ''match.hosts cannot be empty'' []"
abbreviation Bad_scheme :: "string \<Rightarrow> why" where "Bad_scheme x \<equiv> Invalid ''match.schemes'' [x]"
abbreviation Bad_port :: "int \<Rightarrow> why" where "Bad_port x \<equiv> Invalid ''match.ports'' [Itoa x]"
abbreviation Blank_host :: "why" where "Blank_host \<equiv> Invalid ''match.hosts has a blank entry'' []"
abbreviation Not_bare_host :: "string \<Rightarrow> why" where "Not_bare_host x \<equiv> Invalid ''a host is a bare name'' [x]"
abbreviation Bad_wildcard :: "string \<Rightarrow> why" where "Bad_wildcard x \<equiv> Invalid ''a wildcard is a leading *. and a domain'' [x]"
abbreviation Not_FQDN :: "string \<Rightarrow> why" where "Not_FQDN x \<equiv> Invalid ''a binding names an FQDN'' [x]"
abbreviation Blank_method :: "why" where "Blank_method \<equiv> Invalid ''match.methods has a blank entry'' []"
abbreviation Bad_path :: "string \<Rightarrow> why" where "Bad_path x \<equiv> Invalid ''a path pattern starts with /'' [x]"
abbreviation Auth_needs_credential :: "string \<Rightarrow> why" where "Auth_needs_credential x \<equiv> Invalid ''auth.credential is required'' [x]"
abbreviation Not_header_name :: "string \<Rightarrow> why" where "Not_header_name x \<equiv> Invalid ''not a header name'' [x]"
abbreviation Reserved_header :: "string \<Rightarrow> why" where "Reserved_header x \<equiv> Invalid ''reserved header'' [x]"
abbreviation No_headers :: "why" where "No_headers \<equiv> Invalid ''auth.headers is required'' []"
abbreviation Header_twice :: "string \<Rightarrow> why" where "Header_twice x \<equiv> Invalid ''auth.headers names a header twice'' [x]"
abbreviation Header_needs_credential :: "string \<Rightarrow> why" where "Header_needs_credential x \<equiv> Invalid ''auth.headers entry needs a credential'' [x]"
abbreviation Passthrough_credential :: "why" where "Passthrough_credential \<equiv> Invalid ''auth.credential does not belong to passthrough'' []"
abbreviation Passthrough_name :: "why" where "Passthrough_name \<equiv> Invalid ''auth.name does not belong to passthrough'' []"
abbreviation Passthrough_headers :: "why" where "Passthrough_headers \<equiv> Invalid ''auth.headers does not belong to passthrough'' []"
abbreviation Unknown_auth :: "string \<Rightarrow> why" where "Unknown_auth x \<equiv> Invalid ''auth.type is not a type this vault has'' [x]"
abbreviation Sub_needs_credential :: "nat \<Rightarrow> why" where "Sub_needs_credential x \<equiv> Invalid ''substitution needs a credential'' [Itoa (int x)]"
abbreviation Sub_needs_placeholder :: "nat \<Rightarrow> why" where "Sub_needs_placeholder x \<equiv> Invalid ''substitution needs a placeholder'' [Itoa (int x)]"
abbreviation Sub_needs_surface :: "nat \<Rightarrow> why" where "Sub_needs_surface x \<equiv> Invalid ''substitution needs a surface'' [Itoa (int x)]"
abbreviation Bad_surface :: "nat \<Rightarrow> string \<Rightarrow> why" where "Bad_surface x y \<equiv> Invalid ''substitution surface'' [Itoa (int x), y]"
abbreviation Sub_twice :: "nat \<Rightarrow> string \<Rightarrow> string \<Rightarrow> nat \<Rightarrow> why" where "Sub_twice x y z u \<equiv> Invalid ''two values for one placeholder'' [Itoa (int x), y, z, Itoa (int u)]"
abbreviation Credential_twice :: "string \<Rightarrow> why" where "Credential_twice x \<equiv> Invalid ''credentials names it twice'' [x]"
abbreviation Binding_twice :: "string \<Rightarrow> why" where "Binding_twice x \<equiv> Invalid ''bindings names it twice'' [x]"
abbreviation Unknown_credential :: "string \<Rightarrow> string \<Rightarrow> why" where "Unknown_credential x y \<equiv> Invalid ''binding names an unknown credential'' [x, y]"
abbreviation Host_denied :: "string \<Rightarrow> string \<Rightarrow> why" where "Host_denied x y \<equiv> Invalid ''egress policy denies the host'' [x, y]"
abbreviation Both_cover :: "string \<Rightarrow> string \<Rightarrow> string \<Rightarrow> why" where "Both_cover x y z \<equiv> Invalid ''both bindings cover'' [x, y, z]"
abbreviation No_authority_for_bindings :: "why" where "No_authority_for_bindings \<equiv> Invalid ''no credential authority'' []"
abbreviation Not_certifiable :: "string \<Rightarrow> string \<Rightarrow> why" where "Not_certifiable x y \<equiv> Invalid ''authority may not sign for the host'' [x, y]"
abbreviation Delete_blank :: "why" where "Delete_blank \<equiv> Invalid ''delete has a blank name'' []"
abbreviation Two_operations :: "string \<Rightarrow> why" where "Two_operations x \<equiv> Invalid ''more than one operation'' [x]"
abbreviation Delete_unknown :: "string \<Rightarrow> why" where "Delete_unknown x \<equiv> Invalid ''delete of an unknown name'' [x]"
abbreviation Replace_unknown :: "string \<Rightarrow> why" where "Replace_unknown x \<equiv> Invalid ''replace of an unknown name'' [x]"
abbreviation Add_known :: "string \<Rightarrow> why" where "Add_known x \<equiv> Invalid ''add of a known name'' [x]"
abbreviation No_such_credential :: "string \<Rightarrow> why" where "No_such_credential x \<equiv> Invalid ''no such credential'' [x]"
abbreviation No_such_binding :: "string \<Rightarrow> why" where "No_such_binding x \<equiv> Invalid ''no such binding'' [x]"
abbreviation Authority_needs_host :: "why" where "Authority_needs_host \<equiv> Invalid ''an authority needs at least one host'' []"
abbreviation Authority_empty_host :: "why" where "Authority_empty_host \<equiv> Invalid ''an authority cannot be constrained to an empty host'' []"
abbreviation Authority_address :: "string \<Rightarrow> why" where "Authority_address x \<equiv> Invalid ''binding host is an address'' [x]"
abbreviation Authority_may_not_sign :: "string \<Rightarrow> why" where "Authority_may_not_sign x \<equiv> Invalid ''authority may not sign'' [x]"

section \<open>Credentials and header names\<close>

definition normalizeCredential :: "credential \<Rightarrow> int \<Rightarrow> (why, credrec) res" where
  "normalizeCredential c revision = (let name = TrimSpace (cred_Name c); t = TrimSpace (src_Type (cred_Source c)) in
     if name = [] then Inl Blank_credential_name
     else if t \<noteq> ''inline'' then Inl (Bad_source name t)
     else if src_Value (cred_Source c) = [] then Inl (Empty_value name)
     else Inr \<lparr>rec_Name = name, rec_SourceType = ''inline'', rec_Source = src_Value (cred_Source c), rec_Revision = revision\<rparr>)"

definition isAlnum :: "char \<Rightarrow> bool" where "isAlnum c = (isDigit c \<or> isLower c \<or> isUpper c)"

definition tokenByte :: "char \<Rightarrow> bool" where
  "tokenByte c = (isAlnum c \<or> c \<in> set ''!#$%&*+-.^_|~'' \<or> c = CHR 39 \<or> c = CHR 96)"

definition headerFieldName :: "string \<Rightarrow> bool" where
  "headerFieldName s = (s \<noteq> [] \<and> list_all tokenByte s)"

definition hostnameLabel :: "string \<Rightarrow> bool" where
  "hostnameLabel l = (case l of [] \<Rightarrow> False
     | c # cs \<Rightarrow> isAlnum c \<and> (cs = [] \<or> length cs \<le> 62 \<and> isAlnum (last cs) \<and>
         list_all (\<lambda>x. isAlnum x \<or> x = CHR ''-'' \<or> x = CHR ''_'') (butlast cs)))"

definition reservedHeaderName :: "string \<Rightarrow> bool" where
  "reservedHeaderName name = (ToLower name \<in> set [''host'', ''content-length'', ''content-type'',
     ''transfer-encoding'', ''connection'', ''upgrade'', ''te'', ''trailer'', ''proxy-authorization'',
     ''proxy-authenticate'', ''forwarded'', ''x-forwarded-for'', ''x-forwarded-host'', ''x-forwarded-proto''])"

definition checkHeaderName :: "string \<Rightarrow> (why, unit) res" where
  "checkHeaderName name =
     then_res (guard_res (name = [] \<or> \<not> headerFieldName name) (Not_header_name name))
              (guard_res (reservedHeaderName name) (Reserved_header name))"

definition capitalize :: "string \<Rightarrow> string" where
  "capitalize p = (case p of [] \<Rightarrow> [] | c # cs \<Rightarrow> ToUpper [c] @ cs)"

definition canonicalHeader :: "string \<Rightarrow> string" where
  "canonicalHeader name = (if name = [] \<or> \<not> headerFieldName name then name
     else Join (map capitalize (Split (ToLower name) CHR ''-'')) ''-'')"

text \<open>\<open>CanonicalMIMEHeaderKey\<close> of \<^verbatim>\<open>net/textproto\<close>, which \<open>Header.Set\<close> applies to its key.\<close>

fun mime_loop :: "bool \<Rightarrow> string \<Rightarrow> string" where
  "mime_loop upper [] = []"
| "mime_loop upper (c # cs) = (if upper then upperByte c else lowerByte c) # mime_loop (c = CHR ''-'') cs"

definition CanonicalMIMEHeaderKey :: "string \<Rightarrow> string" where
  "CanonicalMIMEHeaderKey s = (if list_all tokenByte s then mime_loop True s else s)"

section \<open>Matches\<close>

definition defaultMethods :: "string list" where "defaultMethods = [''GET'', ''POST'', ''PUT'', ''PATCH'', ''DELETE'']"
definition defaultPaths :: "string list" where "defaultPaths = [''/*'']"
definition defaultSchemes :: "string list" where "defaultSchemes = [''https'']"
definition substitutionSurfaces :: "string list" where
  "substitutionSurfaces = [''path'', ''query'', ''header'', ''body'']"

definition dedupe :: "string list \<Rightarrow> string list" where "dedupe xs = keep_first (\<lambda>x. x) [] xs"

definition validFQDN :: "string \<Rightarrow> bool" where
  "validFQDN host = (length host \<le> 253 \<and> CHR ''.'' \<in> set host \<and> list_all hostnameLabel (Split host CHR ''.''))"

definition normalizeHost :: "string \<Rightarrow> (why, string) res" where
  "normalizeHost host0 = (let host = ToLower (TrimSuffix (TrimSpace host0) ''.'') in
     if host = [] then Inl Blank_host
     else if Contains host ''://'' \<or> ContainsAny host ''/:@ '' then Inl (Not_bare_host host)
     else let wild = HasPrefix host ''*.''; name = (if wild then drop 2 host else host) in
       if wild \<and> (name = [] \<or> CHR ''*'' \<in> set name) \<or> \<not> wild \<and> CHR ''*'' \<in> set host then Inl (Bad_wildcard host)
       else if \<not> validFQDN name then Inl (Not_FQDN host)
       else Inr host)"

definition norm_scheme :: "string \<Rightarrow> (why, string) res" where
  "norm_scheme s0 = (let s = ToLower (TrimSpace s0) in if s \<noteq> ''https'' \<and> s \<noteq> ''http'' then Inl (Bad_scheme s) else Inr s)"

definition norm_method :: "string \<Rightarrow> (why, string) res" where
  "norm_method s = (let m = ToUpper (TrimSpace s) in if m = [] then Inl Blank_method else Inr m)"

definition norm_path :: "string \<Rightarrow> (why, string) res" where
  "norm_path s = (let p = TrimSpace s in if p = [] \<or> \<not> HasPrefix p ''/'' then Inl (Bad_path p) else Inr p)"

definition or_default :: "string list \<Rightarrow> string list \<Rightarrow> string list" where
  "or_default d xs = (if xs = [] then d else xs)"

definition normalizeMatch :: "match \<Rightarrow> (why, match) res" where
  "normalizeMatch m = (if m_Hosts m = [] then Inl No_hosts else
     bind_res (traverse norm_scheme (or_default defaultSchemes (m_Schemes m))) (\<lambda>schemes.
     then_res (check_all (\<lambda>p. guard_res (p \<noteq> 80 \<and> p \<noteq> 443) (Bad_port p)) (m_Ports m))
    (bind_res (traverse normalizeHost (m_Hosts m)) (\<lambda>hosts.
     bind_res (traverse norm_method (or_default defaultMethods (m_Methods m))) (\<lambda>methods.
     bind_res (traverse norm_path (or_default defaultPaths (m_Paths m))) (\<lambda>paths.
       Inr \<lparr>m_Schemes = dedupe schemes, m_Ports = [], m_Hosts = dedupe hosts,
            m_Methods = dedupe methods, m_Paths = dedupe paths\<rparr>))))))"

section \<open>Auth\<close>

definition authBearer :: string where "authBearer = ''bearer''"
definition authBasic :: string where "authBasic = ''basic''"
definition authAPIKey :: string where "authAPIKey = ''apiKey''"
definition authCustomHeaders :: string where "authCustomHeaders = ''customHeaders''"
definition authPassthrough :: string where "authPassthrough = ''passthrough''"

text \<open>One entry of \<open>auth.headers\<close>; \<open>seen\<close> holds the lower-cased names of the entries before it.\<close>

fun norm_headers :: "string list \<Rightarrow> headerEntry list \<Rightarrow> (why, headerEntry list) res" where
  "norm_headers seen [] = Inr []"
| "norm_headers seen (h # hs) = (let name = canonicalHeader (TrimSpace (he_Name h)); key = ToLower name;
       cred = TrimSpace (he_Credential h) in
     then_res (checkHeaderName name)
    (if key \<in> set seen then Inl (Header_twice name)
     else if cred = [] then Inl (Header_needs_credential name)
     else bind_res (norm_headers (key # seen) hs) (\<lambda>rest. Inr (\<lparr>he_Name = name, he_Credential = cred\<rparr> # rest))))"

text \<open>The surfaces of substitution \<open>i\<close>; \<open>seen\<close> keys a placeholder and a surface to the substitution
  that claimed them.\<close>

fun norm_surfaces :: "nat \<Rightarrow> string \<Rightarrow> ((string \<times> string) \<times> nat) list \<Rightarrow> string list
    \<Rightarrow> (why, string list \<times> ((string \<times> string) \<times> nat) list) res" where
  "norm_surfaces i placeholder seen [] = Inr ([], seen)"
| "norm_surfaces i placeholder seen (x # xs) = (let surface = ToLower (TrimSpace x) in
     if surface \<notin> set substitutionSurfaces then Inl (Bad_surface i surface)
     else (case map_of seen (placeholder, surface) of
         Some prev \<Rightarrow> Inl (Sub_twice i placeholder surface prev)
       | None \<Rightarrow> bind_res (norm_surfaces i placeholder (((placeholder, surface), i) # seen) xs)
           (\<lambda>(rest, seen'). Inr (surface # rest, seen'))))"

fun norm_subs :: "nat \<Rightarrow> ((string \<times> string) \<times> nat) list \<Rightarrow> substitution list \<Rightarrow> (why, substitution list) res" where
  "norm_subs i seen [] = Inr []"
| "norm_subs i seen (s # ss) = (let cred = TrimSpace (sub_Credential s) in
     if cred = [] then Inl (Sub_needs_credential i)
     else if sub_Placeholder s = [] then Inl (Sub_needs_placeholder i)
     else if sub_In s = [] then Inl (Sub_needs_surface i)
     else bind_res (norm_surfaces i (sub_Placeholder s) seen (sub_In s)) (\<lambda>(surfaces, seen').
          bind_res (norm_subs (i + 1) seen' ss) (\<lambda>rest.
            Inr (s\<lparr>sub_Credential := cred, sub_In := surfaces\<rparr> # rest))))"

definition normalizeSubstitutions :: "substitution list \<Rightarrow> (why, substitution list) res" where
  "normalizeSubstitutions subs = norm_subs 0 [] subs"

definition norm_auth_type :: "auth \<Rightarrow> (why, auth) res" where
  "norm_auth_type a = (let t = au_Type a; cred = TrimSpace (au_Credential a) in
     if t = authBearer \<or> t = authBasic then
       (if cred = [] then Inl (Auth_needs_credential t) else Inr (a\<lparr>au_Credential := cred\<rparr>))
     else if t = authAPIKey then
       (let name = canonicalHeader (TrimSpace (au_Name a)) in
        then_res (checkHeaderName name)
         (if cred = [] then Inl (Auth_needs_credential t) else Inr (a\<lparr>au_Name := name, au_Credential := cred\<rparr>)))
     else if t = authCustomHeaders then
       (if au_Headers a = [] then Inl No_headers
        else bind_res (norm_headers [] (au_Headers a)) (\<lambda>hs. Inr (a\<lparr>au_Headers := hs\<rparr>)))
     else if t = authPassthrough then
       (if cred \<noteq> [] then Inl Passthrough_credential
        else if TrimSpace (au_Name a) \<noteq> [] then Inl Passthrough_name
        else if au_Headers a \<noteq> [] then Inl Passthrough_headers
        else Inr a)
     else Inl (Unknown_auth t))"

definition normalizeAuth :: "auth \<Rightarrow> (why, auth) res" where
  "normalizeAuth a0 = bind_res (norm_auth_type (a0\<lparr>au_Type := TrimSpace (au_Type a0)\<rparr>)) (\<lambda>a.
     bind_res (normalizeSubstitutions (au_Substitutions a)) (\<lambda>subs. Inr (a\<lparr>au_Substitutions := subs\<rparr>)))"

definition normalizeBinding :: "binding \<Rightarrow> (why, binding) res" where
  "normalizeBinding b = (let name = TrimSpace (b_Name b) in
     if name = [] then Inl Blank_binding_name
     else bind_res (map_err (In_binding name) (normalizeMatch (b_Match b))) (\<lambda>m.
          bind_res (map_err (In_binding name) (normalizeAuth (b_Auth b))) (\<lambda>a.
            Inr \<lparr>b_Name = name, b_Match = m, b_Auth = a\<rparr>)))"

definition credentialsOf :: "auth \<Rightarrow> string list" where
  "credentialsOf a = (if au_Type a = authBearer \<or> au_Type a = authBasic \<or> au_Type a = authAPIKey then [au_Credential a]
     else if au_Type a = authCustomHeaders then map he_Credential (au_Headers a) else [])
     @ map sub_Credential (au_Substitutions a)"

section \<open>Overlap\<close>

definition firstCommon :: "string list \<Rightarrow> string list \<Rightarrow> string option" where
  "firstCommon xs ys = find (\<lambda>v. v \<in> set ys) xs"

definition hostPatternsOverlap :: "string \<Rightarrow> string \<Rightarrow> string option" where
  "hostPatternsOverlap x y =
     (let wildX = HasPrefix x ''*.''; wildY = HasPrefix y ''*.''; domX = TrimPrefix x ''*.''; domY = TrimPrefix y ''*.'' in
      if \<not> wildX \<and> \<not> wildY then (if x = y then Some x else None)
      else if wildX \<and> wildY then
        (if domX = domY then Some (''host.'' @ domX)
         else if HasSuffix domX (''.'' @ domY) then Some (''host.'' @ domX)
         else if HasSuffix domY (''.'' @ domX) then Some (''host.'' @ domY)
         else None)
      else if wildX then (if HasSuffix y (''.'' @ domX) then Some y else None)
      else (if HasSuffix x (''.'' @ domY) then Some x else None))"

definition pathPatternsOverlap :: "string \<Rightarrow> string \<Rightarrow> string option" where
  "pathPatternsOverlap x y =
     (let preX = TrimSuffix x ''*''; wildX = HasSuffix x ''*''; preY = TrimSuffix y ''*''; wildY = HasSuffix y ''*'' in
      if wildX \<and> wildY then
        (if HasPrefix preX preY then Some preX else if HasPrefix preY preX then Some preY else None)
      else if wildX then (if HasPrefix y preX then Some y else None)
      else if wildY then (if HasPrefix x preY then Some x else None)
      else (if x = y then Some x else None))"

text \<open>The two nested loops of \<open>overlappingHost\<close> and \<open>overlappingPath\<close>: the first pair with an answer.\<close>

fun first_pair :: "(string \<Rightarrow> string \<Rightarrow> string option) \<Rightarrow> (string \<times> string) list \<Rightarrow> string option" where
  "first_pair f [] = None"
| "first_pair f ((x, y) # ps) = (case f x y of Some z \<Rightarrow> Some z | None \<Rightarrow> first_pair f ps)"

definition overlappingHost :: "string list \<Rightarrow> string list \<Rightarrow> string option" where
  "overlappingHost xs ys = first_pair hostPatternsOverlap (List.product xs ys)"

definition overlappingPath :: "string list \<Rightarrow> string list \<Rightarrow> string option" where
  "overlappingPath xs ys = first_pair pathPatternsOverlap (List.product xs ys)"

definition bindingsOverlap :: "binding \<Rightarrow> binding \<Rightarrow> string option" where
  "bindingsOverlap a b = (case firstCommon (m_Schemes (b_Match a)) (m_Schemes (b_Match b)) of None \<Rightarrow> None
     | Some scheme \<Rightarrow> (case firstCommon (m_Methods (b_Match a)) (m_Methods (b_Match b)) of None \<Rightarrow> None
     | Some method \<Rightarrow> (case overlappingHost (m_Hosts (b_Match a)) (m_Hosts (b_Match b)) of None \<Rightarrow> None
     | Some host \<Rightarrow> (case overlappingPath (m_Paths (b_Match a)) (m_Paths (b_Match b)) of None \<Rightarrow> None
     | Some path \<Rightarrow> Some (method @ '' '' @ scheme @ ''://'' @ host @ path)))))"

section \<open>Which requests a binding covers\<close>

definition host_covers :: "string \<Rightarrow> string \<Rightarrow> bool" where
  "host_covers h host = (if HasPrefix h ''*.'' then HasSuffix host (drop 1 h) \<and> length host > length (drop 1 h)
     else h = host)"

definition matchesHost :: "string list \<Rightarrow> string \<Rightarrow> bool" where
  "matchesHost hosts host = list_ex (\<lambda>h. host_covers h host) hosts"

definition path_covers :: "string \<Rightarrow> string \<Rightarrow> bool" where
  "path_covers p path = (if HasSuffix p ''*'' then HasPrefix path (TrimSuffix p ''*'') else p = path)"

definition matchesPath :: "string list \<Rightarrow> string \<Rightarrow> bool" where
  "matchesPath paths path0 = (let path = (if path0 = [] then ''/'' else path0) in list_ex (\<lambda>p. path_covers p path) paths)"

definition matches :: "binding \<Rightarrow> string \<Rightarrow> string \<Rightarrow> string \<Rightarrow> string \<Rightarrow> bool" where
  "matches b scheme host method path =
     (scheme \<in> set (m_Schemes (b_Match b)) \<and> matchesHost (m_Hosts (b_Match b)) host \<and>
      ToUpper method \<in> set (m_Methods (b_Match b)) \<and> matchesPath (m_Paths (b_Match b)) path)"

section \<open>What normalisation gives\<close>

lemma upperByte_idem [simp]: "upperByte (upperByte c) = upperByte c"
  by (simp add: upperByte_def isLower_def)

lemma ToUpper_idem [simp]: "ToUpper (ToUpper s) = ToUpper s"
  by (simp add: ToUpper_def)

lemma set_dedupe [simp]: "set (dedupe xs) = set xs"
  using keep_first_keys [of "\<lambda>x. x" "[]" xs] by (simp add: dedupe_def)

lemma distinct_dedupe [simp]: "distinct (dedupe xs)"
  using keep_first_distinct [of "\<lambda>x. x" "[]" xs] by (simp add: dedupe_def)

text \<open>A normal match: what the data path relies on.\<close>

definition normal_match :: "match \<Rightarrow> bool" where
  "normal_match m = ((\<forall>s \<in> set (m_Schemes m). s = ''https'' \<or> s = ''http'') \<and>
     (\<forall>x \<in> set (m_Methods m). ToUpper x = x \<and> x \<noteq> []) \<and> (\<forall>p \<in> set (m_Paths m). HasPrefix p ''/'') \<and>
     (\<forall>h \<in> set (m_Hosts m). normalizeHost h = Inr h))"

lemma norm_scheme_out: "norm_scheme s = Inr t \<Longrightarrow> t = ''https'' \<or> t = ''http''"
  by (auto simp: norm_scheme_def Let_def split: if_splits)

lemma norm_method_out: "norm_method s = Inr t \<Longrightarrow> ToUpper t = t \<and> t \<noteq> []"
  by (auto simp: norm_method_def Let_def split: if_splits)

lemma norm_path_out: "norm_path s = Inr t \<Longrightarrow> HasPrefix t ''/''"
  by (auto simp: norm_path_def Let_def split: if_splits)

lemma normalizeMatch_out:
  assumes "normalizeMatch m = Inr n"
  shows "\<exists>schemes hosts methods paths. traverse norm_scheme (or_default defaultSchemes (m_Schemes m)) = Inr schemes \<and>
    traverse normalizeHost (m_Hosts m) = Inr hosts \<and> traverse norm_method (or_default defaultMethods (m_Methods m)) = Inr methods \<and>
    traverse norm_path (or_default defaultPaths (m_Paths m)) = Inr paths \<and> m_Hosts m \<noteq> [] \<and>
    n = \<lparr>m_Schemes = dedupe schemes, m_Ports = [], m_Hosts = dedupe hosts, m_Methods = dedupe methods, m_Paths = dedupe paths\<rparr>"
  using assms by (auto simp: normalizeMatch_def bind_res_eq_Inr split: if_splits)


lemma Split_snoc: "Split (xs @ [c]) c = Split xs c @ [[]]"
proof (induction xs)
  case (Cons x xs)
  then show ?case by (cases "Split xs c") auto
qed simp

lemma Split_snoc_sep: "[] \<in> set (Split (xs @ [c]) c)"
  by (simp add: Split_snoc)

lemma label_bytes: "hostnameLabel l \<Longrightarrow> x \<in> set l \<Longrightarrow> isAlnum x \<or> x = CHR ''-'' \<or> x = CHR ''_''"
proof (cases l)
  case (Cons c cs)
  assume l: "hostnameLabel l" and x: "x \<in> set l"
  show ?thesis
  proof (cases "x = c \<or> x = last cs \<and> cs \<noteq> []")
    case True
    then show ?thesis using l Cons by (auto simp: hostnameLabel_def)
  next
    case False
    then have "cs \<noteq> []" "x \<in> set (butlast cs)"
      using x Cons by (auto simp: in_set_butlast_appendI) (metis append_butlast_last_id empty_iff empty_set in_set_conv_decomp insert_iff list.set(2) Un_iff set_append)
    then show ?thesis using l Cons by (auto simp: hostnameLabel_def list_all_iff)
  qed
qed (simp add: hostnameLabel_def)

lemma Split_bytes: "x \<in> set s \<Longrightarrow> x = c \<or> (\<exists>w \<in> set (Split s c). x \<in> set w)"
proof (induction s)
  case (Cons y s)
  then show ?case by (cases "Split s c") (auto split: list.splits)
qed simp

lemma FQDN_bytes: "validFQDN s \<Longrightarrow> x \<in> set s \<Longrightarrow> isAlnum x \<or> x \<in> set ''-_.''"
  using Split_bytes [of x s "CHR ''.''"] label_bytes by (auto simp: validFQDN_def list_all_iff)

lemma FQDN_last: "validFQDN s \<Longrightarrow> s \<noteq> [] \<and> last s \<noteq> CHR ''.''"
proof
  assume v: "validFQDN s"
  then show "s \<noteq> []" by (auto simp: validFQDN_def)
  show "last s \<noteq> CHR ''.''"
  proof
    assume "last s = CHR ''.''"
    then have "s = butlast s @ [CHR ''.'']" using \<open>s \<noteq> []\<close> by (metis append_butlast_last_id)
    then have "[] \<in> set (Split s CHR ''.'')" using Split_snoc_sep by metis
    then show False using v by (auto simp: validFQDN_def list_all_iff hostnameLabel_def)
  qed
qed

lemma isAlnum_not_space: "isAlnum c \<Longrightarrow> \<not> isSpaceByte c"
  by (auto simp: isAlnum_def isDigit_def isLower_def isUpper_def isSpaceByte_def)

text \<open>A host that passed is its own normal form.\<close>

lemma normalizeHost_normal:
  assumes "normalizeHost h = Inr g"
  shows "normalizeHost g = Inr g" "ToLower g = g" "TrimSpace g = g" "TrimSuffix g ''.'' = g" "g \<noteq> []"
    "\<not> HasPrefix g ''*.'' \<Longrightarrow> validFQDN g" "HasPrefix g ''*.'' \<Longrightarrow> validFQDN (drop 2 g)"
proof -
  let ?n = "if HasPrefix g ''*.'' then drop 2 g else g"
  have g: "g = ToLower (TrimSuffix (TrimSpace h) ''.'')" "g \<noteq> []" "validFQDN ?n"
    using assms by (auto simp: normalizeHost_def Let_def split: if_splits)
  show low: "ToLower g = g" by (simp add: g(1))
  have split: "g = (if HasPrefix g ''*.'' then ''*.'' else []) @ ?n" by (auto simp: HasPrefix_def prefix_def)
  have bytes: "isAlnum x \<or> x \<in> set ''*-_.''" if "x \<in> set g" for x
    using that FQDN_bytes [OF g(3), of x] by (subst (asm) split) (auto split: if_splits)
  have "\<forall>x \<in> set g. \<not> isSpaceByte x"
  proof
    fix x assume "x \<in> set g"
    from bytes [OF this] show "\<not> isSpaceByte x" using isAlnum_not_space [of x] by (auto simp: isSpaceByte_def)
  qed
  then show trim: "TrimSpace g = g" by (rule TrimSpace_no_space)
  have "last g = last ?n" using FQDN_last [OF g(3)] by (subst split) (simp add: last_append)
  then show dot: "TrimSuffix g ''.'' = g" using FQDN_last [OF g(3)] by (simp add: TrimSuffix_dot)
  show "g \<noteq> []" by (rule g(2))
  show "\<not> HasPrefix g ''*.'' \<Longrightarrow> validFQDN g" "HasPrefix g ''*.'' \<Longrightarrow> validFQDN (drop 2 g)" using g(3) by simp_all
  have "normalizeHost h = normalizeHost g" unfolding normalizeHost_def by (simp only: trim dot low g(1) [symmetric])
  then show "normalizeHost g = Inr g" using assms by simp
qed

lemma normalizeMatch_normal:
  assumes "normalizeMatch m = Inr n"
  shows "normal_match n"
proof -
  from normalizeMatch_out [OF assms] obtain schemes hosts methods paths where
    t: "traverse norm_scheme (or_default defaultSchemes (m_Schemes m)) = Inr schemes"
      "traverse normalizeHost (m_Hosts m) = Inr hosts" "traverse norm_method (or_default defaultMethods (m_Methods m)) = Inr methods"
      "traverse norm_path (or_default defaultPaths (m_Paths m)) = Inr paths"
    and n: "n = \<lparr>m_Schemes = dedupe schemes, m_Ports = [], m_Hosts = dedupe hosts, m_Methods = dedupe methods, m_Paths = dedupe paths\<rparr>"
    by blast
  have "\<forall>s \<in> set schemes. s = ''https'' \<or> s = ''http''" using traverse_set [OF t(1)] norm_scheme_out by blast
  moreover have "\<forall>x \<in> set methods. ToUpper x = x \<and> x \<noteq> []" using traverse_set [OF t(3)] norm_method_out by blast
  moreover have "\<forall>p \<in> set paths. HasPrefix p ''/''" using traverse_set [OF t(4)] norm_path_out by blast
  moreover have "\<forall>h \<in> set hosts. normalizeHost h = Inr h" using traverse_set [OF t(2)] normalizeHost_normal(1) by blast
  ultimately show ?thesis by (simp add: normal_match_def n)
qed

lemma normalizeBinding_out:
  assumes "normalizeBinding b = Inr c"
  shows "normal_match (b_Match c)" "normalizeAuth (b_Auth b) = Inr (b_Auth c)" "b_Name c = TrimSpace (b_Name b)"
    "b_Name c \<noteq> []" "normalizeMatch (b_Match b) = Inr (b_Match c)"
  using assms normalizeMatch_normal by (auto simp: normalizeBinding_def Let_def bind_res_eq_Inr split: if_splits)

section \<open>The overlap test is exact\<close>

text \<open>A wildcard is a domain with \<open>*.\<close> before it.\<close>

lemma wild_split: "HasPrefix x ''*.'' \<Longrightarrow> x = ''*.'' @ TrimPrefix x ''*.'' \<and> drop 1 x = ''.'' @ TrimPrefix x ''*.''"
  by (auto simp: HasPrefix_def TrimPrefix_def prefix_def)

lemma host_covers_wild: "HasPrefix x ''*.'' \<Longrightarrow>
    host_covers x h \<longleftrightarrow> suffix (''.'' @ TrimPrefix x ''*.'') h \<and> h \<noteq> ''.'' @ TrimPrefix x ''*.''"
proof -
  assume w: "HasPrefix x ''*.''"
  have d: "drop 1 x = ''.'' @ TrimPrefix x ''*.''" using wild_split [OF w] by blast
  show ?thesis unfolding host_covers_def d HasSuffix_def using w by (auto simp: suffix_def)
qed

lemma suffix_dot: "suffix (c # d) (c # e) \<longleftrightarrow> d = e \<or> suffix (c # d) e"
  by (auto simp: suffix_Cons)

lemma host_covers_plain: "\<not> HasPrefix x ''*.'' \<Longrightarrow> host_covers x h \<longleftrightarrow> x = h"
  by (simp add: host_covers_def)

lemma hostPatternsOverlap_cases:
  "\<not> HasPrefix x ''*.'' \<Longrightarrow> \<not> HasPrefix y ''*.'' \<Longrightarrow> hostPatternsOverlap x y = (if x = y then Some x else None)"
  "HasPrefix x ''*.'' \<Longrightarrow> \<not> HasPrefix y ''*.'' \<Longrightarrow>
     hostPatternsOverlap x y = (if suffix (''.'' @ TrimPrefix x ''*.'') y then Some y else None)"
  "\<not> HasPrefix x ''*.'' \<Longrightarrow> HasPrefix y ''*.'' \<Longrightarrow>
     hostPatternsOverlap x y = (if suffix (''.'' @ TrimPrefix y ''*.'') x then Some x else None)"
  "HasPrefix x ''*.'' \<Longrightarrow> HasPrefix y ''*.'' \<Longrightarrow> hostPatternsOverlap x y =
     (if suffix (''.'' @ TrimPrefix y ''*.'') (''.'' @ TrimPrefix x ''*.'') then Some (''host.'' @ TrimPrefix x ''*.'')
      else if suffix (''.'' @ TrimPrefix x ''*.'') (''.'' @ TrimPrefix y ''*.'') then Some (''host.'' @ TrimPrefix y ''*.'')
      else None)"
  unfolding hostPatternsOverlap_def Let_def HasSuffix_def by (simp_all add: suffix_dot)

lemma host_overlap_complete:
  assumes "host_covers x h" "host_covers y h"
  shows "hostPatternsOverlap x y \<noteq> None"
proof (cases "HasPrefix x ''*.''"; cases "HasPrefix y ''*.''")
  assume w: "HasPrefix x ''*.''" "HasPrefix y ''*.''"
  then have s: "suffix (''.'' @ TrimPrefix x ''*.'') h" "suffix (''.'' @ TrimPrefix y ''*.'') h"
    using assms by (simp_all only: host_covers_wild)
  show ?thesis unfolding hostPatternsOverlap_cases(4) [OF w] using suffix_same_cases [OF s] by auto
next
  assume w: "HasPrefix x ''*.''" "\<not> HasPrefix y ''*.''"
  then show ?thesis using assms by (simp add: hostPatternsOverlap_cases host_covers_wild host_covers_plain)
next
  assume w: "\<not> HasPrefix x ''*.''" "HasPrefix y ''*.''"
  then show ?thesis using assms by (simp add: hostPatternsOverlap_cases host_covers_wild host_covers_plain)
next
  assume w: "\<not> HasPrefix x ''*.''" "\<not> HasPrefix y ''*.''"
  then show ?thesis using assms by (simp add: hostPatternsOverlap_cases host_covers_plain)
qed

lemma FQDN_no_dot: "validFQDN z \<Longrightarrow> z \<noteq> ''.'' @ d"
proof
  assume v: "validFQDN z" and "z = ''.'' @ d"
  then have "[] \<in> set (Split z CHR ''.'')" by simp
  then show False using v by (auto simp: validFQDN_def list_all_iff hostnameLabel_def)
qed

lemma host_suffix: "suffix (''.'' @ d) (''host.'' @ d)" "''host.'' @ d \<noteq> ''.'' @ e"
  by (auto simp: suffix_def intro: exI [of _ "''host''"])

lemma host_overlap_sound:
  assumes o: "hostPatternsOverlap x y = Some h" and n: "normalizeHost x = Inr x" "normalizeHost y = Inr y"
  shows "host_covers x h \<and> host_covers y h"
proof (cases "HasPrefix x ''*.''"; cases "HasPrefix y ''*.''")
  assume w: "HasPrefix x ''*.''" "HasPrefix y ''*.''"
  let ?x = "TrimPrefix x ''*.''" and ?y = "TrimPrefix y ''*.''"
  note eq = hostPatternsOverlap_cases(4) [OF w]
  show ?thesis
  proof (cases "suffix (''.'' @ ?y) (''.'' @ ?x)")
    case True
    then have h: "h = ''host.'' @ ?x" using o by (simp only: eq if_True option.inject)
    show ?thesis unfolding host_covers_wild [OF w(1)] host_covers_wild [OF w(2)] h
      using host_suffix(1) [of ?x] host_suffix(2) [of ?x ?x] host_suffix(2) [of ?x ?y] suffix_order.trans [OF True host_suffix(1)]
      by (intro conjI)
  next
    case False
    then have s: "suffix (''.'' @ ?x) (''.'' @ ?y)" "h = ''host.'' @ ?y"
      using o unfolding eq by (simp_all only: if_False split: if_splits) blast+
    show ?thesis unfolding host_covers_wild [OF w(1)] host_covers_wild [OF w(2)] s(2)
      using host_suffix(1) [of ?y] host_suffix(2) [of ?y ?x] host_suffix(2) [of ?y ?y] suffix_order.trans [OF s(1) host_suffix(1)]
      by (intro conjI)
  qed
next
  assume w: "HasPrefix x ''*.''" "\<not> HasPrefix y ''*.''"
  show ?thesis using o w FQDN_no_dot [OF normalizeHost_normal(6) [OF n(2) w(2)], of "TrimPrefix x ''*.''"]
    by (simp add: hostPatternsOverlap_cases host_covers_wild host_covers_plain split: if_splits)
next
  assume w: "\<not> HasPrefix x ''*.''" "HasPrefix y ''*.''"
  show ?thesis using o w FQDN_no_dot [OF normalizeHost_normal(6) [OF n(1) w(1)], of "TrimPrefix y ''*.''"]
    by (simp add: hostPatternsOverlap_cases host_covers_wild host_covers_plain split: if_splits)
next
  assume w: "\<not> HasPrefix x ''*.''" "\<not> HasPrefix y ''*.''"
  then show ?thesis using o by (simp add: hostPatternsOverlap_cases host_covers_plain split: if_splits)
qed

lemma star_split: "HasSuffix p ''*'' \<Longrightarrow> p = TrimSuffix p ''*'' @ ''*''"
  by (auto simp: HasSuffix_def TrimSuffix_def suffix_def)

lemma path_overlap_complete:
  assumes "path_covers x p" "path_covers y p"
  shows "pathPatternsOverlap x y \<noteq> None"
proof -
  have "HasSuffix x ''*'' \<Longrightarrow> HasSuffix y ''*'' \<Longrightarrow>
      prefix (TrimSuffix x ''*'') (TrimSuffix y ''*'') \<or> prefix (TrimSuffix y ''*'') (TrimSuffix x ''*'')"
    using assms by (auto simp: path_covers_def HasPrefix_def dest: prefix_same_cases)
  then show ?thesis using assms
    by (auto simp: pathPatternsOverlap_def path_covers_def Let_def HasPrefix_def split: if_splits)
qed

lemma path_overlap_sound:
  assumes o: "pathPatternsOverlap x y = Some p" and s: "HasPrefix x ''/''" "HasPrefix y ''/''"
  shows "path_covers x p \<and> path_covers y p \<and> p \<noteq> []"
proof -
  have pre: "HasSuffix z ''*'' \<Longrightarrow> HasPrefix z ''/'' \<Longrightarrow> TrimSuffix z ''*'' \<noteq> []" for z
  proof
    assume z: "HasSuffix z ''*''" "HasPrefix z ''/''" "TrimSuffix z ''*'' = []"
    then have "z = ''*''" using star_split [OF z(1)] by simp
    then show False using z(2) by (simp add: HasPrefix_def)
  qed
  have "x \<noteq> []" "y \<noteq> []" using s by (auto simp: HasPrefix_def)
  then show ?thesis using o pre [of x] pre [of y] s
    by (auto simp: pathPatternsOverlap_def path_covers_def Let_def HasPrefix_def split: if_splits)
qed

lemma first_pair_None: "first_pair f ps = None \<longleftrightarrow> (\<forall>(x, y) \<in> set ps. f x y = None)"
  by (induction ps) (auto split: option.splits)

lemma first_pair_Some: "first_pair f ps = Some z \<Longrightarrow> \<exists>(x, y) \<in> set ps. f x y = Some z"
  by (induction ps) (auto split: option.splits)

lemma overlappingHost_exact:
  assumes "\<forall>h \<in> set xs \<union> set ys. normalizeHost h = Inr h"
  shows "overlappingHost xs ys \<noteq> None \<longleftrightarrow> (\<exists>h. matchesHost xs h \<and> matchesHost ys h)"
proof
  assume "overlappingHost xs ys \<noteq> None"
  then obtain h where "first_pair hostPatternsOverlap (List.product xs ys) = Some h" by (auto simp: overlappingHost_def)
  from first_pair_Some [OF this] obtain x y where "x \<in> set xs" "y \<in> set ys" "hostPatternsOverlap x y = Some h" by auto
  with host_overlap_sound assms show "\<exists>h. matchesHost xs h \<and> matchesHost ys h"
    unfolding matchesHost_def list_ex_iff by blast
next
  assume "\<exists>h. matchesHost xs h \<and> matchesHost ys h"
  then obtain h x y where "x \<in> set xs" "y \<in> set ys" "host_covers x h" "host_covers y h"
    by (auto simp: matchesHost_def list_ex_iff)
  with host_overlap_complete show "overlappingHost xs ys \<noteq> None"
    unfolding overlappingHost_def first_pair_None by fastforce
qed

lemma overlappingPath_exact:
  assumes "\<forall>p \<in> set xs \<union> set ys. HasPrefix p ''/''"
  shows "overlappingPath xs ys \<noteq> None \<longleftrightarrow> (\<exists>p. matchesPath xs p \<and> matchesPath ys p)"
proof
  assume "overlappingPath xs ys \<noteq> None"
  then obtain p where "first_pair pathPatternsOverlap (List.product xs ys) = Some p" by (auto simp: overlappingPath_def)
  from first_pair_Some [OF this] obtain x y where "x \<in> set xs" "y \<in> set ys" "pathPatternsOverlap x y = Some p" by auto
  with path_overlap_sound [of x y p] assms show "\<exists>p. matchesPath xs p \<and> matchesPath ys p"
    unfolding matchesPath_def list_ex_iff Let_def by auto
next
  assume "\<exists>p. matchesPath xs p \<and> matchesPath ys p"
  then obtain p where "matchesPath xs p" "matchesPath ys p" by blast
  then obtain x y q where "x \<in> set xs" "y \<in> set ys" "path_covers x q" "path_covers y q"
    unfolding matchesPath_def list_ex_iff Let_def by blast
  with path_overlap_complete show "overlappingPath xs ys \<noteq> None"
    unfolding overlappingPath_def first_pair_None by fastforce
qed

lemma firstCommon_None: "firstCommon xs ys = None \<longleftrightarrow> set xs \<inter> set ys = {}"
  by (auto simp: firstCommon_def find_None_iff)

lemma bindingsOverlap_iff:
  "bindingsOverlap a b \<noteq> None \<longleftrightarrow> firstCommon (m_Schemes (b_Match a)) (m_Schemes (b_Match b)) \<noteq> None \<and>
     firstCommon (m_Methods (b_Match a)) (m_Methods (b_Match b)) \<noteq> None \<and>
     overlappingHost (m_Hosts (b_Match a)) (m_Hosts (b_Match b)) \<noteq> None \<and>
     overlappingPath (m_Paths (b_Match a)) (m_Paths (b_Match b)) \<noteq> None"
  by (simp add: bindingsOverlap_def split: option.splits)

lemma normal_matchD:
  assumes "normal_match m"
  shows "h \<in> set (m_Hosts m) \<Longrightarrow> normalizeHost h = Inr h" "p \<in> set (m_Paths m) \<Longrightarrow> HasPrefix p ''/''"
    "x \<in> set (m_Methods m) \<Longrightarrow> ToUpper x = x"
  using assms unfolding normal_match_def by simp_all

lemma bindingsOverlap_exact:
  assumes "normal_match (b_Match a)" "normal_match (b_Match b)"
  shows "bindingsOverlap a b \<noteq> None \<longleftrightarrow>
    (\<exists>scheme host method path. matches a scheme host method path \<and> matches b scheme host method path)"
proof -
  have h: "\<forall>h \<in> set (m_Hosts (b_Match a)) \<union> set (m_Hosts (b_Match b)). normalizeHost h = Inr h"
    and p: "\<forall>p \<in> set (m_Paths (b_Match a)) \<union> set (m_Paths (b_Match b)). HasPrefix p ''/''"
    and m: "\<And>x. x \<in> set (m_Methods (b_Match a)) \<Longrightarrow> ToUpper x = x"
    using normal_matchD [OF assms(1)] normal_matchD [OF assms(2)] by (metis Un_iff, metis Un_iff, blast)
  show ?thesis
  proof
    assume "bindingsOverlap a b \<noteq> None"
    then have c: "set (m_Schemes (b_Match a)) \<inter> set (m_Schemes (b_Match b)) \<noteq> {}"
      "set (m_Methods (b_Match a)) \<inter> set (m_Methods (b_Match b)) \<noteq> {}"
      "\<exists>h. matchesHost (m_Hosts (b_Match a)) h \<and> matchesHost (m_Hosts (b_Match b)) h"
      "\<exists>p. matchesPath (m_Paths (b_Match a)) p \<and> matchesPath (m_Paths (b_Match b)) p"
      unfolding bindingsOverlap_iff overlappingHost_exact [OF h] overlappingPath_exact [OF p] firstCommon_None
      by simp_all
    from c(1) obtain scheme where "scheme \<in> set (m_Schemes (b_Match a))" "scheme \<in> set (m_Schemes (b_Match b))" by blast
    moreover from c(2) obtain x where "x \<in> set (m_Methods (b_Match a))" "x \<in> set (m_Methods (b_Match b))" by blast
    moreover from c(3) obtain host where "matchesHost (m_Hosts (b_Match a)) host" "matchesHost (m_Hosts (b_Match b)) host" by blast
    moreover from c(4) obtain path where "matchesPath (m_Paths (b_Match a)) path" "matchesPath (m_Paths (b_Match b)) path" by blast
    ultimately have "matches a scheme host x path" "matches b scheme host x path" using m [of x] by (simp_all add: matches_def)
    then show "\<exists>scheme host method path. matches a scheme host method path \<and> matches b scheme host method path" by blast
  next
    assume "\<exists>scheme host method path. matches a scheme host method path \<and> matches b scheme host method path"
    then obtain scheme host x path where ab: "matches a scheme host x path" "matches b scheme host x path" by blast
    note ab = ab [unfolded matches_def]
    have "set (m_Schemes (b_Match a)) \<inter> set (m_Schemes (b_Match b)) \<noteq> {}" using ab by blast
    moreover have "set (m_Methods (b_Match a)) \<inter> set (m_Methods (b_Match b)) \<noteq> {}" using ab by blast
    moreover have "overlappingHost (m_Hosts (b_Match a)) (m_Hosts (b_Match b)) \<noteq> None"
      unfolding overlappingHost_exact [OF h] using ab by blast
    moreover have "overlappingPath (m_Paths (b_Match a)) (m_Paths (b_Match b)) \<noteq> None"
      unfolding overlappingPath_exact [OF p] using ab by blast
    ultimately show "bindingsOverlap a b \<noteq> None" unfolding bindingsOverlap_iff firstCommon_None by (intro conjI)
  qed
qed

section \<open>Properties\<close>

text \<open>
  (C14) The overlap test of a vault's bindings is exact: two bindings that passed normalisation are found
  to overlap exactly when there is a request, some scheme, host, method and path, that both cover.
  Wildcards over a subdomain of the other, a wildcard and an exact name, nested path prefixes and the
  empty path are all in it.
\<close>

theorem overlap_is_exact:
  assumes "normalizeBinding a0 = Inr a" "normalizeBinding b0 = Inr b"
  shows "bindingsOverlap a b \<noteq> None \<longleftrightarrow>
    (\<exists>scheme host method path. matches a scheme host method path \<and> matches b scheme host method path)"
  by (rule bindingsOverlap_exact [OF normalizeBinding_out(1) [OF assms(1)] normalizeBinding_out(1) [OF assms(2)]])

text \<open>A binding on one host with the default methods and scheme.\<close>

definition demo_binding :: "string \<Rightarrow> string \<Rightarrow> string list \<Rightarrow> binding" where
  "demo_binding name host paths = \<lparr>b_Name = name,
     b_Match = \<lparr>m_Schemes = [], m_Ports = [], m_Hosts = [host], m_Methods = [], m_Paths = paths\<rparr>,
     b_Auth = \<lparr>au_Type = ''bearer'', au_Credential = ''token'', au_Name = [], au_Headers = [], au_Substitutions = []\<rparr>\<rparr>"

definition demo_normal :: "string \<Rightarrow> string \<Rightarrow> string list \<Rightarrow> binding" where
  "demo_normal name host paths = (demo_binding name host paths)\<lparr>
     b_Match := \<lparr>m_Schemes = [''https''], m_Ports = [], m_Hosts = [host], m_Methods = defaultMethods, m_Paths = paths\<rparr>\<rparr>"

theorem overlap_is_exact_witness:
  "let a = demo_normal ''all'' ''*.example.com'' [''/*'']; b = demo_normal ''api'' ''api.example.com'' [''/v1/*''] in
   bindingsOverlap a b = Some ''GET https://api.example.com/v1/'' \<and>
   (\<exists>scheme host method path. matches a scheme host method path \<and> matches b scheme host method path)"
proof -
  let ?a = "demo_normal ''all'' ''*.example.com'' [''/*'']" and ?b = "demo_normal ''api'' ''api.example.com'' [''/v1/*'']"
  have n: "normalizeBinding (demo_binding ''all'' ''*.example.com'' []) = Inr ?a"
    "normalizeBinding (demo_binding ''api'' ''API.example.com.'' [''/v1/*'']) = Inr ?b" by code_simp+
  have o: "bindingsOverlap ?a ?b = Some ''GET https://api.example.com/v1/''" by code_simp
  show ?thesis unfolding Let_def using overlap_is_exact [OF n] o by (metis option.distinct(1))
qed

lemma mime_loop_append:
  "CHR ''-'' \<notin> set xs \<Longrightarrow> mime_loop up (xs @ CHR ''-'' # ys) = mime_loop up xs @ CHR ''-'' # mime_loop True ys"
  by (induction xs arbitrary: up) (auto simp: upperByte_def lowerByte_def isLower_def isUpper_def)

lemma mime_loop_lower: "CHR ''-'' \<notin> set xs \<Longrightarrow> mime_loop False xs = ToLower xs"
  by (induction xs) (auto simp: ToLower_def)

lemma mime_loop_word: "CHR ''-'' \<notin> set xs \<Longrightarrow> mime_loop True xs = capitalize (ToLower xs)"
  by (cases xs) (auto simp: capitalize_def ToUpper_def ToLower_def mime_loop_lower upperByte_def lowerByte_def isLower_def isUpper_def)

lemma lowerByte_dash: "lowerByte c = CHR ''-'' \<longleftrightarrow> c = CHR ''-''"
proof
  assume l: "lowerByte c = CHR ''-''"
  show "c = CHR ''-''"
  proof (cases "isUpper c")
    case True
    have "byte_of (lowerByte c) = 45" by (simp add: l)
    then show ?thesis using True by (simp add: lowerByte_def isUpper_def)
  qed (use l in \<open>simp add: lowerByte_def\<close>)
qed (simp add: lowerByte_def isUpper_def)

lemma Split_ToLower: "Split (ToLower s) CHR ''-'' = map ToLower (Split s CHR ''-'')"
  by (induction s) (auto simp: ToLower_def lowerByte_dash split: list.splits)

lemma mime_loop_Join:
  "\<forall>w \<in> set ws. CHR ''-'' \<notin> set w \<Longrightarrow> mime_loop True (Join ws ''-'') = Join (map (\<lambda>w. capitalize (ToLower w)) ws) ''-''"
  by (induction ws "''-''" rule: Join.induct) (simp_all add: mime_loop_word mime_loop_append)

lemma canonicalHeader_MIME: "canonicalHeader name = CanonicalMIMEHeaderKey name"
proof (cases "headerFieldName name")
  case True
  have "mime_loop True name = mime_loop True (Join (Split name CHR ''-'') ''-'')" by (simp add: Join_Split)
  also have "\<dots> = Join (map (\<lambda>w. capitalize (ToLower w)) (Split name CHR ''-'')) ''-''"
    by (rule mime_loop_Join) (auto dest: Split_no_sep)
  finally show ?thesis using True
    by (simp add: canonicalHeader_def CanonicalMIMEHeaderKey_def headerFieldName_def Split_ToLower comp_def)
next
  case False
  then show ?thesis by (cases name) (auto simp: canonicalHeader_def CanonicalMIMEHeaderKey_def headerFieldName_def)
qed

lemma upperByte_dash: "upperByte c = CHR ''-'' \<longleftrightarrow> c = CHR ''-''"
proof
  assume u: "upperByte c = CHR ''-''"
  show "c = CHR ''-''"
  proof (cases "isLower c")
    case True
    have "byte_of (upperByte c) = 45" by (simp add: u)
    then show ?thesis using True by (simp add: upperByte_def isLower_def)
  qed (use u in \<open>simp add: upperByte_def\<close>)
qed (simp add: upperByte_def isLower_def)

lemma mime_loop_idem: "mime_loop up (mime_loop up s) = mime_loop up s"
  by (induction s arbitrary: up) (auto simp: upperByte_dash lowerByte_dash)

lemma tokenByte_case: "tokenByte c \<Longrightarrow> tokenByte (upperByte c) \<and> tokenByte (lowerByte c)"
  by (auto simp: upperByte_def lowerByte_def tokenByte_def isAlnum_def isLower_def isUpper_def)

lemma CanonicalMIMEHeaderKey_idem: "CanonicalMIMEHeaderKey (CanonicalMIMEHeaderKey s) = CanonicalMIMEHeaderKey s"
proof -
  have "list_all tokenByte s \<Longrightarrow> list_all tokenByte (mime_loop up s)" for up
    by (induction s arbitrary: up) (auto simp: tokenByte_case)
  then show ?thesis by (simp add: CanonicalMIMEHeaderKey_def mime_loop_idem)
qed

text \<open>
  A header name is spelled the way \<^verbatim>\<open>net/http\<close> spells it: \<open>canonicalHeader\<close> is
  \<open>CanonicalMIMEHeaderKey\<close> on every string, so a binding's header name is the key under which
  \<open>Header.Set\<close> stores the credential and two bindings cannot name one header in two ways.
\<close>

theorem canonicalHeader_is_MIME: "canonicalHeader name = CanonicalMIMEHeaderKey name"
  by (rule canonicalHeader_MIME)

end
