(* ===== verification/Vault_Authority.thy ===== *)
theory Vault_Authority
  imports Vault_Match Go_Netip
begin

text \<open>
  The certificate authority of one sandbox, \<^verbatim>\<open>internal/credvault/ca.go\<close>: what it is constrained to, what it
  signs and that it signs nothing once destroyed. Key generation, serial numbers and signing are the
  \<^verbatim>\<open>crypto\<close> packages' and stand here as arguments that may fail; a leaf is the host it was minted for.
\<close>

section \<open>The authority\<close>

record ca =
  ca_pem :: string
  ca_hosts :: "string list"
  ca_destroyed :: bool
  ca_leaves :: "string list"

datatype ca_error = Refused_ca why | Err_Destroyed | Crypto_failed string

definition lowerHost :: "string \<Rightarrow> string" where "lowerHost h = TrimSuffix (ToLower (TrimSpace h)) ''.''"

text \<open>\<open>net.ParseIP\<close> takes what \<open>netip.ParseAddr\<close> takes, without a zone.\<close>

definition ParseIP :: "string \<Rightarrow> addr option" where
  "ParseIP s = (case ParseAddr s of Some a \<Rightarrow> if hasZone a then None else Some a | None \<Rightarrow> None)"

definition constraint_of :: "string \<Rightarrow> (why, string) res" where
  "constraint_of h0 = (let h1 = lowerHost h0 in
     if h1 = [] then Inl Authority_empty_host
     else let h = (if HasPrefix h1 ''*.'' then drop 1 h1 else h1) in
       if ParseIP (TrimPrefix h ''.'') \<noteq> None then Inl (Authority_address h) else Inr h)"

definition dnsConstraints :: "string list \<Rightarrow> (why, string list) res" where
  "dnsConstraints hosts = (if hosts = [] then Inl Authority_needs_host
     else bind_res (traverse constraint_of hosts) (\<lambda>hs. Inr (dedupe hs)))"

definition constraint_covers :: "string \<Rightarrow> string \<Rightarrow> bool" where
  "constraint_covers c host = (if HasPrefix c ''.'' then HasSuffix host c \<and> length host > length c
     else host = c \<or> HasSuffix host (''.'' @ c))"

definition coveredBy :: "string list \<Rightarrow> string \<Rightarrow> bool" where
  "coveredBy constraints host = (host \<noteq> [] \<and> list_ex (\<lambda>c. constraint_covers c host) constraints)"

text \<open>\<open>crypto\<close> is what generating the keys, the serial number and the certificate gave: its PEM or an error.\<close>

definition NewCA :: "(string, string) res \<Rightarrow> string list \<Rightarrow> (ca_error, ca) res" where
  "NewCA crypto hosts = bind_res (map_err Refused_ca (dnsConstraints hosts)) (\<lambda>permitted.
     bind_res (map_err Crypto_failed crypto) (\<lambda>pem. Inr \<lparr>ca_pem = pem, ca_hosts = permitted, ca_destroyed = False, ca_leaves = []\<rparr>))"

definition Covers :: "ca \<Rightarrow> string \<Rightarrow> bool" where
  "Covers c host = (if ca_destroyed c then False else coveredBy (ca_hosts c) (lowerHost host))"

definition Leaf :: "(string, unit) res \<Rightarrow> string \<Rightarrow> ca \<Rightarrow> (ca_error, string) res \<times> ca" where
  "Leaf crypto host0 c = (let host = lowerHost host0 in
     if ca_destroyed c then (Inl Err_Destroyed, c)
     else if host \<in> set (ca_leaves c) then (Inr host, c)
     else if \<not> coveredBy (ca_hosts c) host then (Inl (Refused_ca (Authority_may_not_sign host)), c)
     else (case crypto of Inl e \<Rightarrow> (Inl (Crypto_failed e), c)
       | Inr _ \<Rightarrow> (Inr host, c\<lparr>ca_leaves := host # ca_leaves c\<rparr>)))"

definition Destroy :: "ca \<Rightarrow> ca" where
  "Destroy c = c\<lparr>ca_destroyed := True, ca_leaves := []\<rparr>"

text \<open>The life of an authority: minted, then any sequence of requested leaves, and destroyed at some point.\<close>

inductive ca_step :: "ca \<Rightarrow> ca \<Rightarrow> bool" where
  leafs: "ca_step c (snd (Leaf crypto host c))"
| destroys: "ca_step c (Destroy c)"

definition minted :: "ca \<Rightarrow> bool" where
  "minted c = (\<not> ca_destroyed c \<and> ca_leaves c = [])"

section \<open>It signs only under its constraints\<close>

definition ca_inv :: "ca \<Rightarrow> bool" where
  "ca_inv c = ((\<forall>h \<in> set (ca_leaves c). coveredBy (ca_hosts c) h) \<and> (ca_destroyed c \<longrightarrow> ca_leaves c = []))"

lemma Leaf_inv: "ca_inv c \<Longrightarrow> ca_inv (snd (Leaf crypto host c))"
  by (simp add: ca_inv_def Leaf_def Let_def split: sum.splits)

lemma Destroy_inv: "ca_inv (Destroy c)"
  by (simp add: ca_inv_def Destroy_def)

interpretation authority: invariant_system minted ca_step ca_inv
proof
  show "ca_inv c" if "minted c" for c using that by (simp add: minted_def ca_inv_def)
  show "ca_inv d" if "ca_inv c" "ca_step c d" for c d using that(2,1)
    by cases (simp_all add: Leaf_inv Destroy_inv)
qed

text \<open>
  Whatever leaves were asked for before, and in whatever order, an authority hands out a certificate
  only for a host under its constraints and never after \<open>Destroy\<close>: the cache adds nothing. And where
  signing does not fail, it hands one out exactly when \<open>Covers\<close> says so.
\<close>

theorem leaf_only_where_covered:
  assumes "reach minted ca_step c"
  shows "(fst (Leaf crypto host c) = Inr h \<longrightarrow> h = lowerHost host \<and> Covers c host) \<and>
    (is_ok (fst (Leaf (Inr ()) host c)) \<longleftrightarrow> Covers c host)"
  using authority.reach_inv [OF assms]
  by (auto simp: Leaf_def Covers_def ca_inv_def Let_def split: sum.splits if_splits)

text \<open>A constraint covers a wildcard as a whole when it covers the probe, unless it is the probe.\<close>

lemma suffix_of_dotted: "CHR ''.'' \<notin> set p \<Longrightarrow> suffix (CHR ''.'' # x) (p @ CHR ''.'' # d) \<Longrightarrow> suffix (CHR ''.'' # x) (CHR ''.'' # d)"
  by (induction p) (auto simp: suffix_Cons)

lemma constraint_covers_wild:
  assumes c: "constraint_covers c (p @ ''.'' @ d)" and p: "CHR ''.'' \<notin> set p" and ne: "c \<noteq> p @ ''.'' @ d"
    and h: "suffix (''.'' @ d) host" "host \<noteq> ''.'' @ d"
  shows "constraint_covers c host"
proof (cases "HasPrefix c ''.''")
  case True
  then obtain x where x: "c = ''.'' @ x" by (auto simp: HasPrefix_def prefix_def)
  with c True have "suffix (''.'' @ x) (''.'' @ d)" using suffix_of_dotted [OF p, of x d] by (simp add: constraint_covers_def HasSuffix_def)
  then have s: "suffix c host" unfolding x using h(1) by (rule suffix_order.trans)
  have "length c \<le> length (''.'' @ d)" using \<open>suffix (''.'' @ x) (''.'' @ d)\<close> unfolding x by (rule suffix_length_le)
  moreover have "length (''.'' @ d) < length host" using h by (auto simp: suffix_def)
  ultimately show ?thesis using s True by (simp add: constraint_covers_def HasSuffix_def)
next
  case False
  with c ne have "suffix (''.'' @ c) (''.'' @ d)" using suffix_of_dotted [OF p, of c d] by (simp add: constraint_covers_def HasSuffix_def)
  then have "suffix (''.'' @ c) host" using h(1) by (rule suffix_order.trans)
  with False show ?thesis by (simp add: constraint_covers_def HasSuffix_def)
qed

theorem leaf_only_where_covered_witness:
  "let c = \<lparr>ca_pem = ''CERT'', ca_hosts = [''.example.com''], ca_destroyed = False, ca_leaves = []\<rparr>; d = snd (Leaf (Inr ()) ''api.example.com'' c) in
   NewCA (Inr ''CERT'') [''*.example.com''] = Inr c \<and> ca_leaves d = [''api.example.com''] \<and>
   is_ok (fst (Leaf (Inr ()) ''API.example.com.'' d)) \<and> \<not> is_ok (fst (Leaf (Inr ()) ''example.com'' d)) \<and>
   \<not> is_ok (fst (Leaf (Inr ()) ''api.example.com'' (Destroy d)))"
proof -
  let ?c = "\<lparr>ca_pem = ''CERT'', ca_hosts = [''.example.com''], ca_destroyed = False, ca_leaves = []\<rparr>"
  let ?d = "snd (Leaf (Inr ()) ''api.example.com'' ?c)"
  have n: "NewCA (Inr ''CERT'') [''*.example.com''] = Inr ?c" "ca_leaves ?d = [''api.example.com'']" by code_simp+
  have c: "Covers ?d ''API.example.com.''" "\<not> Covers ?d ''example.com''" "\<not> Covers (Destroy ?d) ''api.example.com''" by code_simp+
  have r: "reach minted ca_step ?d" by (rule reach_step [where s = ?c], rule reach_init) (simp add: minted_def, rule leafs)
  have r': "reach minted ca_step (Destroy ?d)" by (rule reach_step [OF r]) (rule destroys)
  show ?thesis unfolding Let_def
    using n c leaf_only_where_covered [OF r] leaf_only_where_covered [OF r'] by blast
qed

end
