(* ===== verification/Cred_Vault.thy ===== *)
theory Cred_Vault
  imports Vault_Authority Egress_Policy "HOL-Library.AList"
begin

text \<open>
  The credential vault of a sandbox: \<^verbatim>\<open>internal/credvault/vault.go\<close> (the registry, the vault and its
  writes), \<open>validateCandidate\<close> of \<^verbatim>\<open>validate.go\<close> and \<open>Apply\<close> of \<^verbatim>\<open>apply.go\<close>. A Go map is an association
  list with distinct keys, in the order a loop over it happens to take. The policy in force is an
  argument of every write, as the vault asks for it anew each time; \<open>None\<close> is a sandbox without a
  filter. An operation returns its answer and the vault after it.
\<close>

section \<open>Types\<close>

datatype vault_error = Refused why | Err_NotFound | Err_Exists | Revision_error int int | Not_ready string

record vault =
  v_exists :: bool
  v_revision :: int
  v_credentials :: "(string \<times> credrec) list"
  v_bindings :: "(string \<times> binding) list"
  v_ca :: "ca option"
  v_noAuthority :: bool

record 'a mutations =
  mu_Add :: "'a list"
  mu_Replace :: "'a list"
  mu_Delete :: "string list"

record mutationRequest =
  mr_ExpectedRevision :: "int option"
  mr_Credentials :: "credential mutations option"
  mr_Bindings :: "binding mutations option"

record createRequest =
  cr_Credentials :: "credential list"
  cr_Bindings :: "binding list"

record metadata =
  md_Name :: string
  md_SourceType :: string
  md_Revision :: int

record bindingMetadata =
  bm_Name :: string
  bm_Revision :: int
  bm_Match :: "match"
  bm_AuthType :: string
  bm_AuthName :: string

record vaultState =
  st_Revision :: int
  st_Credentials :: "metadata list"
  st_Bindings :: "bindingMetadata list"

definition HTTPStatus :: "vault_error option \<Rightarrow> int" where
  "HTTPStatus e = (case e of None \<Rightarrow> 200 | Some (Not_ready _) \<Rightarrow> 412 | Some (Revision_error _ _) \<Rightarrow> 409
     | Some (Refused _) \<Rightarrow> 400 | Some Err_Exists \<Rightarrow> 409 | Some Err_NotFound \<Rightarrow> 404)"

section \<open>Checking a candidate\<close>

definition probe_of :: "string \<Rightarrow> string" where
  "probe_of h = (if HasPrefix h ''*.'' then ''probe.'' @ drop 2 h else h)"

text \<open>Every pair of a list, the earlier element first.\<close>

fun pairs :: "'a list \<Rightarrow> ('a \<times> 'a) list" where
  "pairs [] = []"
| "pairs (x # xs) = map (Pair x) xs @ pairs xs"

definition sortedBindingNames :: "(string \<times> binding) list \<Rightarrow> string list" where
  "sortedBindingNames bindings = sort (map fst bindings)"

definition oneBindingPerRequest :: "(string \<times> binding) list \<Rightarrow> (why, unit) res" where
  "oneBindingPerRequest bindings = check_all (\<lambda>(a, b).
     case (map_of bindings a, map_of bindings b) of
       (Some x, Some y) \<Rightarrow> (case bindingsOverlap x y of Some how \<Rightarrow> Inl (Both_cover a b how) | None \<Rightarrow> Inr ())
     | _ \<Rightarrow> Inr ()) (pairs (sortedBindingNames bindings))"

definition check_credentials :: "(string \<times> credrec) list \<Rightarrow> binding \<Rightarrow> (why, unit) res" where
  "check_credentials credentials b = check_all
     (\<lambda>name. guard_res (map_of credentials name = None) (Unknown_credential (b_Name b) name)) (credentialsOf (b_Auth b))"

definition check_hosts :: "policy \<Rightarrow> binding \<Rightarrow> (why, unit) res" where
  "check_hosts pol b = check_all (\<lambda>h. guard_res (\<not> AllowsName pol (probe_of h)) (Host_denied (b_Name b) h)) (m_Hosts (b_Match b))"

definition validateCandidate :: "(string \<times> credrec) list \<Rightarrow> (string \<times> binding) list \<Rightarrow> policy option
    \<Rightarrow> (vault_error, unit) res" where
  "validateCandidate credentials bindings pol =
     then_res (map_err Refused (check_all (\<lambda>b. check_credentials credentials (snd b)) bindings))
    (case pol of
       None \<Rightarrow> if bindings \<noteq> [] then Inl (Not_ready ''a credential binding needs an egress policy'')
              else map_err Refused (oneBindingPerRequest bindings)
     | Some p \<Rightarrow> map_err Refused (then_res (check_all (\<lambda>b. check_hosts p (snd b)) bindings) (oneBindingPerRequest bindings)))"

definition certifiable :: "ca option \<Rightarrow> (string \<times> binding) list \<Rightarrow> (why, unit) res" where
  "certifiable ca bindings = (if bindings = [] then Inr () else case ca of
      None \<Rightarrow> Inl No_authority_for_bindings
    | Some c \<Rightarrow> check_all (\<lambda>b. check_all (\<lambda>host.
        guard_res (\<not> Covers c (if HasPrefix host ''*.'' then ''probe'' @ drop 1 host else host))
          (Not_certifiable (b_Name (snd b)) host)) (m_Hosts (b_Match (snd b)))) bindings)"

definition ErrAuthorityLost :: vault_error where
  "ErrAuthorityLost = Not_ready ''the credential authority was minted by an sbx serve that is no longer running''"

definition check_vault :: "vault \<Rightarrow> policy option \<Rightarrow> (string \<times> credrec) list \<Rightarrow> (string \<times> binding) list
    \<Rightarrow> (vault_error, unit) res" where
  "check_vault v pol credentials bindings = (if v_noAuthority v then Inl ErrAuthorityLost
     else then_res (validateCandidate credentials bindings pol) (map_err Refused (certifiable (v_ca v) bindings)))"

section \<open>Reading the vault\<close>

definition sanitizeAuth :: "auth \<Rightarrow> string \<times> string" where
  "sanitizeAuth a = (au_Type a, if au_Type a = authAPIKey then au_Name a else [])"

definition bindingMetadata_of :: "binding \<Rightarrow> int \<Rightarrow> bindingMetadata" where
  "bindingMetadata_of b revision = \<lparr>bm_Name = b_Name b, bm_Revision = revision, bm_Match = b_Match b,
     bm_AuthType = fst (sanitizeAuth (b_Auth b)), bm_AuthName = snd (sanitizeAuth (b_Auth b))\<rparr>"

definition metadata_of :: "credrec \<Rightarrow> metadata" where
  "metadata_of c = \<lparr>md_Name = rec_Name c, md_SourceType = rec_SourceType c, md_Revision = rec_Revision c\<rparr>"

definition stateLocked :: "vault \<Rightarrow> vaultState" where
  "stateLocked v = \<lparr>st_Revision = v_revision v,
     st_Credentials = sort_key md_Name (map (\<lambda>c. metadata_of (snd c)) (v_credentials v)),
     st_Bindings = sort_key bm_Name (map (\<lambda>b. bindingMetadata_of (snd b) (v_revision v)) (v_bindings v))\<rparr>"






definition Bound :: "string \<Rightarrow> string \<Rightarrow> vault \<Rightarrow> bool" where
  "Bound host0 port v = (let scheme = (if port = ''443'' then Some ''https'' else if port = ''80'' then Some ''http'' else None);
       host = lowerHost host0 in
     case scheme of None \<Rightarrow> False
     | Some s \<Rightarrow> v_exists v \<and> list_ex (\<lambda>b. s \<in> set (m_Schemes (b_Match (snd b))) \<and> matchesHost (m_Hosts (b_Match (snd b))) host) (v_bindings v))"

section \<open>Writing the vault\<close>

text \<open>The three loops of \<open>applyCredentials\<close> and \<open>applyBindings\<close>, over the map and the names touched.\<close>

fun mu_delete :: "string list \<Rightarrow> (string \<times> 'v) list \<times> string list \<Rightarrow> (why, (string \<times> 'v) list \<times> string list) res" where
  "mu_delete [] st = Inr st"
| "mu_delete (n # ns) (m, touched) = (let name = TrimSpace n in
     if name = [] then Inl Delete_blank
     else if name \<in> set touched then Inl (Two_operations name)
     else if map_of m name = None then Inl (Delete_unknown name)
     else mu_delete ns (AList.delete name m, name # touched))"

fun mu_write :: "bool \<Rightarrow> ('a \<Rightarrow> (why, 'v) res) \<Rightarrow> ('v \<Rightarrow> string) \<Rightarrow> 'a list
    \<Rightarrow> (string \<times> 'v) list \<times> string list \<Rightarrow> (why, (string \<times> 'v) list \<times> string list) res" where
  "mu_write add norm key [] st = Inr st"
| "mu_write add norm key (x # xs) (m, touched) = (case norm x of Inl e \<Rightarrow> Inl e
   | Inr r \<Rightarrow>
       if key r \<in> set touched then Inl (Two_operations (key r))
       else if add \<and> map_of m (key r) \<noteq> None then Inl (Add_known (key r))
       else if \<not> add \<and> map_of m (key r) = None then Inl (Replace_unknown (key r))
       else mu_write add norm key xs (AList.update (key r) r m, key r # touched))"

definition mutate :: "('a \<Rightarrow> (why, 'v) res) \<Rightarrow> ('v \<Rightarrow> string) \<Rightarrow> 'a mutations option
    \<Rightarrow> (string \<times> 'v) list \<Rightarrow> (why, (string \<times> 'v) list) res" where
  "mutate norm key muts m = (case muts of None \<Rightarrow> Inr m
   | Some u \<Rightarrow> bind_res (mu_delete (mu_Delete u) (m, [])) (\<lambda>st.
       bind_res (mu_write False norm key (mu_Replace u) st) (\<lambda>st.
       bind_res (mu_write True norm key (mu_Add u) st) (\<lambda>st. Inr (fst st)))))"

definition applyCredentials :: "credential mutations option \<Rightarrow> int \<Rightarrow> (string \<times> credrec) list \<Rightarrow> (why, (string \<times> credrec) list) res" where
  "applyCredentials muts revision m = mutate (\<lambda>c. normalizeCredential c revision) rec_Name muts m"

definition applyBindings :: "binding mutations option \<Rightarrow> (string \<times> binding) list \<Rightarrow> (why, (string \<times> binding) list) res" where
  "applyBindings muts m = mutate normalizeBinding b_Name muts m"

text \<open>The two loops of \<open>Create\<close>.\<close>

fun collect :: "('a \<Rightarrow> (why, 'v) res) \<Rightarrow> ('v \<Rightarrow> string) \<Rightarrow> (string \<Rightarrow> why) \<Rightarrow> (string \<times> 'v) list \<Rightarrow> 'a list
    \<Rightarrow> (why, (string \<times> 'v) list) res" where
  "collect norm key twice m [] = Inr m"
| "collect norm key twice m (x # xs) = (case norm x of Inl e \<Rightarrow> Inl e
   | Inr r \<Rightarrow> if map_of m (key r) \<noteq> None then Inl (twice (key r)) else collect norm key twice (AList.update (key r) r m) xs)"

definition Create :: "policy option \<Rightarrow> createRequest \<Rightarrow> vault \<Rightarrow> (vault_error, vaultState) res \<times> vault" where
  "Create pol req v = (if v_exists v then (Inl Err_Exists, v)
     else case collect (\<lambda>c. normalizeCredential c 1) rec_Name (\<lambda>n. Credential_twice n) [] (cr_Credentials req) of Inl e \<Rightarrow> (Inl (Refused e), v)
     | Inr credentials \<Rightarrow> (case collect normalizeBinding b_Name (\<lambda>n. Binding_twice n) [] (cr_Bindings req) of Inl e \<Rightarrow> (Inl (Refused e), v)
     | Inr bindings \<Rightarrow> (case check_vault v pol credentials bindings of Inl e \<Rightarrow> (Inl e, v)
     | Inr _ \<Rightarrow> (let v' = v\<lparr>v_exists := True, v_revision := 1, v_credentials := credentials, v_bindings := bindings\<rparr>
                 in (Inr (stateLocked v'), v')))))"

definition Patch :: "policy option \<Rightarrow> mutationRequest \<Rightarrow> vault \<Rightarrow> (vault_error, vaultState) res \<times> vault" where
  "Patch pol req v = (if \<not> v_exists v then (Inl Err_NotFound, v)
     else if mr_ExpectedRevision req \<noteq> None \<and> mr_ExpectedRevision req \<noteq> Some (v_revision v)
       then (Inl (Revision_error (the (mr_ExpectedRevision req)) (v_revision v)), v)
     else (let next = v_revision v + 1 in
       case applyCredentials (mr_Credentials req) next (v_credentials v) of Inl e \<Rightarrow> (Inl (Refused e), v)
     | Inr credentials \<Rightarrow> (case applyBindings (mr_Bindings req) (v_bindings v) of Inl e \<Rightarrow> (Inl (Refused e), v)
     | Inr bindings \<Rightarrow> (case check_vault v pol credentials bindings of Inl e \<Rightarrow> (Inl e, v)
     | Inr _ \<Rightarrow> (let v' = v\<lparr>v_revision := next, v_credentials := credentials, v_bindings := bindings\<rparr>
                 in (Inr (stateLocked v'), v'))))))"

definition Delete :: "vault \<Rightarrow> (vault_error, unit) res \<times> vault" where
  "Delete v = (if \<not> v_exists v then (Inl Err_NotFound, v)
     else (Inr (), v\<lparr>v_exists := False, v_revision := 0, v_credentials := [], v_bindings := []\<rparr>))"

definition destroy_vault :: "vault \<Rightarrow> vault" where
  "destroy_vault v = v\<lparr>v_exists := False, v_revision := 0, v_credentials := [], v_bindings := [], v_ca := None\<rparr>"

section \<open>Requests\<close>

record http_request =
  hr_Method :: string
  hr_Scheme :: string
  hr_TLS :: bool
  hr_Host :: string
  hr_URLHost :: string
  hr_Path :: string
  hr_RawPath :: string
  hr_RawQuery :: string
  hr_Header :: "(string \<times> string list) list"
  hr_Body :: "(string, string) res option"
  hr_ContentLength :: int
  hr_TransferEncoding :: "string list"

datatype apply_error = Err_NoBinding | Err_AmbiguousBinding "string list" | Err_NoSuchCredential string
  | Err_UnknownAuthType string | Err_BodyTooLarge | Body_read string

definition requestScheme :: "http_request \<Rightarrow> string" where
  "requestScheme r = (if ToLower (hr_Scheme r) \<noteq> [] then ToLower (hr_Scheme r) else if hr_TLS r then ''https'' else ''http'')"

definition TrimCut :: "string \<Rightarrow> string \<Rightarrow> string" where
  "TrimCut s cs = rev (dropWhile (\<lambda>c. c \<in> set cs) (rev (dropWhile (\<lambda>c. c \<in> set cs) s)))"

text \<open>\<open>None\<close> is \<open>errNoPort\<close>; the host it comes with is not used by the caller.\<close>

definition splitHostPort :: "string \<Rightarrow> (string \<times> string) option" where
  "splitHostPort host = (case LastIndexByte host CHR '':'' of None \<Rightarrow> None
     | Some i \<Rightarrow> if Contains (drop (i + 1) host) '']'' then None
         else if HasPrefix host ''['' \<and> \<not> Contains (drop i host) '']:'' then None
         else Some (TrimCut (take i host) ''[]'', drop (i + 1) host))"

definition canonicalHost :: "string \<Rightarrow> string" where
  "canonicalHost host0 = (let host = TrimSpace host0 in
     if host = [] then [] else
       let h = (case splitHostPort host of Some (h, _) \<Rightarrow> h | None \<Rightarrow> host) in TrimSuffix (ToLower h) ''.'')"

definition request_host :: "http_request \<Rightarrow> string" where
  "request_host r = (if canonicalHost (hr_Host r) = [] then canonicalHost (hr_URLHost r) else canonicalHost (hr_Host r))"

definition covers_request :: "http_request \<Rightarrow> binding \<Rightarrow> bool" where
  "covers_request r b = matches b (requestScheme r) (request_host r) (hr_Method r) (hr_Path r)"

section \<open>Adding the credential\<close>

text \<open>\<open>strings.ReplaceAll\<close> for a non-empty \<open>old\<close>; an empty one matches before every byte and at the end.\<close>

function ReplaceAll :: "string \<Rightarrow> string \<Rightarrow> string \<Rightarrow> string" where
  "ReplaceAll s old new = (if s = [] then (if old = [] then new else [])
     else if old = [] then new @ hd s # ReplaceAll (tl s) old new
     else if prefix old s then new @ ReplaceAll (drop (length old) s) old new
     else hd s # ReplaceAll (tl s) old new)"
  by pat_completeness auto
termination
  by (relation "measure (\<lambda>(s, old, new). length s)") auto

declare ReplaceAll.simps [simp del]

text \<open>\<open>base64.StdEncoding.EncodeToString\<close>: six bits to a character, padded to groups of four.\<close>

definition b64_char :: "int \<Rightarrow> char" where
  "b64_char n = (if n < 26 then char_of (65 + n) else if n < 52 then char_of (71 + n) else if n < 62 then char_of (n - 4)
     else if n = 62 then CHR ''+'' else CHR ''/'')"

fun base64 :: "string \<Rightarrow> string" where
  "base64 [] = []"
| "base64 [a] = [b64_char (byte_of a div 4), b64_char (byte_of a mod 4 * 16), CHR ''='', CHR ''='']"
| "base64 [a, b] = [b64_char (byte_of a div 4), b64_char (byte_of a mod 4 * 16 + byte_of b div 16),
     b64_char (byte_of b mod 16 * 4), CHR ''='']"
| "base64 (a # b # c # rest) = b64_char (byte_of a div 4) # b64_char (byte_of a mod 4 * 16 + byte_of b div 16)
     # b64_char (byte_of b mod 16 * 4 + byte_of c div 64) # b64_char (byte_of c mod 64) # base64 rest"

definition Header_Set :: "string \<Rightarrow> string \<Rightarrow> http_request \<Rightarrow> http_request" where
  "Header_Set k val r = r\<lparr>hr_Header := AList.update (CanonicalMIMEHeaderKey k) [val] (hr_Header r)\<rparr>"

definition reveal :: "vault \<Rightarrow> string \<Rightarrow> (apply_error, string) res" where
  "reveal v name = (case map_of (v_credentials v) name of None \<Rightarrow> Inl (Err_NoSuchCredential name) | Some c \<Rightarrow> Inr (rec_Source c))"

definition maxSubstitutionBody :: nat where "maxSubstitutionBody = 1048576"

definition substituteBody :: "string \<Rightarrow> string \<Rightarrow> http_request \<Rightarrow> apply_error option \<times> http_request" where
  "substituteBody placeholder val r = (case hr_Body r of None \<Rightarrow> (None, r)
     | Some b \<Rightarrow> if placeholder = [] then (None, r) else (case b of Inl e \<Rightarrow> (Some (Body_read e), r)
       | Inr body \<Rightarrow> if length body > maxSubstitutionBody then (Some Err_BodyTooLarge, r)
         else (let body' = ReplaceAll body placeholder val in
           (None, Header_Set ''Content-Length'' (Itoa (int (length body')))
             (r\<lparr>hr_Body := Some (Inr body'), hr_ContentLength := int (length body'), hr_TransferEncoding := []\<rparr>)))))"

definition substituteIn :: "string \<Rightarrow> string \<Rightarrow> string \<Rightarrow> http_request \<Rightarrow> apply_error option \<times> http_request" where
  "substituteIn surface placeholder val r =
     (if surface = ''path'' then (None, r\<lparr>hr_Path := ReplaceAll (hr_Path r) placeholder val,
         hr_RawPath := (if hr_RawPath r \<noteq> [] then ReplaceAll (hr_RawPath r) placeholder val else [])\<rparr>)
      else if surface = ''query'' then (None, r\<lparr>hr_RawQuery := ReplaceAll (hr_RawQuery r) placeholder val\<rparr>)
      else if surface = ''header'' then (None, r\<lparr>hr_Header := map (\<lambda>(k, vs).
         (k, map (\<lambda>x. if Contains x placeholder then ReplaceAll x placeholder val else x) vs)) (hr_Header r)\<rparr>)
      else if surface = ''body'' then substituteBody placeholder val r
      else (None, r))"

text \<open>A loop that changes the request and stops at the first error.\<close>

fun each :: "('a \<Rightarrow> http_request \<Rightarrow> apply_error option \<times> http_request) \<Rightarrow> 'a list \<Rightarrow> http_request
    \<Rightarrow> apply_error option \<times> http_request" where
  "each f [] r = (None, r)"
| "each f (x # xs) r = (case f x r of (Some e, r') \<Rightarrow> (Some e, r') | (None, r') \<Rightarrow> each f xs r')"

definition substitute :: "vault \<Rightarrow> substitution list \<Rightarrow> http_request \<Rightarrow> apply_error option \<times> http_request" where
  "substitute v subs r = each (\<lambda>s r. case reveal v (sub_Credential s) of Inl e \<Rightarrow> (Some e, r)
     | Inr val \<Rightarrow> each (\<lambda>surface. substituteIn surface (sub_Placeholder s) val) (sub_In s) r) subs r"

definition set_header :: "vault \<Rightarrow> string \<Rightarrow> string \<Rightarrow> (string \<Rightarrow> string) \<Rightarrow> http_request \<Rightarrow> apply_error option \<times> http_request" where
  "set_header v name credential form r = (case reveal v credential of Inl e \<Rightarrow> (Some e, r)
     | Inr val \<Rightarrow> (None, Header_Set name (form val) r))"

definition add_auth :: "vault \<Rightarrow> auth \<Rightarrow> http_request \<Rightarrow> apply_error option \<times> http_request" where
  "add_auth v a r =
     (if au_Type a = authBearer then set_header v ''Authorization'' (au_Credential a) (\<lambda>x. ''Bearer '' @ x) r
      else if au_Type a = authBasic then set_header v ''Authorization'' (au_Credential a) (\<lambda>x. ''Basic '' @ base64 x) r
      else if au_Type a = authAPIKey then set_header v (au_Name a) (au_Credential a) (\<lambda>x. x) r
      else if au_Type a = authCustomHeaders then each (\<lambda>h. set_header v (he_Name h) (he_Credential h) (\<lambda>x. x)) (au_Headers a) r
      else if au_Type a = authPassthrough then (None, r)
      else (Some (Err_UnknownAuthType (au_Type a)), r))"

definition applyAuth :: "vault \<Rightarrow> binding \<Rightarrow> http_request \<Rightarrow> apply_error option \<times> http_request" where
  "applyAuth v b r = (case add_auth v (b_Auth b) r of (Some e, r') \<Rightarrow> (Some e, r')
     | (None, r') \<Rightarrow> substitute v (au_Substitutions (b_Auth b)) r')"

text \<open>\<open>Apply\<close>: the error, if any, and the request as it then is. A request that is nil or has no URL is
  refused before anything of it is read and is not an element of \<open>http_request\<close>.\<close>

definition matched :: "vault \<Rightarrow> http_request \<Rightarrow> string list" where
  "matched v r = filter (\<lambda>name. case map_of (v_bindings v) name of Some b \<Rightarrow> covers_request r b | None \<Rightarrow> False)
     (sortedBindingNames (v_bindings v))"

definition Apply :: "vault \<Rightarrow> http_request \<Rightarrow> apply_error option \<times> http_request" where
  "Apply v r = (if \<not> v_exists v then (Some Err_NoBinding, r)
     else case matched v r of
       [] \<Rightarrow> (Some Err_NoBinding, r)
     | [name] \<Rightarrow> (case map_of (v_bindings v) name of Some b \<Rightarrow> applyAuth v b r | None \<Rightarrow> (Some Err_NoBinding, r))
     | names \<Rightarrow> (Some (Err_AmbiguousBinding names), r))"

section \<open>The registry\<close>

record registry =
  rg_vaults :: "(string \<times> vault) list"
  rg_cas :: "(string \<times> ca) list"

definition isDNSTarget :: "string \<Rightarrow> bool" where
  "isDNSTarget target = (if CHR ''/'' \<in> set target then False else ParseIP (TrimPrefix target ''*.'') = None)"

definition hostsOf :: "policy \<Rightarrow> string list" where
  "hostsOf pol = sort (dedupe (filter (\<lambda>h. h \<noteq> [] \<and> isDNSTarget h)
     (map (\<lambda>r. lowerHost (rule_Target r)) (filter (\<lambda>r. ToLower (rule_Action r) = ''allow'') (policy_Egress pol)))))"

definition Certificate :: "(string, string) res \<Rightarrow> string \<Rightarrow> policy \<Rightarrow> registry \<Rightarrow> (ca_error, string option) res \<times> registry" where
  "Certificate crypto sandbox pol g =
     (case bind_res (case map_of (rg_vaults g) sandbox of None \<Rightarrow> Inr () | Some v \<Rightarrow> (case v_ca v of None \<Rightarrow> Inr () | Some c \<Rightarrow> Inl c))
        (\<lambda>_. case map_of (rg_cas g) sandbox of None \<Rightarrow> Inr () | Some c \<Rightarrow> Inl c) of
      Inl c \<Rightarrow> (Inr (Some (ca_pem c)), g)
    | Inr _ \<Rightarrow> (if hostsOf pol = [] then (Inr None, g) else case NewCA crypto (hostsOf pol) of Inl e \<Rightarrow> (Inl e, g)
        | Inr c \<Rightarrow> (Inr (Some (ca_pem c)), g\<lparr>rg_cas := AList.update sandbox c (rg_cas g)\<rparr>)))"

definition fresh_vault :: vault where
  "fresh_vault = \<lparr>v_exists = False, v_revision = 0, v_credentials = [], v_bindings = [], v_ca = None, v_noAuthority = False\<rparr>"

definition Open :: "string \<Rightarrow> policy option \<Rightarrow> registry \<Rightarrow> vault \<times> registry" where
  "Open sandbox pol g = (case map_of (rg_vaults g) sandbox of Some v \<Rightarrow> (v, g)
     | None \<Rightarrow> (let (v, cas) = (case map_of (rg_cas g) sandbox of
           Some c \<Rightarrow> (fresh_vault\<lparr>v_ca := Some c\<rparr>, AList.delete sandbox (rg_cas g))
         | None \<Rightarrow> (fresh_vault\<lparr>v_noAuthority := (case pol of None \<Rightarrow> False | Some p \<Rightarrow> hostsOf p \<noteq> [])\<rparr>, rg_cas g))
       in (v, g\<lparr>rg_vaults := AList.update sandbox v (rg_vaults g), rg_cas := cas\<rparr>)))"

definition Close :: "string \<Rightarrow> registry \<Rightarrow> registry" where
  "Close sandbox g = g\<lparr>rg_vaults := AList.delete sandbox (rg_vaults g), rg_cas := AList.delete sandbox (rg_cas g)\<rparr>"

section \<open>Entries of a map\<close>

text \<open>A map whose entries are filed under their own name and satisfy \<open>P\<close>.\<close>

definition entries :: "('v \<Rightarrow> string) \<Rightarrow> ('v \<Rightarrow> bool) \<Rightarrow> (string \<times> 'v) list \<Rightarrow> bool" where
  "entries key P m = (distinct (map fst m) \<and> (\<forall>k r. map_of m k = Some r \<longrightarrow> key r = k \<and> P r))"

lemma entries_Nil [simp]: "entries key P []"
  by (simp add: entries_def)

lemma entries_update: "entries key P m \<Longrightarrow> P r \<Longrightarrow> entries key P (AList.update (key r) r m)"
  by (auto simp: entries_def AList.update_conv' AList.distinct_update)

lemma entries_delete: "entries key P m \<Longrightarrow> entries key P (AList.delete k m)"
  by (auto simp: entries_def AList.delete_conv' AList.distinct_delete split: if_splits)

lemma mu_delete_entries: "mu_delete ns (m, t) = Inr (m', t') \<Longrightarrow> entries key P m \<Longrightarrow> entries key P m'"
  by (induction ns arbitrary: m t) (auto simp: Let_def entries_delete split: if_splits)

lemma mu_write_entries:
  assumes "\<And>x r. norm x = Inr r \<Longrightarrow> P r"
  shows "mu_write add norm key xs (m, t) = Inr (m', t') \<Longrightarrow> entries key P m \<Longrightarrow> entries key P m'"
  by (induction xs arbitrary: m t) (auto simp: entries_update assms split: if_splits sum.splits)

lemma mutate_entries:
  assumes norm: "\<And>x r. norm x = Inr r \<Longrightarrow> P r" and m: "entries key P m" and ok: "mutate norm key muts m = Inr m'"
  shows "entries key P m'"
proof (cases muts)
  case None
  then show ?thesis using m ok by (simp add: mutate_def)
next
  case (Some u)
  from ok obtain m1 t1 m2 t2 t3 where "mu_delete (mu_Delete u) (m, []) = Inr (m1, t1)"
    "mu_write False norm key (mu_Replace u) (m1, t1) = Inr (m2, t2)" "mu_write True norm key (mu_Add u) (m2, t2) = Inr (m', t3)"
    by (auto simp: mutate_def Some bind_res_eq_Inr)
  note d = this
  have m1: "entries key P m1" by (rule mu_delete_entries [OF d(1) m])
  have m2: "entries key P m2" by (rule mu_write_entries [where norm = norm, OF _ d(2) m1]) (erule norm)
  show ?thesis by (rule mu_write_entries [where norm = norm, OF _ d(3) m2]) (erule norm)
qed

lemma collect_entries:
  assumes "\<And>x r. norm x = Inr r \<Longrightarrow> P r"
  shows "collect norm key twice m xs = Inr m' \<Longrightarrow> entries key P m \<Longrightarrow> entries key P m'"
  by (induction xs arbitrary: m) (auto simp: entries_update assms split: if_splits sum.splits)

section \<open>The invariant of a vault\<close>

definition normal_binding :: "binding \<Rightarrow> bool" where
  "normal_binding b = (normal_match (b_Match b) \<and> b_Name b \<noteq> [] \<and>
     au_Type (b_Auth b) \<in> {authBearer, authBasic, authAPIKey, authCustomHeaders, authPassthrough})"

definition apart :: "(string \<times> binding) list \<Rightarrow> bool" where
  "apart bs = (\<forall>a b x y. map_of bs a = Some x \<and> map_of bs b = Some y \<and> a \<noteq> b \<longrightarrow> bindingsOverlap x y = None)"

definition vault_inv :: "vault \<Rightarrow> bool" where
  "vault_inv v = (entries rec_Name (\<lambda>c. rec_Source c \<noteq> []) (v_credentials v) \<and> entries b_Name normal_binding (v_bindings v) \<and>
     (\<forall>k b. map_of (v_bindings v) k = Some b \<longrightarrow> set (credentialsOf (b_Auth b)) \<subseteq> dom (map_of (v_credentials v))) \<and>
     apart (v_bindings v) \<and> (if v_exists v then 1 \<le> v_revision v else v_bindings v = []))"

lemma norm_auth_type_types:
  "norm_auth_type a = Inr b \<Longrightarrow> au_Type b = au_Type a \<and> au_Type b \<in> {authBearer, authBasic, authAPIKey, authCustomHeaders, authPassthrough}"
  by (auto simp: norm_auth_type_def Let_def bind_res_eq_Inr split: if_splits)

lemma normalizeBinding_normal: "normalizeBinding b0 = Inr b \<Longrightarrow> normal_binding b"
proof -
  assume n: "normalizeBinding b0 = Inr b"
  have "au_Type (b_Auth b) \<in> {authBearer, authBasic, authAPIKey, authCustomHeaders, authPassthrough}"
  proof -
    from normalizeBinding_out(2) [OF n] obtain a subs where a: "norm_auth_type ((b_Auth b0)\<lparr>au_Type := TrimSpace (au_Type (b_Auth b0))\<rparr>) = Inr a"
      and "a\<lparr>au_Substitutions := subs\<rparr> = b_Auth b" by (auto simp: normalizeAuth_def bind_res_eq_Inr)
    then have "au_Type (b_Auth b) = au_Type a" by (metis auth.ext_inject auth.surjective auth.update_convs(5))
    with norm_auth_type_types [OF a] show ?thesis by metis
  qed
  then show ?thesis using normalizeBinding_out(1,4) [OF n] unfolding normal_binding_def by blast
qed

lemma normalizeCredential_source: "normalizeCredential c n = Inr r \<Longrightarrow> rec_Source r \<noteq> []"
  by (auto simp: normalizeCredential_def Let_def split: if_splits)

lemma overlap_sym:
  assumes "normal_match (b_Match x)" "normal_match (b_Match y)" "bindingsOverlap x y = None"
  shows "bindingsOverlap y x = None"
  using bindingsOverlap_exact [OF assms(1,2)] bindingsOverlap_exact [OF assms(2,1)] assms(3) by (metis (no_types, lifting))

lemma pairs_mem: "a \<in> set xs \<Longrightarrow> b \<in> set xs \<Longrightarrow> a \<noteq> b \<Longrightarrow> (a, b) \<in> set (pairs xs) \<or> (b, a) \<in> set (pairs xs)"
  by (induction xs) auto

lemma oneBindingPerRequest_apart:
  assumes ok: "oneBindingPerRequest bs = Inr ()" and n: "entries b_Name normal_binding bs"
  shows "apart bs"
  unfolding apart_def
proof (intro allI impI, elim conjE)
  fix a b x y
  assume ab: "map_of bs a = Some x" "map_of bs b = Some y" "a \<noteq> b"
  have no: "bindingsOverlap u w = None" if "(c, d) \<in> set (pairs (sortedBindingNames bs))" "map_of bs c = Some u" "map_of bs d = Some w" for c d u w
    using ok that by (fastforce simp: oneBindingPerRequest_def split: option.splits)
  have "a \<in> set (sortedBindingNames bs)" "b \<in> set (sortedBindingNames bs)"
    using ab(1,2) by (auto simp: sortedBindingNames_def dest!: map_of_SomeD intro: rev_image_eqI)
  then have "(a, b) \<in> set (pairs (sortedBindingNames bs)) \<or> (b, a) \<in> set (pairs (sortedBindingNames bs))"
    using ab(3) by (rule pairs_mem)
  moreover have "normal_match (b_Match x)" "normal_match (b_Match y)"
    using n ab by (auto simp: entries_def normal_binding_def)
  ultimately show "bindingsOverlap x y = None" using no ab overlap_sym by blast
qed

lemma check_vault_ok:
  assumes ok: "check_vault v pol cs bs = Inr u" and n: "entries b_Name normal_binding bs"
  shows "apart bs" "map_of bs k = Some b \<Longrightarrow> set (credentialsOf (b_Auth b)) \<subseteq> dom (map_of cs)"
    "certifiable (v_ca v) bs = Inr ()" "\<not> v_noAuthority v"
    "map_of bs k = Some b \<Longrightarrow> \<exists>p. pol = Some p \<and> (\<forall>h \<in> set (m_Hosts (b_Match b)). AllowsName p (probe_of h))"
proof -
  have u: "validateCandidate cs bs pol = Inr ()" "certifiable (v_ca v) bs = Inr ()" "\<not> v_noAuthority v"
    using ok by (auto simp: check_vault_def split: if_splits)
  then show "certifiable (v_ca v) bs = Inr ()" "\<not> v_noAuthority v" by simp_all
  have c: "\<forall>b \<in> set bs. check_credentials cs (snd b) = Inr ()" and o: "oneBindingPerRequest bs = Inr ()"
    using u(1) by (auto simp: validateCandidate_def split: option.splits if_splits)
  show "apart bs" by (rule oneBindingPerRequest_apart [OF o n])
  show "set (credentialsOf (b_Auth b)) \<subseteq> dom (map_of cs)" if "map_of bs k = Some b"
    using c map_of_SomeD [OF that] by (force simp: check_credentials_def)
  show "\<exists>p. pol = Some p \<and> (\<forall>h \<in> set (m_Hosts (b_Match b)). AllowsName p (probe_of h))" if "map_of bs k = Some b"
    using u(1) map_of_SomeD [OF that] by (fastforce simp: validateCandidate_def check_hosts_def split: option.splits if_splits)
qed

inductive vault_step :: "vault \<Rightarrow> vault \<Rightarrow> bool" where
  creates: "vault_step v (snd (Create pol req v))"
| patches: "vault_step v (snd (Patch pol muts v))"
| deletes: "vault_step v (snd (Delete v))"
| destroys: "vault_step v (destroy_vault v)"

text \<open>A vault as \<open>Open\<close> makes it.\<close>

definition opened :: "vault \<Rightarrow> bool" where
  "opened v = (\<not> v_exists v \<and> v_credentials v = [] \<and> v_bindings v = [])"

lemma Create_cases:
  assumes "Create pol req v = (out, v')"
  obtains (refused) e where "out = Inl e" "v' = v" |
    (accepted) cs bs where "\<not> v_exists v"
      "collect (\<lambda>c. normalizeCredential c 1) rec_Name (\<lambda>n. Credential_twice n) [] (cr_Credentials req) = Inr cs"
      "collect normalizeBinding b_Name (\<lambda>n. Binding_twice n) [] (cr_Bindings req) = Inr bs" "check_vault v pol cs bs = Inr ()"
      "v' = v\<lparr>v_exists := True, v_revision := 1, v_credentials := cs, v_bindings := bs\<rparr>" "out = Inr (stateLocked v')"
proof (cases "v_exists v")
  case True
  then show ?thesis using assms by (auto simp: Create_def intro: refused)
next
  case ex: False
  show ?thesis
  proof (cases "collect (\<lambda>c. normalizeCredential c 1) rec_Name (\<lambda>n. Credential_twice n) [] (cr_Credentials req)")
    case (Inl e)
    then show ?thesis using assms ex by (auto simp: Create_def intro: refused)
  next
    case cs: (Inr cs)
    show ?thesis
    proof (cases "collect normalizeBinding b_Name (\<lambda>n. Binding_twice n) [] (cr_Bindings req)")
      case (Inl e)
      then show ?thesis using assms ex cs by (auto simp: Create_def intro: refused)
    next
      case bs: (Inr bs)
      show ?thesis
      proof (cases "check_vault v pol cs bs")
        case (Inl e)
        then show ?thesis using assms ex cs bs by (auto simp: Create_def intro: refused)
      next
        case (Inr u)
        then show ?thesis using assms ex cs bs by (auto simp: Create_def Let_def intro: accepted)
      qed
    qed
  qed
qed

lemma Patch_cases:
  assumes "Patch pol req v = (out, v')"
  obtains (refused) e where "out = Inl e" "v' = v" |
    (accepted) cs bs where "v_exists v" "mr_ExpectedRevision req = None \<or> mr_ExpectedRevision req = Some (v_revision v)"
      "applyCredentials (mr_Credentials req) (v_revision v + 1) (v_credentials v) = Inr cs"
      "applyBindings (mr_Bindings req) (v_bindings v) = Inr bs" "check_vault v pol cs bs = Inr ()"
      "v' = v\<lparr>v_revision := v_revision v + 1, v_credentials := cs, v_bindings := bs\<rparr>" "out = Inr (stateLocked v')"
proof (cases "v_exists v \<and> (mr_ExpectedRevision req = None \<or> mr_ExpectedRevision req = Some (v_revision v))")
  case False
  then consider "\<not> v_exists v" | "v_exists v" "mr_ExpectedRevision req \<noteq> None \<and> mr_ExpectedRevision req \<noteq> Some (v_revision v)" by metis
  then show ?thesis
  proof cases
    case 1
    then show ?thesis using assms by (auto simp: Patch_def intro: refused)
  next
    case 2
    then have "Patch pol req v = (Inl (Revision_error (the (mr_ExpectedRevision req)) (v_revision v)), v)" unfolding Patch_def by (simp only: not_True_eq_False if_False if_True simp_thms)
    then show ?thesis using assms by (auto intro: refused)
  qed
next
  case ex: True
  then have no: "\<not> (mr_ExpectedRevision req \<noteq> None \<and> mr_ExpectedRevision req \<noteq> Some (v_revision v))" by metis
  show ?thesis
  proof (cases "applyCredentials (mr_Credentials req) (v_revision v + 1) (v_credentials v)")
    case (Inl e)
    then show ?thesis using assms ex no by (auto simp: Patch_def Let_def intro: refused)
  next
    case cs: (Inr cs)
    show ?thesis
    proof (cases "applyBindings (mr_Bindings req) (v_bindings v)")
      case (Inl e)
      then show ?thesis using assms ex no cs by (auto simp: Patch_def Let_def intro: refused)
    next
      case bs: (Inr bs)
      show ?thesis
      proof (cases "check_vault v pol cs bs")
        case (Inl e)
        then show ?thesis using assms ex no cs bs by (auto simp: Patch_def Let_def intro: refused)
      next
        case (Inr u)
        then show ?thesis using assms ex no cs bs by (auto simp: Patch_def Let_def intro: accepted)
      qed
    qed
  qed
qed

lemma vault_invI:
  assumes "entries rec_Name (\<lambda>c. rec_Source c \<noteq> []) cs" "entries b_Name normal_binding bs" "check_vault v pol cs bs = Inr ()"
    "v_credentials v' = cs" "v_bindings v' = bs" "v_exists v'" "1 \<le> v_revision v'"
  shows "vault_inv v'"
  using assms check_vault_ok [OF assms(3,2)] unfolding vault_inv_def by (auto simp del: not_None_eq)

lemma Create_inv: "vault_inv v \<Longrightarrow> Create pol req v = (out, v') \<Longrightarrow> vault_inv v'"
proof -
  assume inv: "vault_inv v" and c: "Create pol req v = (out, v')"
  from c show ?thesis
  proof (cases rule: Create_cases)
    case (accepted cs bs)
    have "entries rec_Name (\<lambda>c. rec_Source c \<noteq> []) cs"
      by (rule collect_entries [OF _ accepted(2)]) (simp_all add: normalizeCredential_source)
    moreover have "entries b_Name normal_binding bs"
      by (rule collect_entries [OF _ accepted(3)]) (simp_all add: normalizeBinding_normal)
    ultimately show ?thesis using accepted(4) by (rule vault_invI) (simp_all add: accepted(5))
  qed (use inv in simp)
qed

lemma Patch_inv: "vault_inv v \<Longrightarrow> Patch pol req v = (out, v') \<Longrightarrow> vault_inv v'"
proof -
  assume inv: "vault_inv v" and c: "Patch pol req v = (out, v')"
  have e: "entries rec_Name (\<lambda>c. rec_Source c \<noteq> []) (v_credentials v)" "entries b_Name normal_binding (v_bindings v)"
    "v_exists v \<Longrightarrow> 1 \<le> v_revision v" using inv by (simp_all add: vault_inv_def)
  from c show ?thesis
  proof (cases rule: Patch_cases)
    case (accepted cs bs)
    have "entries rec_Name (\<lambda>c. rec_Source c \<noteq> []) cs"
      by (rule mutate_entries [OF _ e(1) accepted(3) [unfolded applyCredentials_def]]) (simp add: normalizeCredential_source)
    moreover have "entries b_Name normal_binding bs"
      by (rule mutate_entries [OF _ e(2) accepted(4) [unfolded applyBindings_def]]) (simp add: normalizeBinding_normal)
    ultimately show ?thesis using accepted(5) by (rule vault_invI) (use e(3) [OF accepted(1)] accepted(1) in \<open>simp_all add: accepted(6)\<close>)
  qed (use inv in simp)
qed

lemma empty_inv: "v_credentials v = [] \<Longrightarrow> v_bindings v = [] \<Longrightarrow> \<not> v_exists v \<Longrightarrow> vault_inv v"
  by (simp add: vault_inv_def apart_def)

interpretation vaults: invariant_system opened vault_step vault_inv
proof
  show "vault_inv v" if "opened v" for v using that by (simp add: opened_def empty_inv)
  show "vault_inv w" if "vault_inv v" "vault_step v w" for v w
    using that(2,1)
  proof cases
    case (creates pol req)
    then show ?thesis using Create_inv [OF that(1), of pol req] by (metis surjective_pairing)
  next
    case (patches pol muts)
    then show ?thesis using Patch_inv [OF that(1), of pol muts] by (metis surjective_pairing)
  next
    case deletes
    then show ?thesis using that(1) by (auto simp: Delete_def empty_inv)
  qed (simp add: destroy_vault_def empty_inv)
qed

section \<open>Applying a binding\<close>

lemma vault_invD:
  assumes "vault_inv v"
  shows "map_of (v_bindings v) k = Some b \<Longrightarrow> set (credentialsOf (b_Auth b)) \<subseteq> dom (map_of (v_credentials v))"
    "map_of (v_bindings v) k = Some b \<Longrightarrow> normal_binding b"
    "map_of (v_bindings v) a = Some x \<Longrightarrow> map_of (v_bindings v) b' = Some y \<Longrightarrow> a \<noteq> b' \<Longrightarrow> bindingsOverlap x y = None"
    "distinct (map fst (v_bindings v))" "\<not> v_exists v \<Longrightarrow> v_bindings v = []"
  using assms unfolding vault_inv_def entries_def apart_def by (blast, blast, blast, blast, simp)

text \<open>No two bindings of a vault cover one request, so at most one name is matched.\<close>

lemma covers_unique:
  assumes inv: "vault_inv v" and ab: "map_of (v_bindings v) a = Some x" "map_of (v_bindings v) b = Some y"
    and c: "covers_request r x" "covers_request r y"
  shows "a = b"
proof (rule ccontr)
  assume "a \<noteq> b"
  then have "bindingsOverlap x y = None" by (rule vault_invD(3) [OF inv ab])
  moreover have "normal_match (b_Match x)" "normal_match (b_Match y)"
    using vault_invD(2) [OF inv ab(1)] vault_invD(2) [OF inv ab(2)] by (simp_all add: normal_binding_def)
  ultimately show False using bindingsOverlap_exact c unfolding covers_request_def by metis
qed

lemma matched_name: "name \<in> set (matched v r) \<longleftrightarrow> (\<exists>b. map_of (v_bindings v) name = Some b \<and> covers_request r b)"
proof -
  have "name \<in> set (sortedBindingNames (v_bindings v)) \<longleftrightarrow> map_of (v_bindings v) name \<noteq> None"
    by (simp add: sortedBindingNames_def dom_map_of_conv_image_fst [symmetric] domIff)
  then show ?thesis by (auto simp: matched_def split: option.splits)
qed

lemma matched_cases:
  assumes inv: "vault_inv v"
  obtains (none) "matched v r = []" "\<And>k b. map_of (v_bindings v) k = Some b \<Longrightarrow> \<not> covers_request r b" |
    (one) k b where "matched v r = [k]" "map_of (v_bindings v) k = Some b" "covers_request r b"
proof (cases "matched v r")
  case Nil
  then show ?thesis using none matched_name [of _ v r] by (metis empty_iff list.set(1))
next
  case (Cons k ks)
  have d: "distinct (matched v r)" using vault_invD(4) [OF inv] by (simp add: matched_def sortedBindingNames_def)
  obtain b where b: "map_of (v_bindings v) k = Some b" "covers_request r b" using matched_name [of k v r] Cons by auto
  have "ks = []"
  proof (cases ks)
    case (Cons l ls)
    then have l: "l \<in> set (matched v r)" "l \<noteq> k" using \<open>matched v r = k # ks\<close> d by auto
    then obtain c where "map_of (v_bindings v) l = Some c" "covers_request r c" using matched_name by blast
    then show ?thesis using covers_unique [OF inv b(1) _ b(2)] l(2) by blast
  qed simp
  then show ?thesis using one Cons b by simp
qed

text \<open>The reference: a request gets the binding that covers it, in whatever order the map is walked.\<close>

definition the_binding :: "vault \<Rightarrow> http_request \<Rightarrow> binding option" where
  "the_binding v r = map_option snd (find (\<lambda>(k, b). covers_request r b) (v_bindings v))"

lemma the_binding_none: "vault_inv v \<Longrightarrow> (\<And>k b. map_of (v_bindings v) k = Some b \<Longrightarrow> \<not> covers_request r b) \<Longrightarrow> the_binding v r = None"
  using vault_invD(4) by (fastforce simp: the_binding_def find_None_iff dest: map_of_is_SomeI)

lemma the_binding_one:
  assumes inv: "vault_inv v" and k: "map_of (v_bindings v) k = Some b" "covers_request r b"
  shows "the_binding v r = Some b"
proof -
  have "find (\<lambda>(k, b). covers_request r b) (v_bindings v) \<noteq> None"
    unfolding find_None_iff using map_of_SomeD [OF k(1)] k(2) by auto
  then obtain l c where f: "find (\<lambda>(k, b). covers_request r b) (v_bindings v) = Some (l, c)" by auto
  then have "(l, c) \<in> set (v_bindings v)" "covers_request r c" using find_SomeD [OF f] by auto
  then have "map_of (v_bindings v) l = Some c" using vault_invD(4) [OF inv] by simp
  then have "l = k" "c = b" using covers_unique [OF inv _ k(1) \<open>covers_request r c\<close> k(2)] k(1) by auto
  then show ?thesis by (simp add: the_binding_def f)
qed

lemma Apply_reference:
  assumes inv: "vault_inv v"
  shows "Apply v r = (case the_binding v r of None \<Rightarrow> (Some Err_NoBinding, r) | Some b \<Rightarrow> applyAuth v b r)"
proof (cases rule: matched_cases [OF inv, of r])
  case 1
  then show ?thesis using the_binding_none [OF inv 1(2)] by (simp add: Apply_def)
next
  case (2 k b)
  moreover have "v_exists v" using 2 vault_invD(5) [OF inv] by (cases "v_exists v") auto
  ultimately show ?thesis using the_binding_one [OF inv 2(2,3)] by (simp add: Apply_def)
qed

subsection \<open>What can go wrong\<close>

lemma each_error: "fst (each f xs r) = Some e \<Longrightarrow> \<exists>x \<in> set xs. \<exists>r'. fst (f x r') = Some e"
proof (induction xs arbitrary: r)
  case (Cons x xs)
  show ?case
  proof (cases "f x r")
    case (Pair c r')
    then show ?thesis using Cons by (cases c) (auto, metis fst_conv)
  qed
qed simp

definition body_error :: "apply_error \<Rightarrow> bool" where
  "body_error e = (e = Err_BodyTooLarge \<or> (\<exists>m. e = Body_read m))"

lemma substituteIn_error: "fst (substituteIn s p x r) = Some e \<Longrightarrow> body_error e"
  by (auto simp: substituteIn_def substituteBody_def body_error_def Let_def split: if_splits option.splits sum.splits)

lemma reveal_ok: "name \<in> dom (map_of (v_credentials v)) \<Longrightarrow> \<exists>x. reveal v name = Inr x"
  by (auto simp: reveal_def)

lemma set_header_ok: "c \<in> dom (map_of (v_credentials v)) \<Longrightarrow> fst (set_header v n c form r) = None"
  using reveal_ok [of c v] by (auto simp: set_header_def)

lemma substitute_error:
  assumes "\<And>s. s \<in> set subs \<Longrightarrow> sub_Credential s \<in> dom (map_of (v_credentials v))" "fst (substitute v subs r) = Some e"
  shows "body_error e"
proof -
  from each_error [OF assms(2) [unfolded substitute_def]] obtain s r' where s: "s \<in> set subs"
    "fst (case reveal v (sub_Credential s) of Inl e \<Rightarrow> (Some e, r')
       | Inr val \<Rightarrow> each (\<lambda>surface. substituteIn surface (sub_Placeholder s) val) (sub_In s) r') = Some e" by auto
  obtain x where "reveal v (sub_Credential s) = Inr x" using reveal_ok [OF assms(1) [OF s(1)]] by auto
  then show ?thesis using s(2) each_error [of "\<lambda>surface. substituteIn surface (sub_Placeholder s) x"] substituteIn_error by fastforce
qed

lemma add_auth_ok:
  assumes "normal_binding b" "set (credentialsOf (b_Auth b)) \<subseteq> dom (map_of (v_credentials v))"
  shows "fst (add_auth v (b_Auth b) r) = None"
proof -
  have t: "au_Type (b_Auth b) \<in> {authBearer, authBasic, authAPIKey, authCustomHeaders, authPassthrough}"
    using assms(1) unfolding normal_binding_def by blast
  have single: "au_Credential (b_Auth b) \<in> dom (map_of (v_credentials v))"
    if "au_Type (b_Auth b) = authBearer \<or> au_Type (b_Auth b) = authBasic \<or> au_Type (b_Auth b) = authAPIKey"
    using assms(2) that unfolding credentialsOf_def by auto
  have many: "fst (each (\<lambda>h. set_header v (he_Name h) (he_Credential h) (\<lambda>x. x)) (au_Headers (b_Auth b)) r) = None"
    if ty: "au_Type (b_Auth b) = authCustomHeaders"
  proof (rule ccontr)
    assume "fst (each (\<lambda>h. set_header v (he_Name h) (he_Credential h) (\<lambda>x. x)) (au_Headers (b_Auth b)) r) \<noteq> None"
    then obtain e h r' where "h \<in> set (au_Headers (b_Auth b))" "fst (set_header v (he_Name h) (he_Credential h) (\<lambda>x. x) r') = Some e"
      using each_error by blast
    moreover from this have "he_Credential h \<in> dom (map_of (v_credentials v))"
      using assms(2) ty by (auto simp: credentialsOf_def authCustomHeaders_def authBearer_def authBasic_def authAPIKey_def)
    ultimately show False using set_header_ok by fastforce
  qed
  show ?thesis using t single many by (auto simp: add_auth_def intro: set_header_ok)
qed

lemma applyAuth_error:
  assumes "normal_binding b" "set (credentialsOf (b_Auth b)) \<subseteq> dom (map_of (v_credentials v))" "fst (applyAuth v b r) = Some e"
  shows "body_error e"
proof -
  obtain r' where "add_auth v (b_Auth b) r = (None, r')" using add_auth_ok [OF assms(1,2), of r] by (metis surjective_pairing)
  then have "fst (substitute v (au_Substitutions (b_Auth b)) r') = Some e" using assms(3) by (simp add: applyAuth_def)
  then show ?thesis by (rule substitute_error [rotated]) (use assms(2) in \<open>auto simp: credentialsOf_def\<close>)
qed

text \<open>
  (C13) Over any sequence of writes to a vault, under any policies, a request is given the credential of the
  one binding that covers it, whatever order the bindings are walked in, and is refused untouched when
  none does. The backstops of \<open>Apply\<close>, an ambiguous match, a binding that names a credential the
  vault does not hold, an unknown auth type, are never reached: the only other errors are of the
  request's own body.
\<close>

theorem apply_is_the_one_binding:
  assumes "reach opened vault_step v"
  shows "Apply v r = (case the_binding v r of None \<Rightarrow> (Some Err_NoBinding, r) | Some b \<Rightarrow> applyAuth v b r) \<and>
    (\<forall>e. fst (Apply v r) = Some e \<longrightarrow> the_binding v r = None \<and> e = Err_NoBinding \<or> e = Err_BodyTooLarge \<or> (\<exists>m. e = Body_read m))"
proof (intro conjI allI impI)
  note inv = vaults.reach_inv [OF assms]
  show eq: "Apply v r = (case the_binding v r of None \<Rightarrow> (Some Err_NoBinding, r) | Some b \<Rightarrow> applyAuth v b r)"
    by (rule Apply_reference [OF inv])
  fix e assume e: "fst (Apply v r) = Some e"
  show "the_binding v r = None \<and> e = Err_NoBinding \<or> e = Err_BodyTooLarge \<or> (\<exists>m. e = Body_read m)"
  proof (cases "the_binding v r")
    case None
    then show ?thesis using e eq by simp
  next
    case (Some b)
    then obtain k where "(k, b) \<in> set (v_bindings v)" by (auto simp: the_binding_def dest: find_SomeD)
    then have k: "map_of (v_bindings v) k = Some b" using vault_invD(4) [OF inv] by simp
    have "body_error e"
      using applyAuth_error [OF vault_invD(2) [OF inv k] vault_invD(1) [OF inv k]] e eq Some by simp
    then show ?thesis by (simp add: body_error_def)
  qed
qed

section \<open>A vault to try things on\<close>

definition demo_credential :: "string \<Rightarrow> string \<Rightarrow> credential" where
  "demo_credential name val = \<lparr>cred_Name = name, cred_Source = \<lparr>src_Type = ''inline'', src_Value = val\<rparr>\<rparr>"

definition demo_policy :: policy where
  "demo_policy = mk_policy ''deny'' [\<lparr>rule_Action = ''allow'', rule_Target = ''*.example.com''\<rparr>]"

definition demo_opened :: vault where
  "demo_opened = fresh_vault\<lparr>v_ca := Some \<lparr>ca_pem = ''CERT'', ca_hosts = [''.example.com''], ca_destroyed = False, ca_leaves = []\<rparr>\<rparr>"

definition demo_create :: "string \<Rightarrow> createRequest" where
  "demo_create host = \<lparr>cr_Credentials = [demo_credential ''token'' ''s3cret''], cr_Bindings = [demo_binding ''api'' host []]\<rparr>"

definition demo_vault :: vault where
  "demo_vault = snd (Create (Some demo_policy) (demo_create ''api.example.com'') demo_opened)"

definition demo_request :: http_request where
  "demo_request = \<lparr>hr_Method = ''get'', hr_Scheme = ''https'', hr_TLS = True, hr_Host = ''api.example.com:443'', hr_URLHost = [],
     hr_Path = ''/v1/models'', hr_RawPath = [], hr_RawQuery = [], hr_Header = [(''Authorization'', [''Bearer placeholder''])],
     hr_Body = None, hr_ContentLength = 0, hr_TransferEncoding = []\<rparr>"

lemma demo_opened_opened: "opened demo_opened"
  by (simp add: opened_def demo_opened_def fresh_vault_def)

lemma demo_vault_reach: "reach opened vault_step demo_vault"
proof -
  have "reach opened vault_step demo_opened" by (rule reach_init) (rule demo_opened_opened)
  then show ?thesis unfolding demo_vault_def by (rule reach_step) (rule creates)
qed

theorem apply_is_the_one_binding_witness:
  "the_binding demo_vault demo_request = Some (demo_normal ''api'' ''api.example.com'' [''/*'']) \<and>
   map_of (hr_Header (snd (Apply demo_vault demo_request))) ''Authorization'' = Some [''Bearer s3cret''] \<and>
   Apply demo_vault (demo_request\<lparr>hr_Host := ''www.example.com''\<rparr>) = (Some Err_NoBinding, demo_request\<lparr>hr_Host := ''www.example.com''\<rparr>)"
proof -
  have b: "the_binding demo_vault demo_request = Some (demo_normal ''api'' ''api.example.com'' [''/*''])" by code_simp
  have n: "the_binding demo_vault (demo_request\<lparr>hr_Host := ''www.example.com''\<rparr>) = None" by code_simp
  have a: "map_of (hr_Header (snd (applyAuth demo_vault (demo_normal ''api'' ''api.example.com'' [''/*'']) demo_request))) ''Authorization'' = Some [''Bearer s3cret'']"
    by code_simp
  show ?thesis using b n a apply_is_the_one_binding [OF demo_vault_reach, of demo_request]
      apply_is_the_one_binding [OF demo_vault_reach, of "demo_request\<lparr>hr_Host := ''www.example.com''\<rparr>"]
    by simp
qed

section \<open>Writes\<close>

text \<open>
  (C18) A PATCH is applied whole or not at all, and the revision guards it: a refused one leaves the vault as
  it was, an accepted one moves it to the next revision with exactly the credentials and bindings of
  the mutation, and a second PATCH that names the revision the first one found is refused, whatever
  either of them does.
\<close>

theorem patch_all_or_nothing:
  "case Patch pol req v of
     (Inl e, v') \<Rightarrow> v' = v
   | (Inr st, v') \<Rightarrow> v_revision v' = v_revision v + 1 \<and> st = stateLocked v' \<and> v_exists v' \<and> v_ca v' = v_ca v \<and>
       applyCredentials (mr_Credentials req) (v_revision v + 1) (v_credentials v) = Inr (v_credentials v') \<and>
       applyBindings (mr_Bindings req) (v_bindings v) = Inr (v_bindings v') \<and>
       check_vault v pol (v_credentials v') (v_bindings v') = Inr () \<and>
       (\<forall>pol2 req2. mr_ExpectedRevision req2 = Some (v_revision v) \<longrightarrow>
          Patch pol2 req2 v' = (Inl (Revision_error (v_revision v) (v_revision v + 1)), v'))"
proof (cases "Patch pol req v")
  case (Pair out v')
  from Pair show ?thesis
  proof (cases rule: Patch_cases)
    case (accepted cs bs)
    have "Patch pol2 req2 v' = (Inl (Revision_error (v_revision v) (v_revision v + 1)), v')"
      if "mr_ExpectedRevision req2 = Some (v_revision v)" for pol2 req2
      using that accepted(1) by (simp add: Patch_def accepted(6))
    then show ?thesis using accepted Pair by simp
  qed (simp add: Pair)
qed

text \<open>
  The guard does not survive a DELETE: a vault that is deleted and created again starts at revision 1,
  so a PATCH written against the first one is taken by the second, whose bindings it never read.
\<close>

theorem revision_reused_after_delete:
  "let v1 = snd (Create (Some demo_policy) (demo_create ''api.example.com'') demo_opened);
       v2 = snd (Create (Some demo_policy) (demo_create ''www.example.com'') (snd (Delete v1)));
       req = \<lparr>mr_ExpectedRevision = Some (v_revision v1),
         mr_Credentials = Some \<lparr>mu_Add = [], mu_Replace = [demo_credential ''token'' ''other''], mu_Delete = []\<rparr>, mr_Bindings = None\<rparr>
   in v_bindings v1 \<noteq> v_bindings v2 \<and> is_ok (fst (Patch (Some demo_policy) req v2))"
  by code_simp

section \<open>Mutations refine an update of a map\<close>

text \<open>
  The abstract mutation of a partial map: names to remove, entries to overwrite and entries to add. It is
  allowed when no name occurs twice, and what is removed or overwritten is there and what is added is
  not; then the result is one expression, without an order.
\<close>

definition may_mutate :: "string list \<Rightarrow> ('v \<Rightarrow> string) \<Rightarrow> 'v list \<Rightarrow> 'v list \<Rightarrow> (string \<rightharpoonup> 'v) \<Rightarrow> bool" where
  "may_mutate del key rep add m = ([] \<notin> set del \<and> distinct (del @ map key rep @ map key add) \<and>
     set del \<subseteq> dom m \<and> key ` set rep \<subseteq> dom m \<and> key ` set add \<inter> dom m = {})"

definition mutated :: "string list \<Rightarrow> ('v \<Rightarrow> string) \<Rightarrow> 'v list \<Rightarrow> 'v list \<Rightarrow> (string \<rightharpoonup> 'v) \<Rightarrow> (string \<rightharpoonup> 'v)" where
  "mutated del key rep add m = (m |` (- set del)) ++ map_of (map (\<lambda>r. (key r, r)) (rep @ add))"

lemma mu_delete_iff:
  "mu_delete ns (m, t) = Inr (m', t') \<longleftrightarrow> (let ds = map TrimSpace ns in [] \<notin> set ds \<and> distinct ds \<and> set ds \<inter> set t = {} \<and>
     set ds \<subseteq> dom (map_of m) \<and> m' = fold AList.delete ds m \<and> t' = rev ds @ t)"
proof (induction ns arbitrary: m t)
  case Nil
  then show ?case by (auto simp: Let_def)
next
  case (Cons n ns)
  have "dom (map_of (AList.delete (TrimSpace n) m)) = dom (map_of m) - {TrimSpace n}"
    by (auto simp: AList.delete_conv')
  then show ?case by (auto simp: Let_def Cons.IH; metis imageI)
qed

lemma mu_write_iff:
  "mu_write add norm key xs (m, t) = Inr (m', t') \<longleftrightarrow> (\<exists>rs. traverse norm xs = Inr rs \<and> distinct (map key rs) \<and> key ` set rs \<inter> set t = {} \<and>
     (if add then key ` set rs \<inter> dom (map_of m) = {} else key ` set rs \<subseteq> dom (map_of m)) \<and>
     m' = fold (\<lambda>r. AList.update (key r) r) rs m \<and> t' = rev (map key rs) @ t)"
proof (induction xs arbitrary: m t)
  case Nil
  then show ?case by auto
next
  case (Cons x xs)
  show ?case
  proof (cases "norm x")
    case (Inr r)
    have d: "dom (map_of (AList.update (key r) r m)) = insert (key r) (dom (map_of m))" by (auto simp: AList.update_conv')
    show ?thesis
    proof
      assume l: "mu_write add norm key (x # xs) (m, t) = Inr (m', t')"
      then have g: "key r \<notin> set t" "add = (map_of m (key r) = None)" and
        w: "mu_write add norm key xs (AList.update (key r) r m, key r # t) = Inr (m', t')"
        using Inr by (auto split: if_splits)
      from w [unfolded Cons.IH] obtain rs where rs: "traverse norm xs = Inr rs" "distinct (map key rs)"
        "key ` set rs \<inter> set (key r # t) = {}"
        "if add then key ` set rs \<inter> dom (map_of (AList.update (key r) r m)) = {} else key ` set rs \<subseteq> dom (map_of (AList.update (key r) r m))"
        "m' = fold (\<lambda>r. AList.update (key r) r) rs (AList.update (key r) r m)" "t' = rev (map key rs) @ key r # t" by blast
      show "\<exists>rs. traverse norm (x # xs) = Inr rs \<and> distinct (map key rs) \<and> key ` set rs \<inter> set t = {} \<and>
        (if add then key ` set rs \<inter> dom (map_of m) = {} else key ` set rs \<subseteq> dom (map_of m)) \<and>
        m' = fold (\<lambda>r. AList.update (key r) r) rs m \<and> t' = rev (map key rs) @ t"
        by (intro exI [of _ "r # rs"]) (use Inr rs g in \<open>auto simp: d split: if_splits\<close>)
    next
      assume "\<exists>rs. traverse norm (x # xs) = Inr rs \<and> distinct (map key rs) \<and> key ` set rs \<inter> set t = {} \<and>
        (if add then key ` set rs \<inter> dom (map_of m) = {} else key ` set rs \<subseteq> dom (map_of m)) \<and>
        m' = fold (\<lambda>r. AList.update (key r) r) rs m \<and> t' = rev (map key rs) @ t"
      then obtain rs where rs: "traverse norm xs = Inr rs" "distinct (map key (r # rs))" "key ` set (r # rs) \<inter> set t = {}"
        "if add then key ` set (r # rs) \<inter> dom (map_of m) = {} else key ` set (r # rs) \<subseteq> dom (map_of m)"
        "m' = fold (\<lambda>r. AList.update (key r) r) (r # rs) m" "t' = rev (map key (r # rs)) @ t"
        using Inr by (auto split: sum.splits)
      then have "mu_write add norm key xs (AList.update (key r) r m, key r # t) = Inr (m', t')"
        unfolding Cons.IH by (intro exI [of _ rs]) (auto simp: d split: if_splits)
      moreover have "key r \<notin> set t" "add = (map_of m (key r) = None)" using rs(3,4) by (auto split: if_splits)
      ultimately show "mu_write add norm key (x # xs) (m, t) = Inr (m', t')" using Inr by auto
    qed
  qed (simp add: bind_res_def)
qed

lemma map_of_fold_delete: "map_of (fold AList.delete ds m) = map_of m |` (- set ds)"
  by (induction ds arbitrary: m) (auto simp: AList.delete_conv' restrict_map_def fun_eq_iff)

lemma map_of_fold_update:
  "distinct (map key rs) \<Longrightarrow> map_of (fold (\<lambda>r. AList.update (key r) r) rs m) = map_of m ++ map_of (map (\<lambda>r. (key r, r)) rs)"
proof (induction rs arbitrary: m)
  case (Cons r rs)
  then have "map_of (map (\<lambda>r. (key r, r)) rs) (key r) = None" by (auto simp: map_of_eq_None_iff)
  with Cons show ?case by (auto simp: AList.update_conv' fun_eq_iff map_add_def split: option.splits)
qed simp

lemma mutate_refines:
  assumes "mutate norm key (Some u) m = Inr m'"
  shows "\<exists>rep add. traverse norm (mu_Replace u) = Inr rep \<and> traverse norm (mu_Add u) = Inr add \<and>
    may_mutate (map TrimSpace (mu_Delete u)) key rep add (map_of m) \<and>
    map_of m' = mutated (map TrimSpace (mu_Delete u)) key rep add (map_of m)"
proof -
  let ?d = "map TrimSpace (mu_Delete u)"
  from assms obtain m1 t1 m2 t2 t3 where w: "mu_delete (mu_Delete u) (m, []) = Inr (m1, t1)"
    "mu_write False norm key (mu_Replace u) (m1, t1) = Inr (m2, t2)" "mu_write True norm key (mu_Add u) (m2, t2) = Inr (m', t3)"
    by (auto simp: mutate_def bind_res_eq_Inr)
  from w(1) have d: "[] \<notin> set ?d" "distinct ?d" "set ?d \<subseteq> dom (map_of m)" "m1 = fold AList.delete ?d m" "t1 = rev ?d"
    by (auto simp: mu_delete_iff Let_def)
  from w(2) obtain rep where r: "traverse norm (mu_Replace u) = Inr rep" "distinct (map key rep)" "key ` set rep \<inter> set t1 = {}"
    "key ` set rep \<subseteq> dom (map_of m1)" "m2 = fold (\<lambda>r. AList.update (key r) r) rep m1" "t2 = rev (map key rep) @ t1"
    by (auto simp: mu_write_iff)
  from w(3) obtain add where a: "traverse norm (mu_Add u) = Inr add" "distinct (map key add)" "key ` set add \<inter> set t2 = {}"
    "key ` set add \<inter> dom (map_of m2) = {}" "m' = fold (\<lambda>r. AList.update (key r) r) add m2"
    by (auto simp: mu_write_iff)
  have m1: "map_of m1 = map_of m |` (- set ?d)" by (simp add: d(4) map_of_fold_delete)
  have m2: "map_of m2 = map_of m1 ++ map_of (map (\<lambda>r. (key r, r)) rep)" by (simp add: r(5) map_of_fold_update [OF r(2)])
  have m': "map_of m' = map_of m2 ++ map_of (map (\<lambda>r. (key r, r)) add)" by (simp add: a(5) map_of_fold_update [OF a(2)])
  have new: "key ` set add \<inter> dom (map_of m) = {}"
  proof -
    have "key r \<notin> dom (map_of m)" if "r \<in> set add" for r
    proof
      assume "key r \<in> dom (map_of m)"
      moreover have "key r \<notin> set ?d" using a(3) that by (auto simp: r(6) d(5))
      ultimately have "key r \<in> dom (map_of m2)" by (simp add: m2 m1)
      then show False using a(4) that by blast
    qed
    then show ?thesis by blast
  qed
  have "may_mutate ?d key rep add (map_of m)"
    unfolding may_mutate_def using d(1,2,3) r(2,3,4) a(2,3) new by (auto simp: m1 d(5) r(6))
  moreover have "map_of m' = mutated ?d key rep add (map_of m)"
  proof -
    have "map_of (map (\<lambda>r. (key r, r)) (rep @ add)) = map_of (map (\<lambda>r. (key r, r)) rep) ++ map_of (map (\<lambda>r. (key r, r)) add)"
    proof -
      have "dom (map_of (map (\<lambda>r. (key r, r)) rep)) \<inter> dom (map_of (map (\<lambda>r. (key r, r)) add)) = {}"
        using a(3) by (simp add: dom_map_of_conv_image_fst image_image r(6)) blast
      then show ?thesis by (simp add: map_add_comm)
    qed
    then show ?thesis by (simp add: mutated_def m' m2 m1)
  qed
  ultimately show ?thesis using r(1) a(1) by blast
qed

text \<open>
  (C15) A mutation is a refinement of an update of a partial map: an accepted mutation of credentials is one the
  abstract map allows, and gives what the abstract update gives, with every entry written stamped with
  the new revision. In particular no name is in two operations of one PATCH: a name cannot be retired
  and reused in the same one.
\<close>

theorem credentials_refine_map:
  assumes "Patch pol req v = (Inr st, v')" "mr_Credentials req = Some u"
  shows "\<exists>rep add. traverse (\<lambda>c. normalizeCredential c (v_revision v')) (mu_Replace u) = Inr rep \<and>
    traverse (\<lambda>c. normalizeCredential c (v_revision v')) (mu_Add u) = Inr add \<and>
    may_mutate (map TrimSpace (mu_Delete u)) rec_Name rep add (map_of (v_credentials v)) \<and>
    map_of (v_credentials v') = mutated (map TrimSpace (mu_Delete u)) rec_Name rep add (map_of (v_credentials v))"
  using assms(1)
proof (cases rule: Patch_cases)
  case (accepted cs bs)
  have "mutate (\<lambda>c. normalizeCredential c (v_revision v')) rec_Name (Some u) (v_credentials v) = Inr (v_credentials v')"
    using accepted(3) assms(2) by (simp add: applyCredentials_def accepted(6))
  then show ?thesis by (rule mutate_refines)
qed simp

theorem credentials_refine_map_witness:
  "let u = \<lparr>mu_Add = [demo_credential ''second'' ''two''], mu_Replace = [demo_credential ''token'' ''new''], mu_Delete = []\<rparr>;
       req = \<lparr>mr_ExpectedRevision = Some 1, mr_Credentials = Some u, mr_Bindings = None\<rparr>;
       v' = snd (Patch (Some demo_policy) req demo_vault)
   in is_ok (fst (Patch (Some demo_policy) req demo_vault)) \<and> v_revision v' = 2 \<and>
      (\<exists>rep add. traverse (\<lambda>c. normalizeCredential c (v_revision v')) (mu_Replace u) = Inr rep \<and>
        traverse (\<lambda>c. normalizeCredential c (v_revision v')) (mu_Add u) = Inr add \<and>
        may_mutate [] rec_Name rep add (map_of (v_credentials demo_vault)) \<and>
        map_of (v_credentials v') = mutated [] rec_Name rep add (map_of (v_credentials demo_vault)))"
proof -
  let ?u = "\<lparr>mu_Add = [demo_credential ''second'' ''two''], mu_Replace = [demo_credential ''token'' ''new''], mu_Delete = []\<rparr>"
  let ?req = "\<lparr>mr_ExpectedRevision = Some 1, mr_Credentials = Some ?u, mr_Bindings = None\<rparr>"
  let ?p = "Patch (Some demo_policy) ?req demo_vault"
  have ok: "is_ok (fst ?p)" "v_revision (snd ?p) = 2" by code_simp+
  obtain st where "?p = (Inr st, snd ?p)" using ok(1) by (cases "fst ?p") (auto, metis prod.collapse)
  from credentials_refine_map [OF this, of ?u] ok show ?thesis by (simp add: Let_def)
qed

section \<open>What a caller is told\<close>

text \<open>The vault with every secret blanked out.\<close>

definition redact :: "vault \<Rightarrow> vault" where
  "redact v = v\<lparr>v_credentials := map (\<lambda>(k, c). (k, c\<lparr>rec_Source := []\<rparr>)) (v_credentials v)\<rparr>"

lemma metadata_redact: "metadata_of (c\<lparr>rec_Source := s\<rparr>) = metadata_of c"
  by (simp add: metadata_of_def)

lemma redact_simps [simp]:
  "v_exists (redact v) = v_exists v" "v_revision (redact v) = v_revision v" "v_bindings (redact v) = v_bindings v"
  "map (\<lambda>c. metadata_of (snd c)) (v_credentials (redact v)) = map (\<lambda>c. metadata_of (snd c)) (v_credentials v)"
  "map_option metadata_of (map_of (v_credentials (redact v)) name) = map_option metadata_of (map_of (v_credentials v) name)"
  by (auto simp: redact_def metadata_redact map_of_map comp_def split_beta map_option.compositionality
      intro!: arg_cong [of _ _ "\<lambda>f. map_option f _"])


section \<open>Bound hosts and the authority\<close>

lemma lowerHost_normal: "normalizeHost h = Inr h \<Longrightarrow> lowerHost h = h"
  by (simp add: lowerHost_def normalizeHost_normal)

lemma wild_tail: "HasPrefix h ''*.'' \<Longrightarrow> drop 1 h = ''.'' @ drop 2 h"
  by (auto simp: HasPrefix_def prefix_def)

lemma probe_dot: "HasPrefix h ''*.'' \<Longrightarrow> ''probe'' @ drop 1 h = ''probe'' @ ''.'' @ drop 2 h"
  by (simp only: wild_tail)

text \<open>A host that matches a wildcard, spelled canonically.\<close>

lemma covers_probe_wild:
  assumes n: "normalizeHost h = Inr h" and w: "HasPrefix h ''*.''" and low: "lowerHost host = host"
    and c: "Covers c (''probe'' @ drop 1 h)" and p: "lowerHost (''probe'' @ drop 1 h) = ''probe'' @ drop 1 h"
    and ne: "''probe'' @ drop 1 h \<notin> set (ca_hosts c)" and hc: "host_covers h host"
  shows "Covers c host"
proof -
  from c p obtain x where x: "x \<in> set (ca_hosts c)" "constraint_covers x (''probe'' @ drop 1 h)" and d: "\<not> ca_destroyed c"
    by (auto simp: Covers_def coveredBy_def list_ex_iff split: if_splits)
  have s: "suffix (''.'' @ drop 2 h) host" "host \<noteq> ''.'' @ drop 2 h"
    using hc [unfolded host_covers_wild [OF w]] w [unfolded HasPrefix_def] by (simp_all add: TrimPrefix_def numeral_2_eq_2)
  have "constraint_covers x host"
  proof (rule constraint_covers_wild)
    show "constraint_covers x (''probe'' @ ''.'' @ drop 2 h)" using x(2) unfolding probe_dot [OF w] .
    show "x \<noteq> ''probe'' @ ''.'' @ drop 2 h" using ne x(1) unfolding probe_dot [OF w] by blast
  qed (use s in simp_all)
  moreover have "host \<noteq> []" using s(1) by auto
  ultimately show ?thesis using x(1) d by (auto simp: Covers_def coveredBy_def list_ex_iff low)
qed

text \<open>The probe of a normal wildcard is its own canonical form.\<close>

lemma lowerHost_probe:
  assumes "normalizeHost h = Inr h" "HasPrefix h ''*.''"
  shows "lowerHost (''probe'' @ drop 1 h) = ''probe'' @ drop 1 h"
proof -
  have v: "validFQDN (drop 2 h)" by (rule normalizeHost_normal(7) [OF assms])
  have sp: "\<not> isSpaceByte x" if "x \<in> set (''probe'' @ drop 1 h)" for x
  proof -
    have "x \<in> set ''probe'' \<or> x = CHR ''.'' \<or> x \<in> set (drop 2 h)" using that [unfolded wild_tail [OF assms(2)]] by auto
    then show ?thesis using FQDN_bytes [OF v, of x] isAlnum_not_space [of x] by (auto simp: isSpaceByte_def)
  qed
  have low: "ToLower (drop 1 h) = drop 1 h" using normalizeHost_normal(2) [OF assms(1)] by (metis ToLower_def drop_map)
  have "ToLower (''probe'' @ drop 1 h) = ToLower ''probe'' @ ToLower (drop 1 h)" by (simp add: ToLower_def)
  also have "ToLower ''probe'' = ''probe''" by code_simp
  finally have "ToLower (''probe'' @ drop 1 h) = ''probe'' @ drop 1 h" by (simp only: low)
  moreover have "TrimSpace (''probe'' @ drop 1 h) = ''probe'' @ drop 1 h" by (rule TrimSpace_no_space) (use sp in blast)
  moreover have "last (''probe'' @ drop 1 h) \<noteq> CHR ''.''" unfolding wild_tail [OF assms(2)] using FQDN_last [OF v] by (simp add: last_append del: last_drop)
  ultimately show ?thesis unfolding lowerHost_def by (simp only: TrimSuffix_dot) auto
qed

lemma certifiable_covers:
  assumes cert: "certifiable (Some c) bs = Inr ()" and b: "map_of bs k = Some b" and h: "h \<in> set (m_Hosts (b_Match b))"
  shows "Covers c (if HasPrefix h ''*.'' then ''probe'' @ drop 1 h else h)"
  using cert map_of_SomeD [OF b] h by (force simp: certifiable_def split: if_splits)

text \<open>
  What an accepted write binds can be signed for: every host name a binding covers is one the sandbox's
  authority hands out a certificate for, so no write is accepted that fails at the first request, as
  long as no constraint of the authority is the very name a wildcard is probed with.
\<close>

theorem bound_hosts_can_be_signed:
  assumes p: "Patch pol req v = (Inr st, v')" and inv: "reach opened vault_step v"
    and b: "map_of (v_bindings v') k = Some b" and h: "h \<in> set (m_Hosts (b_Match b))"
    and ne: "\<And>c. v_ca v = Some c \<Longrightarrow> ''probe'' @ drop 1 h \<notin> set (ca_hosts c)"
    and host: "host_covers h host" "lowerHost host = host"
  shows "\<exists>c. v_ca v' = Some c \<and> Covers c host"
  using p
proof (cases rule: Patch_cases)
  case (accepted cs bs)
  have vi: "vault_inv v'" by (rule Patch_inv [OF vaults.reach_inv [OF inv] p])
  have n: "normalizeHost h = Inr h"
    using vault_invD(2) [OF vi b] h normal_matchD(1) unfolding normal_binding_def by blast
  have bs: "map_of bs k = Some b" "entries b_Name normal_binding bs"
    using b vi accepted(6) by (simp_all add: vault_inv_def)
  note cert = check_vault_ok(3) [OF accepted(5) bs(2)]
  obtain c where c: "v_ca v = Some c" using cert bs(1) by (cases "v_ca v") (auto simp: certifiable_def split: if_splits)
  note cov = certifiable_covers [OF cert [unfolded c] bs(1) h]
  have "Covers c host"
  proof (cases "HasPrefix h ''*.''")
    case True
    then show ?thesis using covers_probe_wild [OF n True host(2) _ lowerHost_probe [OF n True] ne [OF c] host(1)] cov by simp
  next
    case False
    then show ?thesis using cov host(1) by (simp add: host_covers_def)
  qed
  then show ?thesis using accepted(6) c by simp
qed simp

text \<open>
  A wildcard is tested through one name under it, and that name can be a host of its own: with a policy that
  names only \<open>probe.example.com\<close>, a binding on \<open>*.example.com\<close> passes both the policy and the
  authority, while every other name under it is denied by the one and cannot be signed for by the other.
\<close>

theorem wildcard_probe_collides:
  "let pol = mk_policy ''deny'' [mk_rule ''allow'' ''probe.example.com''];
       c = \<lparr>ca_pem = ''CERT'', ca_hosts = [''probe.example.com''], ca_destroyed = False, ca_leaves = []\<rparr>;
       v = snd (Create (Some pol) (demo_create ''*.example.com'') (fresh_vault\<lparr>v_ca := Some c\<rparr>))
   in NewCA (Inr ''CERT'') (hostsOf pol) = Inr c \<and> v_exists v \<and> Bound ''api.example.com'' ''443'' v \<and>
      \<not> AllowsName pol ''api.example.com'' \<and> \<not> Covers c ''api.example.com''"
  by code_simp

theorem bound_hosts_can_be_signed_witness:
  "let u = \<lparr>mu_Add = [demo_binding ''all'' ''*.eu.example.com'' []], mu_Replace = [], mu_Delete = []\<rparr>;
       v' = snd (Patch (Some demo_policy) \<lparr>mr_ExpectedRevision = None, mr_Credentials = None, mr_Bindings = Some u\<rparr> demo_vault)
   in map_of (v_bindings v') ''all'' = Some (demo_normal ''all'' ''*.eu.example.com'' [''/*'']) \<and>
      (\<exists>c. v_ca v' = Some c \<and> Covers c ''a.eu.example.com'')"
proof -
  let ?u = "\<lparr>mu_Add = [demo_binding ''all'' ''*.eu.example.com'' []], mu_Replace = [], mu_Delete = []\<rparr>"
  let ?req = "\<lparr>mr_ExpectedRevision = None, mr_Credentials = None, mr_Bindings = Some ?u\<rparr>"
  let ?p = "Patch (Some demo_policy) ?req demo_vault"
  have ok: "is_ok (fst ?p)" "map_of (v_bindings (snd ?p)) ''all'' = Some (demo_normal ''all'' ''*.eu.example.com'' [''/*''])" by code_simp+
  obtain st where p: "?p = (Inr st, snd ?p)" using ok(1) by (cases "fst ?p") (auto, metis prod.collapse)
  have h: "''*.eu.example.com'' \<in> set (m_Hosts (b_Match (demo_normal ''all'' ''*.eu.example.com'' [''/*''])))" by code_simp
  have ca: "v_ca demo_vault = Some \<lparr>ca_pem = ''CERT'', ca_hosts = [''.example.com''], ca_destroyed = False, ca_leaves = []\<rparr>" by code_simp
  have c: "host_covers ''*.eu.example.com'' ''a.eu.example.com''" "lowerHost ''a.eu.example.com'' = ''a.eu.example.com''" by code_simp+
  show ?thesis unfolding Let_def
    using ok(2) bound_hosts_can_be_signed [OF p demo_vault_reach ok(2) h _ c] ca by simp
qed

text \<open>Two writers that read revision 1: the first PATCH is taken, the second is told of revision 2.\<close>

theorem patch_all_or_nothing_witness:
  "let req = \<lparr>mr_ExpectedRevision = Some 1,
         mr_Credentials = Some \<lparr>mu_Add = [demo_credential ''second'' ''two''], mu_Replace = [], mu_Delete = []\<rparr>, mr_Bindings = None\<rparr>;
       v' = snd (Patch (Some demo_policy) req demo_vault)
   in is_ok (fst (Patch (Some demo_policy) req demo_vault)) \<and> v_revision v' = 2 \<and>
      Patch None (req\<lparr>mr_Credentials := None\<rparr>) v' = (Inl (Revision_error 1 2), v')"
proof -
  let ?req = "\<lparr>mr_ExpectedRevision = Some 1,
         mr_Credentials = Some \<lparr>mu_Add = [demo_credential ''second'' ''two''], mu_Replace = [], mu_Delete = []\<rparr>, mr_Bindings = None\<rparr>"
  let ?p = "Patch (Some demo_policy) ?req demo_vault"
  have ok: "is_ok (fst ?p)" "v_revision demo_vault = 1" by code_simp+
  obtain st where p: "?p = (Inr st, snd ?p)" using ok(1) by (cases "fst ?p") (auto, metis prod.collapse)
  have "v_revision (snd ?p) = 2 \<and> (\<forall>pol2 req2. mr_ExpectedRevision req2 = Some 1 \<longrightarrow>
      Patch pol2 req2 (snd ?p) = (Inl (Revision_error 1 2), snd ?p))"
    using patch_all_or_nothing [where pol = "Some demo_policy" and req = ?req and v = demo_vault] p ok(2) by (auto split: prod.splits sum.splits)
  then show ?thesis using ok(1) by (simp add: Let_def)
qed

end
