(* ===== verification/Vault_Effects.thy ===== *)
theory Vault_Effects
  imports Cred_Vault
begin

text \<open>
  What the vault does to the outside: which parts of a request a binding changes
  (\<^verbatim>\<open>internal/credvault/apply.go\<close>), and which authority a sandbox's vault signs with over the life of the
  registry (\<^verbatim>\<open>internal/credvault/vault.go\<close>).
\<close>

section \<open>What a binding changes of a request\<close>

definition header_names :: "auth \<Rightarrow> string list" where
  "header_names a = (if au_Type a = authBearer \<or> au_Type a = authBasic then [''Authorization'']
     else if au_Type a = authAPIKey then [au_Name a]
     else if au_Type a = authCustomHeaders then map he_Name (au_Headers a) else [])"

text \<open>Two requests that agree but for the named headers.\<close>

definition only_headers :: "string set \<Rightarrow> http_request \<Rightarrow> http_request \<Rightarrow> bool" where
  "only_headers ks r r' = (r'\<lparr>hr_Header := []\<rparr> = r\<lparr>hr_Header := []\<rparr> \<and> (\<forall>k. k \<notin> ks \<longrightarrow> map_of (hr_Header r') k = map_of (hr_Header r) k))"

lemma only_headers_refl: "only_headers ks r r"
  by (simp add: only_headers_def)

lemma only_headers_trans: "only_headers ks r r' \<Longrightarrow> only_headers ks r' r'' \<Longrightarrow> only_headers ks r r''"
  by (auto simp: only_headers_def)

lemma Header_Set_only: "CanonicalMIMEHeaderKey n \<in> ks \<Longrightarrow> only_headers ks r (Header_Set n x r)"
  by (auto simp: only_headers_def Header_Set_def AList.update_conv')

lemma set_header_only: "CanonicalMIMEHeaderKey n \<in> ks \<Longrightarrow> only_headers ks r (snd (set_header v n c form r))"
  by (auto simp: set_header_def Header_Set_only only_headers_refl split: sum.splits)

lemma each_only:
  assumes "\<And>x r. x \<in> set xs \<Longrightarrow> only_headers ks r (snd (f x r))"
  shows "only_headers ks r (snd (each f xs r))"
  using assms
proof (induction xs arbitrary: r)
  case Nil
  then show ?case by (simp add: only_headers_refl)
next
  case (Cons x xs)
  obtain c r' where f: "f x r = (c, r')" by fastforce
  have 1: "only_headers ks r r'" using Cons.prems [of x r] f by simp
  show ?case
  proof (cases c)
    case None
    have "only_headers ks r' (snd (each f xs r'))" using Cons by simp
    then show ?thesis using f None only_headers_trans [OF 1] by simp
  qed (simp add: f 1)
qed

lemma add_auth_only: "only_headers (CanonicalMIMEHeaderKey ` set (header_names a)) r (snd (add_auth v a r))"
proof -
  have "only_headers (CanonicalMIMEHeaderKey ` set (map he_Name hs)) r (snd (each (\<lambda>h. set_header v (he_Name h) (he_Credential h) (\<lambda>x. x)) hs r))" for hs
    by (rule each_only) (auto intro: set_header_only)
  then show ?thesis by (auto simp: add_auth_def header_names_def only_headers_refl intro!: set_header_only)
qed

lemma norm_headers_names: "norm_headers seen hs = Inr out \<Longrightarrow> h \<in> set out \<Longrightarrow> he_Name h \<in> range canonicalHeader \<and> checkHeaderName (he_Name h) = Inr ()"
  by (induction hs arbitrary: seen out) (auto simp: Let_def bind_res_eq_Inr split: if_splits)

lemma header_names_subs [simp]: "header_names (a\<lparr>au_Substitutions := s\<rparr>) = header_names a"
  by (simp add: header_names_def)

lemma header_names_normal:
  assumes "normalizeAuth a0 = Inr a" "n \<in> set (header_names a)"
  shows "CanonicalMIMEHeaderKey n = n \<and> \<not> reservedHeaderName n"
proof -
  obtain c subs where c: "norm_auth_type (a0\<lparr>au_Type := TrimSpace (au_Type a0)\<rparr>) = Inr c" "a = c\<lparr>au_Substitutions := subs\<rparr>"
    using assms(1) by (auto simp: normalizeAuth_def bind_res_eq_Inr)
  have n: "n \<in> set (header_names c)" using assms(2) by (simp add: c(2))
  consider "n = ''Authorization''" | m where "n = canonicalHeader m" "checkHeaderName n = Inr ()"
  proof -
    have t: "au_Type c = TrimSpace (au_Type a0)" using norm_auth_type_types [OF c(1)] by simp
    assume auth: "n = ''Authorization'' \<Longrightarrow> thesis" and other: "\<And>m. n = canonicalHeader m \<Longrightarrow> checkHeaderName n = Inr () \<Longrightarrow> thesis"
    show thesis
    proof (cases "au_Type c = authBearer \<or> au_Type c = authBasic")
      case True
      then show ?thesis using n auth by (simp add: header_names_def)
    next
      case nb: False
      show ?thesis
      proof (cases "au_Type c = authAPIKey")
        case True
        then have "n = au_Name c" using n nb by (simp add: header_names_def)
        moreover have "au_Name c = canonicalHeader (TrimSpace (au_Name a0)) \<and> checkHeaderName (au_Name c) = Inr ()"
          using c(1) True nb t by (auto simp: norm_auth_type_def Let_def split: if_splits)
        ultimately show ?thesis using other by metis
      next
        case na: False
        then have ch: "au_Type c = authCustomHeaders" using n nb by (auto simp: header_names_def split: if_splits)
        then obtain hs where "norm_headers [] (au_Headers a0) = Inr hs" "au_Headers c = hs"
          using c(1) nb na t by (auto simp: norm_auth_type_def Let_def bind_res_eq_Inr split: if_splits)
        moreover obtain h where "h \<in> set (au_Headers c)" "n = he_Name h" using n nb na ch by (auto simp: header_names_def)
        ultimately show ?thesis using norm_headers_names other by blast
      qed
    qed
  qed
  then show ?thesis
  proof cases
    case 1
    then show ?thesis by simp code_simp
  next
    case (2 m)
    then show ?thesis by (simp add: canonicalHeader_MIME CanonicalMIMEHeaderKey_idem checkHeaderName_def)
  qed
qed

text \<open>
  (C16) A binding that passed validation and has no substitutions changes nothing of a request but the headers it
  names: not the method, the destination, the path, the query or the body, and no header that frames
  the request, the ones \<open>reservedHeaderName\<close> lists. A bearer binding leaves exactly one value of
  \<open>Authorization\<close>, its own, whatever the agent had put there.
\<close>

theorem binding_sets_only_its_headers:
  assumes "normalizeBinding b0 = Inr b" "au_Substitutions (b_Auth b) = []"
  shows "only_headers (set (header_names (b_Auth b))) r (snd (applyAuth v b r)) \<and>
    (\<forall>k. reservedHeaderName k \<longrightarrow> map_of (hr_Header (snd (applyAuth v b r))) k = map_of (hr_Header r) k) \<and>
    (au_Type (b_Auth b) = authBearer \<longrightarrow> fst (applyAuth v b r) = None \<longrightarrow>
       (\<exists>c. map_of (v_credentials v) (au_Credential (b_Auth b)) = Some c \<and>
         map_of (hr_Header (snd (applyAuth v b r))) ''Authorization'' = Some [''Bearer '' @ rec_Source c]))"
proof -
  note norm = header_names_normal [OF normalizeBinding_out(2) [OF assms(1)]]
  have eq: "snd (applyAuth v b r) = snd (add_auth v (b_Auth b) r)" "fst (applyAuth v b r) = fst (add_auth v (b_Auth b) r)"
    by (simp_all add: applyAuth_def assms(2) substitute_def split: prod.splits option.splits)
  have "CanonicalMIMEHeaderKey ` set (header_names (b_Auth b)) = set (header_names (b_Auth b))"
    using norm by force
  then have only: "only_headers (set (header_names (b_Auth b))) r (snd (applyAuth v b r))"
    using add_auth_only [of "b_Auth b" r v] eq by simp
  moreover have "map_of (hr_Header (snd (applyAuth v b r))) k = map_of (hr_Header r) k" if "reservedHeaderName k" for k
    using only norm that unfolding only_headers_def by blast
  moreover have "\<exists>c. map_of (v_credentials v) (au_Credential (b_Auth b)) = Some c \<and>
      map_of (hr_Header (snd (applyAuth v b r))) ''Authorization'' = Some [''Bearer '' @ rec_Source c]"
    if "au_Type (b_Auth b) = authBearer" "fst (applyAuth v b r) = None"
  proof -
    have can: "CanonicalMIMEHeaderKey ''Authorization'' = ''Authorization''" by code_simp
    show ?thesis using that unfolding eq
      by (auto simp: add_auth_def set_header_def reveal_def Header_Set_def can AList.update_conv' split: option.splits)
  qed
  ultimately show ?thesis by blast
qed

theorem binding_sets_only_its_headers_witness:
  "let b = demo_normal ''api'' ''api.example.com'' [''/*'']; r = demo_request\<lparr>hr_Header := [(''Host'', [''x'']), (''Authorization'', [''mine''])]\<rparr> in
   only_headers {''Authorization''} r (snd (applyAuth demo_vault b r)) \<and>
   map_of (hr_Header (snd (applyAuth demo_vault b r))) ''Host'' = Some [''x'']"
proof -
  let ?b = "demo_normal ''api'' ''api.example.com'' [''/*'']" and ?r = "demo_request\<lparr>hr_Header := [(''Host'', [''x'']), (''Authorization'', [''mine''])]\<rparr>"
  have n: "normalizeBinding (demo_binding ''api'' ''api.example.com'' []) = Inr ?b" "au_Substitutions (b_Auth ?b) = []"
    "header_names (b_Auth ?b) = [''Authorization'']" "reservedHeaderName ''Host''" "map_of (hr_Header ?r) ''Host'' = Some [''x'']" by code_simp+
  from binding_sets_only_its_headers [OF n(1,2), of ?r demo_vault] n(3-5) show ?thesis unfolding Let_def by simp
qed

text \<open>
  \<open>splitHostPort\<close> splits a port off a name and never off a bracketed address: after the last colon there is
  no \<open>]:\<close> left to find, so every host that starts with a bracket is taken to have no port.
\<close>

theorem bracketed_host_keeps_port:
  "splitHostPort ''api.example.com:443'' = Some (''api.example.com'', ''443'') \<and>
   splitHostPort ''[::1]:8080'' = None \<and> canonicalHost ''[::1]:8080'' = ''[::1]:8080''"
  by code_simp

section \<open>One authority per sandbox\<close>










end
