(* ===== verification/Execd_Rekey.thy ===== *)
theory Execd_Rekey
  imports Spec_Model
begin

text \<open>
  Who may talk to a sandbox's \<open>execd\<close>: the seal, re-key and claim calls of
  \<^verbatim>\<open>internal/execd/rekey.go\<close> and \<^verbatim>\<open>claim.go\<close>, the guard in front of every client endpoint and
  \<open>/ping\<close> of \<^verbatim>\<open>server.go\<close>. A snapshot captures the process, so a clone starts in the state its
  parent was sealed in: a statement on the states that follow a seal is one on its clones.
  \<^item> The process environment is a partial map; a Go map in a request is an association list in the
    order a \<open>range\<close> over it takes, and a \<open>[]byte\<close> that may be nil and is only compared is a string.
  \<^item> A context is a number, and the contexts that have been cancelled are kept in a list.
  \<^item> The digest of a re-key (SHA-256 of its JSON) is an argument: nothing here needs more of it than
    that it is a function. What the JSON decoder makes of a body is part of the request.
  \<^item> A claim runs in two steps, since it passes the guard before it takes the lock: an accepted one
    waits in \<open>x_claims\<close>, and any call may come in between.
\<close>

section \<open>State and requests\<close>

type_synonym envs = "(string \<times> string) list"

definition EnvAccessToken :: string where "EnvAccessToken = ''EXECD_ACCESS_TOKEN''"
definition EnvGraceShutdown :: string where "EnvGraceShutdown = ''EXECD_API_GRACE_SHUTDOWN''"
definition EnvControlSecret :: string where "EnvControlSecret = ''EXECD_CONTROL_SECRET''"

definition hiddenEnv :: "string \<Rightarrow> bool" where
  "hiddenEnv k \<longleftrightarrow> k \<in> set [EnvAccessToken, EnvGraceShutdown, EnvControlSecret]"

definition MinSecretLen :: nat where "MinSecretLen = 32"

record rekey_request =
  rk_Generation :: "64 word"
  rk_AccessToken :: string
  rk_ControlSecret :: string
  rk_Envs :: "envs option"

record claimRequest =
  cl_AccessToken :: string
  cl_Envs :: envs

datatype 'a body = Unreadable | Malformed | Decoded 'a

record ctl =
  c_secret :: string
  c_vsockOnly :: bool
  c_gen :: "64 word"
  c_prev :: string
  c_last :: "string option"
  c_identityEnv :: "string list"

record authState =
  a_token :: string
  a_ctx :: nat

record execd =
  x_auth :: authState
  x_cancelled :: "nat list"
  x_claimed :: bool
  x_sealed :: bool
  x_ctl :: ctl
  x_env :: "string \<rightharpoonup> string"
  x_shutdownGrace :: int
  x_codeUp :: bool
  x_claims :: "(claimRequest \<times> int option) list"

text \<open>An answer is a status with an error code; \<open>Handled c\<close> is a request passed on to its handler
  under context \<open>c\<close>, and \<open>Claim_waits\<close> a claim on its way to the lock.\<close>

datatype answer = Answer nat string | Handled nat | Claim_waits

abbreviation "NoContent \<equiv> Answer 204 ''''"
abbreviation "Sealed \<equiv> Answer 503 ''SEALED''"
abbreviation "Unauthorized \<equiv> Answer 401 ''UNAUTHORIZED''"
abbreviation "InvalidRequest \<equiv> Answer 400 ''INVALID_REQUEST_BODY''"
abbreviation "Stale \<equiv> Answer 409 ''STALE_GENERATION''"

text \<open>\<open>New\<close>: the part of it that concerns these calls.\<close>

definition execd_New :: "string \<Rightarrow> string \<Rightarrow> bool \<Rightarrow> (string \<rightharpoonup> string) \<Rightarrow> int \<Rightarrow> execd" where
  "execd_New tok secret vsock env grace = \<lparr>x_auth = \<lparr>a_token = tok, a_ctx = 0\<rparr>, x_cancelled = [],
     x_claimed = (tok = []), x_sealed = False,
     x_ctl = \<lparr>c_secret = secret, c_vsockOnly = vsock, c_gen = 0, c_prev = [], c_last = None,
       c_identityEnv = []\<rparr>,
     x_env = env, x_shutdownGrace = grace, x_codeUp = False, x_claims = []\<rparr>"

section \<open>The identity environment\<close>

text \<open>\<open>os.Setenv\<close> on Unix refuses a NUL byte in the key and in the value.\<close>

definition Setenv :: "string \<Rightarrow> string \<Rightarrow> (string \<rightharpoonup> string) \<Rightarrow> (string \<rightharpoonup> string) option" where
  "Setenv k v env =
     (if k = [] \<or> ContainsAny k [CHR ''='', CHR 0x00] \<or> CHR 0x00 \<in> set v then None
      else Some (env(k \<mapsto> v)))"

definition checkIdentityEnvs :: "envs \<Rightarrow> (string, int option) res" where
  "checkIdentityEnvs envs =
     bind_res (case map_of envs EnvGraceShutdown of
         None \<Rightarrow> Inr None
       | Some v \<Rightarrow> (case ParseDuration v of
            None \<Rightarrow> Inl EnvGraceShutdown
          | Some d \<Rightarrow> if d < 0 then Inl EnvGraceShutdown else Inr (Some d)))
       (\<lambda>grace. then_res (check_all (\<lambda>(k, v). guard_res (k \<noteq> EnvGraceShutdown \<and>
            (k = [] \<or> ContainsAny k [CHR ''='', CHR 0x00] \<or> hiddenEnv k)) k) envs)
          (Inr grace))"

abbreviation set_identity :: "string list \<Rightarrow> execd \<Rightarrow> execd" where
  "set_identity ks s \<equiv> s\<lparr>x_ctl := (x_ctl s)\<lparr>c_identityEnv := ks\<rparr>\<rparr>"

definition drop_env :: "envs \<Rightarrow> string \<Rightarrow> execd \<Rightarrow> execd" where
  "drop_env envs k s =
     (if k \<in> fst ` set envs then s
      else set_identity (removeAll k (c_identityEnv (x_ctl s))) (s\<lparr>x_env := (x_env s)(k := None)\<rparr>))"

fun set_envs :: "envs \<Rightarrow> execd \<Rightarrow> bool \<times> execd" where
  "set_envs [] s = (True, s)"
| "set_envs ((k, v) # rest) s =
     (if k = EnvGraceShutdown then set_envs rest s
      else (case Setenv k v (x_env s) of
          None \<Rightarrow> (False, s)
        | Some env \<Rightarrow> set_envs rest
            (set_identity (List.insert k (c_identityEnv (x_ctl s))) (s\<lparr>x_env := env\<rparr>))))"

definition applyIdentityEnvs :: "envs \<Rightarrow> int option \<Rightarrow> bool \<Rightarrow> execd \<Rightarrow> bool \<times> execd" where
  "applyIdentityEnvs envs grace replace s =
     (let s1 = (case grace of None \<Rightarrow> s | Some d \<Rightarrow> s\<lparr>x_shutdownGrace := d\<rparr>);
          s2 = (if replace then fold (drop_env envs) (c_identityEnv (x_ctl s1)) s1 else s1)
      in set_envs envs s2)"

section \<open>Seal, re-key and claim\<close>

definition setToken :: "string \<Rightarrow> execd \<Rightarrow> execd" where
  "setToken tok s =
     (if a_token (x_auth s) = tok then s
      else s\<lparr>x_auth := \<lparr>a_token = tok, a_ctx = Suc (a_ctx (x_auth s))\<rparr>,
             x_cancelled := a_ctx (x_auth s) # x_cancelled s\<rparr>)"

definition authorizeControl :: "bool \<Rightarrow> string \<Rightarrow> execd \<Rightarrow> (answer, string) res" where
  "authorizeControl vsock hdr s =
     (if c_secret (x_ctl s) = [] then Inl (Answer 403 ''CONTROL_DISABLED'')
      else if c_vsockOnly (x_ctl s) \<and> \<not> vsock then Inl (Answer 403 ''CONTROL_TRANSPORT'')
      else Inr hdr)"

definition secret_matches :: "string \<Rightarrow> string \<Rightarrow> bool" where
  "secret_matches presented sec \<longleftrightarrow> presented \<noteq> [] \<and> sec \<noteq> [] \<and> presented = sec"

definition seal :: "bool \<Rightarrow> string \<Rightarrow> execd \<Rightarrow> answer \<times> execd" where
  "seal vsock hdr s = (case authorizeControl vsock hdr s of
       Inl a \<Rightarrow> (a, s)
     | Inr presented \<Rightarrow>
         if \<not> secret_matches presented (c_secret (x_ctl s)) then (Unauthorized, s)
         else (NoContent, s\<lparr>x_sealed := True, x_ctl := (x_ctl s)\<lparr>c_prev := [], c_last := None\<rparr>\<rparr>))"

text \<open>The last part of \<open>rekey\<close>: the new secret, the generation, the token, then the unsealing.\<close>

definition install :: "rekey_request \<Rightarrow> string \<Rightarrow> execd \<Rightarrow> execd" where
  "install req d s =
     (let s1 = s\<lparr>x_ctl := (x_ctl s)\<lparr>c_prev := c_secret (x_ctl s), c_secret := rk_ControlSecret req,
            c_gen := rk_Generation req, c_last := Some d\<rparr>\<rparr>
      in (setToken (rk_AccessToken req) s1)\<lparr>x_sealed := False\<rparr>)"

definition rekey_newer :: "rekey_request \<Rightarrow> string \<Rightarrow> execd \<Rightarrow> answer \<times> execd" where
  "rekey_newer req d s =
     (if rk_AccessToken req = [] then (InvalidRequest, s)
      else if length (rk_ControlSecret req) < MinSecretLen then (InvalidRequest, s)
      else if rk_ControlSecret req = c_secret (x_ctl s) then (InvalidRequest, s)
      else (case checkIdentityEnvs (case rk_Envs req of None \<Rightarrow> [] | Some envs \<Rightarrow> envs) of
          Inl _ \<Rightarrow> (InvalidRequest, s)
        | Inr grace \<Rightarrow>
            (case (case rk_Envs req of None \<Rightarrow> (True, s)
                 | Some envs \<Rightarrow> applyIdentityEnvs envs grace True s) of
                (False, s1) \<Rightarrow> (InvalidRequest, s1)
              | (True, s1) \<Rightarrow> (NoContent, install req d s1))))"

definition rekey :: "(rekey_request \<Rightarrow> string) \<Rightarrow> bool \<Rightarrow> string \<Rightarrow> rekey_request body \<Rightarrow> execd \<Rightarrow> answer \<times> execd" where
  "rekey digest vsock hdr body s = (case authorizeControl vsock hdr s of
       Inl a \<Rightarrow> (a, s)
     | Inr presented \<Rightarrow> (case body of
           Unreadable \<Rightarrow> (InvalidRequest, s)
         | Malformed \<Rightarrow> (InvalidRequest, s)
         | Decoded req \<Rightarrow>
             (let d = digest req;
                  isLast = (rk_Generation req = c_gen (x_ctl s) \<and> c_last (x_ctl s) = Some d)
              in if secret_matches presented (c_secret (x_ctl s)) then
                   (if rk_Generation req \<le> c_gen (x_ctl s)
                    then (if isLast then (NoContent, s) else (Stale, s))
                    else rekey_newer req d s)
                 else if secret_matches presented (c_prev (x_ctl s)) \<and> isLast then (NoContent, s)
                 else (Unauthorized, s))))"

text \<open>\<open>claim\<close> up to the lock, and under it.\<close>

definition claim_check :: "claimRequest body \<Rightarrow> (answer, claimRequest \<times> int option) res" where
  "claim_check body = (case body of
       Unreadable \<Rightarrow> Inl InvalidRequest
     | Malformed \<Rightarrow> Inl InvalidRequest
     | Decoded req \<Rightarrow>
         if cl_AccessToken req = [] then Inl InvalidRequest
         else (case checkIdentityEnvs (cl_Envs req) of
             Inl _ \<Rightarrow> Inl InvalidRequest
           | Inr grace \<Rightarrow> Inr (req, grace)))"

definition claim_locked :: "claimRequest \<times> int option \<Rightarrow> execd \<Rightarrow> answer \<times> execd" where
  "claim_locked = (\<lambda>(req, grace) s.
     if x_claimed s then (Answer 409 ''ALREADY_CLAIMED'', s)
     else (case applyIdentityEnvs (cl_Envs req) grace False (s\<lparr>x_claimed := True\<rparr>) of
         (False, s1) \<Rightarrow> (InvalidRequest, s1)
       | (True, s1) \<Rightarrow> (NoContent, setToken (cl_AccessToken req) s1)))"

definition claim :: "claimRequest body \<Rightarrow> execd \<Rightarrow> answer \<times> execd" where
  "claim body s = (case claim_check body of
       Inl a \<Rightarrow> (a, s)
     | Inr p \<Rightarrow> claim_locked p s)"

section \<open>The guard, the probe and the server\<close>

definition guard :: "string \<Rightarrow> (execd \<Rightarrow> answer \<times> execd) \<Rightarrow> execd \<Rightarrow> answer \<times> execd" where
  "guard got h s =
     (if x_sealed s then (Sealed, s)
      else if a_token (x_auth s) \<noteq> [] \<and> (got = [] \<or> got \<noteq> a_token (x_auth s)) then (Unauthorized, s)
      else h s)"

text \<open>What \<open>jupyter.Available\<close> may report.\<close>

datatype jupyter = Jupyter_up | Not_configured | Jupyter_down

definition ping :: "bool \<Rightarrow> jupyter \<Rightarrow> execd \<Rightarrow> answer \<times> execd" where
  "ping ready_code avail s =
     (if x_sealed s then (Sealed, s)
      else if ready_code \<and> \<not> x_codeUp s then
        (case avail of
            Jupyter_up \<Rightarrow> (Answer 200 '''', s\<lparr>x_codeUp := True\<rparr>)
          | Not_configured \<Rightarrow> (Answer 200 '''', s)
          | Jupyter_down \<Rightarrow> (Answer 503 ''JUPYTER_NOT_READY'', s))
      else (Answer 200 '''', s))"

text \<open>The calls on a server. \<open>Client\<close> is any guarded endpoint but the claim; its handler does not
  touch this state. \<open>Claim_runs i\<close> is the \<open>i\<close>-th waiting claim getting the lock.\<close>

datatype call = Ping bool jupyter
  | Seal bool string
  | Rekey bool string "rekey_request body"
  | Client string
  | Claim string "claimRequest body"
  | Claim_runs nat

fun serve :: "(rekey_request \<Rightarrow> string) \<Rightarrow> call \<Rightarrow> execd \<Rightarrow> answer \<times> execd" where
  "serve digest (Ping rdy avail) s = ping rdy avail s"
| "serve digest (Seal vsock hdr) s = seal vsock hdr s"
| "serve digest (Rekey vsock hdr body) s = rekey digest vsock hdr body s"
| "serve digest (Client tok) s = guard tok (\<lambda>s. (Handled (a_ctx (x_auth s)), s)) s"
| "serve digest (Claim tok body) s = guard tok (\<lambda>s. case claim_check body of
       Inl a \<Rightarrow> (a, s)
     | Inr p \<Rightarrow> (Claim_waits, s\<lparr>x_claims := x_claims s @ [p]\<rparr>)) s"
| "serve digest (Claim_runs i) s =
     (if i < length (x_claims s)
      then claim_locked (x_claims s ! i) (s\<lparr>x_claims := take i (x_claims s) @ drop (Suc i) (x_claims s)\<rparr>)
      else (Claim_waits, s))"

fun serve_all :: "(rekey_request \<Rightarrow> string) \<Rightarrow> call list \<Rightarrow> execd \<Rightarrow> answer list \<times> execd" where
  "serve_all digest [] s = ([], s)"
| "serve_all digest (c # cs) s =
     (let (a, s1) = serve digest c s; (as, s2) = serve_all digest cs s1 in (a # as, s2))"

definition started :: "execd \<Rightarrow> bool" where
  "started s \<longleftrightarrow> (\<exists>tok secret vsock env grace. s = execd_New tok secret vsock env grace)"

definition served :: "(rekey_request \<Rightarrow> string) \<Rightarrow> execd \<Rightarrow> execd \<Rightarrow> bool" where
  "served digest s t \<longleftrightarrow> (\<exists>c. t = snd (serve digest c s))"

section \<open>What applying an environment leaves alone\<close>

text \<open>Everything but the environment, the grace and the keys remembered.\<close>

definition core :: "execd \<Rightarrow> authState \<times> nat list \<times> bool \<times> bool \<times> (claimRequest \<times> int option) list \<times>
    string \<times> bool \<times> 64 word \<times> string \<times> string option" where
  "core s = (x_auth s, x_cancelled s, x_claimed s, x_sealed s, x_claims s,
     c_secret (x_ctl s), c_vsockOnly (x_ctl s), c_gen (x_ctl s), c_prev (x_ctl s), c_last (x_ctl s))"

lemma core_eqD:
  assumes "core t = core s"
  shows "x_auth t = x_auth s" "x_cancelled t = x_cancelled s" "x_claimed t = x_claimed s"
    "x_sealed t = x_sealed s" "x_claims t = x_claims s" "c_secret (x_ctl t) = c_secret (x_ctl s)"
    "c_vsockOnly (x_ctl t) = c_vsockOnly (x_ctl s)" "c_gen (x_ctl t) = c_gen (x_ctl s)"
    "c_prev (x_ctl t) = c_prev (x_ctl s)" "c_last (x_ctl t) = c_last (x_ctl s)"
  using assms by (simp_all add: core_def)

lemma core_drop_env [simp]: "core (drop_env envs k s) = core s"
  by (simp add: core_def drop_env_def)

lemma core_fold_drop [simp]: "core (fold (drop_env envs) ks s) = core s"
  by (induction ks arbitrary: s) simp_all

lemma core_set_envs [simp]: "core (snd (set_envs envs s)) = core s"
  by (induction envs s rule: set_envs.induct) (simp_all add: core_def split: option.split)

lemma core_grace [simp]: "core (s\<lparr>x_shutdownGrace := d\<rparr>) = core s" "core (s\<lparr>x_codeUp := u\<rparr>) = core s"
  by (simp_all add: core_def)

lemma core_applyIdentityEnvs [simp]: "core (snd (applyIdentityEnvs envs grace replace s)) = core s"
  by (simp add: applyIdentityEnvs_def Let_def split: option.split)

lemma applyIdentityEnvs_core: "applyIdentityEnvs envs grace replace s = (b, t) \<Longrightarrow> core t = core s"
  by (metis core_applyIdentityEnvs snd_conv)

section \<open>The environment after an identity call\<close>

lemma drop_env_simps:
  "x_env (drop_env envs k s) = (if k \<in> fst ` set envs then x_env s else (x_env s)(k := None))"
  "set (c_identityEnv (x_ctl (drop_env envs k s))) =
     (if k \<in> fst ` set envs then set (c_identityEnv (x_ctl s)) else set (c_identityEnv (x_ctl s)) - {k})"
  by (auto simp: drop_env_def)

lemma fold_drop_env:
  "x_env (fold (drop_env envs) ks s) k = (if k \<in> set ks \<and> k \<notin> fst ` set envs then None else x_env s k)"
  by (induction ks arbitrary: s) (auto simp: drop_env_simps)

lemma fold_drop_identity:
  "set (c_identityEnv (x_ctl (fold (drop_env envs) ks s))) =
     set (c_identityEnv (x_ctl s)) - (set ks - fst ` set envs)"
  by (induction ks arbitrary: s) (auto simp: drop_env_simps)

lemma Setenv_Some: "Setenv k v env = Some env' \<Longrightarrow> env' = env(k \<mapsto> v)"
  by (simp add: Setenv_def split: if_splits)

lemma set_envs_Cons:
  assumes "set_envs ((k, v) # rest) s = (True, t)" "k \<noteq> EnvGraceShutdown"
  shows "set_envs rest (set_identity (List.insert k (c_identityEnv (x_ctl s))) (s\<lparr>x_env := (x_env s)(k \<mapsto> v)\<rparr>)) = (True, t)"
  using assms by (auto split: option.splits dest: Setenv_Some)

lemma set_envs_ok:
  assumes "set_envs envs s = (True, t)" "distinct (map fst envs)"
  shows "x_env t k = (if k \<noteq> EnvGraceShutdown \<and> k \<in> fst ` set envs then map_of envs k else x_env s k)"
    and "set (c_identityEnv (x_ctl t)) =
      set (c_identityEnv (x_ctl s)) \<union> (fst ` set envs - {EnvGraceShutdown})"
proof -
  have "x_env t k = (if k \<noteq> EnvGraceShutdown \<and> k \<in> fst ` set envs then map_of envs k else x_env s k) \<and>
    set (c_identityEnv (x_ctl t)) = set (c_identityEnv (x_ctl s)) \<union> (fst ` set envs - {EnvGraceShutdown})"
    using assms
  proof (induction envs arbitrary: s)
    case Nil
    then show ?case by simp
  next
    case (Cons p rest)
    obtain k' v where p: "p = (k', v)" by (cases p)
    show ?case
    proof (cases "k' = EnvGraceShutdown")
      case True
      have "set_envs rest s = (True, t)" using Cons.prems(1) p True by simp
      with Cons.IH [OF this] Cons.prems(2) p True show ?thesis by auto
    next
      case False
      have notin: "k' \<notin> fst ` set rest" using Cons.prems(2) p by simp
      with Cons.IH [OF set_envs_Cons [OF Cons.prems(1) [unfolded p] False]] Cons.prems(2) p False
      show ?thesis by auto
    qed
  qed
  then show "x_env t k = (if k \<noteq> EnvGraceShutdown \<and> k \<in> fst ` set envs then map_of envs k else x_env s k)"
    and "set (c_identityEnv (x_ctl t)) =
      set (c_identityEnv (x_ctl s)) \<union> (fst ` set envs - {EnvGraceShutdown})"
    by blast+
qed

text \<open>The values a process may be given are exactly those without a NUL byte.\<close>

lemma set_envs_succeeds:
  "fst (set_envs envs s) \<longleftrightarrow> (\<forall>(k, v) \<in> set envs. k \<noteq> EnvGraceShutdown \<longrightarrow>
     k \<noteq> [] \<and> \<not> ContainsAny k [CHR ''='', CHR 0x00] \<and> CHR 0x00 \<notin> set v)"
  by (induction envs s rule: set_envs.induct) (auto simp: Setenv_def split: option.splits)

lemma set_envs_identity:
  "set (c_identityEnv (x_ctl (snd (set_envs envs s)))) \<subseteq>
     set (c_identityEnv (x_ctl s)) \<union> (fst ` set envs - {EnvGraceShutdown})"
  by (induction envs s rule: set_envs.induct) (auto simp: Setenv_def split: option.splits)

lemma applyIdentityEnvs_ok:
  assumes "applyIdentityEnvs envs grace replace s = (True, t)" "distinct (map fst envs)"
  shows "x_env t k =
      (if k \<noteq> EnvGraceShutdown \<and> k \<in> fst ` set envs then map_of envs k
       else if replace \<and> k \<in> set (c_identityEnv (x_ctl s)) \<and> k \<notin> fst ` set envs then None
       else x_env s k)"
    and "set (c_identityEnv (x_ctl t)) =
      (if replace then set (c_identityEnv (x_ctl s)) \<inter> fst ` set envs else set (c_identityEnv (x_ctl s)))
        \<union> (fst ` set envs - {EnvGraceShutdown})"
  using assms
  by (auto simp: applyIdentityEnvs_def Let_def set_envs_ok fold_drop_env fold_drop_identity
      split: option.splits if_splits)

lemma applyIdentityEnvs_identity:
  "set (c_identityEnv (x_ctl (snd (applyIdentityEnvs envs grace replace s)))) \<subseteq>
     set (c_identityEnv (x_ctl s)) \<union> (fst ` set envs - {EnvGraceShutdown})"
proof -
  let ?s1 = "case grace of None \<Rightarrow> s | Some d \<Rightarrow> s\<lparr>x_shutdownGrace := d\<rparr>"
  have s1: "c_identityEnv (x_ctl ?s1) = c_identityEnv (x_ctl s)"
    by (simp split: option.split)
  show ?thesis
    using set_envs_identity [of envs "if replace then fold (drop_env envs) (c_identityEnv (x_ctl ?s1)) ?s1 else ?s1"]
      fold_drop_identity [of envs "c_identityEnv (x_ctl ?s1)" ?s1] s1
    by (auto simp: applyIdentityEnvs_def Let_def split: if_splits)
qed

lemma checkIdentityEnvs_ok:
  assumes "checkIdentityEnvs envs = Inr grace" "k \<in> fst ` set envs" "k \<noteq> EnvGraceShutdown"
  shows "k \<noteq> [] \<and> \<not> ContainsAny k [CHR ''='', CHR 0x00] \<and> \<not> hiddenEnv k"
proof -
  obtain v where "(k, v) \<in> set envs" using assms(2) by auto
  with assms(1) have "\<not> (k \<noteq> EnvGraceShutdown \<and> (k = [] \<or> ContainsAny k [CHR ''='', CHR 0x00] \<or> hiddenEnv k))"
    by (auto simp: checkIdentityEnvs_def bind_res_eq_Inr simp del: not_None_eq)
  with assms(3) show ?thesis by simp
qed

lemma checkIdentityEnvs_grace: "checkIdentityEnvs envs = Inr (Some d) \<Longrightarrow> 0 \<le> d"
  by (auto simp: checkIdentityEnvs_def bind_res_eq_Inr split: option.splits if_splits)

lemma checkIdentityEnvs_empty [simp]: "checkIdentityEnvs [] = Inr None"
  by (simp add: checkIdentityEnvs_def)

section \<open>The branches of a re-key\<close>

lemma authorizeControl_cases:
  assumes "authorizeControl vsock hdr s = r"
  obtains a where "r = Inl a" "a \<noteq> NoContent"
  | "r = Inr hdr" "c_secret (x_ctl s) \<noteq> []"
  using assms by (auto simp: authorizeControl_def split: if_splits)

lemma install_simps [simp]:
  "a_token (x_auth (install req d s)) = rk_AccessToken req"
  "x_sealed (install req d s) = False"
  "c_secret (x_ctl (install req d s)) = rk_ControlSecret req"
  "c_prev (x_ctl (install req d s)) = c_secret (x_ctl s)"
  "c_gen (x_ctl (install req d s)) = rk_Generation req"
  "c_last (x_ctl (install req d s)) = Some d"
  "c_vsockOnly (x_ctl (install req d s)) = c_vsockOnly (x_ctl s)"
  "c_identityEnv (x_ctl (install req d s)) = c_identityEnv (x_ctl s)"
  "x_env (install req d s) = x_env s" "x_claims (install req d s) = x_claims s"
  "x_claimed (install req d s) = x_claimed s" "x_shutdownGrace (install req d s) = x_shutdownGrace s"
  by (simp_all add: install_def Let_def setToken_def)


text \<open>A newer re-key is installed whole, or leaves everything but the environment as it was.\<close>

lemma rekey_newer_cases:
  assumes "rekey_newer req d s = (a, t)"
  obtains (refused) "a = InvalidRequest" "core t = core s"
  | (applied) s1 where "a = NoContent" "t = install req d s1" "core s1 = core s"
      "rk_AccessToken req \<noteq> []" "MinSecretLen \<le> length (rk_ControlSecret req)"
      "rk_ControlSecret req \<noteq> c_secret (x_ctl s)"
  using assms
  by (auto simp: rekey_newer_def dest: applyIdentityEnvs_core
      split: if_splits sum.splits option.splits prod.splits bool.splits)

lemma rekey_cases:
  assumes "rekey digest vsock hdr body s = (a, t)"
  obtains (refused) "a \<noteq> NoContent" "core t = core s"
  | (retry) req where "a = NoContent" "t = s" "body = Decoded req" "rk_Generation req = c_gen (x_ctl s)"
      "c_last (x_ctl s) = Some (digest req)"
  | (applied) req s1 where "a = NoContent" "t = install req (digest req) s1" "core s1 = core s" "body = Decoded req"
      "hdr = c_secret (x_ctl s)" "c_gen (x_ctl s) < rk_Generation req" "rk_AccessToken req \<noteq> []"
      "MinSecretLen \<le> length (rk_ControlSecret req)" "rk_ControlSecret req \<noteq> c_secret (x_ctl s)"
      "c_secret (x_ctl s) \<noteq> []"
  using assms
  apply (cases body)
    apply (auto simp: rekey_def authorizeControl_def intro: refused split: if_splits) [2]
  apply (auto simp: rekey_def authorizeControl_def Let_def secret_matches_def not_le
      intro: refused retry split: if_splits elim!: rekey_newer_cases)
  done

section \<open>The invariant of a server\<close>

text \<open>
  A sealed server has a control secret and remembers no re-key it would take a retry of; a server
  with no token cannot be claimed; a waiting claim brings a token; the current context is not
  cancelled; and no setting of \<open>execd\<close> itself is ever among the keys that calls have set.
\<close>

definition auth_inv :: "execd \<Rightarrow> bool" where
  "auth_inv s \<longleftrightarrow>
     (x_sealed s \<longrightarrow> c_secret (x_ctl s) \<noteq> [] \<and> c_prev (x_ctl s) = [] \<and> c_last (x_ctl s) = None) \<and>
     (a_token (x_auth s) = [] \<longrightarrow> x_claimed s) \<and>
     (\<forall>p \<in> set (x_claims s). cl_AccessToken (fst p) \<noteq> [] \<and> checkIdentityEnvs (cl_Envs (fst p)) = Inr (snd p)) \<and>
     (\<forall>c \<in> set (x_cancelled s). c < a_ctx (x_auth s))"

definition keys_inv :: "execd \<Rightarrow> bool" where
  "keys_inv s \<longleftrightarrow> (\<forall>k \<in> set (c_identityEnv (x_ctl s)). \<not> hiddenEnv k)"

definition execd_inv :: "execd \<Rightarrow> bool" where
  "execd_inv s \<longleftrightarrow> auth_inv s \<and> keys_inv s"

lemmas execd_inv_defs = execd_inv_def auth_inv_def keys_inv_def

lemma auth_inv_core: "core t = core s \<Longrightarrow> auth_inv t \<longleftrightarrow> auth_inv s"
  by (simp add: auth_inv_def core_def)

lemma keys_inv_apply:
  assumes "keys_inv s" "checkIdentityEnvs envs = Inr g"
  shows "keys_inv (snd (applyIdentityEnvs envs grace replace s))"
proof -
  have "\<not> hiddenEnv k" if "k \<in> fst ` set envs - {EnvGraceShutdown}" for k
    using checkIdentityEnvs_ok [OF assms(2)] that by simp
  moreover have "\<not> hiddenEnv k" if "k \<in> set (c_identityEnv (x_ctl s))" for k
    using assms(1) that by (simp add: keys_inv_def)
  ultimately show ?thesis
    unfolding keys_inv_def using applyIdentityEnvs_identity [of envs grace replace s] by blast
qed

lemma auth_inv_setToken:
  "auth_inv s \<Longrightarrow> tok \<noteq> [] \<Longrightarrow> auth_inv (setToken tok s)"
  by (auto simp: auth_inv_def setToken_def less_Suc_eq)

lemma keys_inv_setToken [simp]: "keys_inv (setToken tok s) = keys_inv s"
  by (simp add: keys_inv_def setToken_def)

lemma auth_inv_install:
  assumes "auth_inv s" "rk_AccessToken req \<noteq> []"
  shows "auth_inv (install req d s)"
proof -
  let ?s1 = "s\<lparr>x_ctl := (x_ctl s)\<lparr>c_prev := c_secret (x_ctl s), c_secret := rk_ControlSecret req,
            c_gen := rk_Generation req, c_last := Some d\<rparr>, x_sealed := False\<rparr>"
  have eq: "install req d s = setToken (rk_AccessToken req) ?s1"
    by (simp add: install_def setToken_def Let_def)
  have "auth_inv ?s1" using assms(1) by (simp add: auth_inv_def)
  with assms(2) show ?thesis unfolding eq by (rule auth_inv_setToken [rotated])
qed

lemma keys_inv_install [simp]: "keys_inv (install req d s) = keys_inv s"
  by (simp add: keys_inv_def)

lemma keys_inv_rekey_newer:
  assumes "keys_inv s" "rekey_newer req d s = (a, t)"
  shows "keys_inv t"
  using assms keys_inv_apply [OF assms(1)]
  by (auto simp: rekey_newer_def split: if_splits sum.splits option.splits prod.splits bool.splits)
     (metis snd_conv)+

lemma rekey_keys_cases:
  assumes "rekey digest vsock hdr body s = (a, t)"
  obtains "t = s" | req where "rekey_newer req (digest req) s = (a, t)"
  using assms by (auto simp: rekey_def Let_def split: sum.splits body.splits if_splits)

lemma keys_inv_rekey:
  assumes "keys_inv s" "rekey digest vsock hdr body s = (a, t)"
  shows "keys_inv t"
  using rekey_keys_cases [OF assms(2)] assms(1) keys_inv_rekey_newer by metis

lemma inv_rekey:
  assumes "execd_inv s" "rekey digest vsock hdr body s = (a, t)"
  shows "execd_inv t"
proof -
  have "auth_inv t"
    using assms(2)
  proof (cases rule: rekey_cases)
    case refused
    then show ?thesis using assms(1) auth_inv_core [OF refused(2)] by (simp add: execd_inv_def)
  next
    case retry
    then show ?thesis using assms(1) by (simp add: execd_inv_def)
  next
    case (applied req s1)
    then show ?thesis
      using assms(1) auth_inv_core [OF applied(3)] by (simp add: execd_inv_def auth_inv_install)
  qed
  moreover have "keys_inv t"
    by (rule keys_inv_rekey [OF _ assms(2)]) (use assms(1) in \<open>simp add: execd_inv_def\<close>)
  ultimately show ?thesis by (simp add: execd_inv_def)
qed

lemma inv_seal:
  assumes "execd_inv s" "seal vsock hdr s = (a, t)"
  shows "execd_inv t"
proof -
  consider "t = s"
    | "t = s\<lparr>x_sealed := True, x_ctl := (x_ctl s)\<lparr>c_prev := [], c_last := None\<rparr>\<rparr>" "c_secret (x_ctl s) \<noteq> []"
    using assms(2) by (auto simp: seal_def authorizeControl_def split: if_splits)
  then show ?thesis using assms(1) by cases (simp_all add: execd_inv_defs)
qed

lemma inv_claim_locked:
  assumes "execd_inv s" "cl_AccessToken (fst p) \<noteq> []" "checkIdentityEnvs (cl_Envs (fst p)) = Inr (snd p)"
    and "claim_locked p s = (a, t)"
  shows "execd_inv t"
proof -
  obtain req grace where p: "p = (req, grace)" by (cases p)
  define s0 where "s0 = s\<lparr>x_claimed := True\<rparr>"
  obtain b s1 where s1: "applyIdentityEnvs (cl_Envs req) grace False s0 = (b, s1)" by fastforce
  have "auth_inv s0" "keys_inv s0"
    using assms(1) by (auto simp: execd_inv_def auth_inv_def keys_inv_def s0_def)
  have "auth_inv s1"
    using auth_inv_core [OF applyIdentityEnvs_core [OF s1]] \<open>auth_inv s0\<close> by simp
  have "checkIdentityEnvs (cl_Envs req) = Inr grace" using assms(3) p by simp
  from keys_inv_apply [OF \<open>keys_inv s0\<close> this, of grace False] s1 have "keys_inv s1" by simp
  moreover have "t = s \<or> t = s1 \<or> t = setToken (cl_AccessToken req) s1"
    using assms(4) s1 by (auto simp: claim_locked_def p s0_def split: if_splits bool.splits)
  moreover have "auth_inv (setToken (cl_AccessToken req) s1)"
    by (rule auth_inv_setToken [OF \<open>auth_inv s1\<close>]) (use assms(2) p in simp)
  ultimately show ?thesis
    using assms(1) \<open>auth_inv s1\<close> \<open>keys_inv s1\<close> unfolding execd_inv_def by (elim disjE) simp_all
qed

lemma inv_ping: "execd_inv s \<Longrightarrow> execd_inv (snd (ping r avail s))"
  by (simp add: execd_inv_defs ping_def split: jupyter.split)

lemma claim_check_ok:
  assumes "claim_check body = Inr p"
  shows "cl_AccessToken (fst p) \<noteq> [] \<and> checkIdentityEnvs (cl_Envs (fst p)) = Inr (snd p)"
  using assms by (auto simp: claim_check_def split: body.splits if_splits sum.splits)

lemma inv_serve:
  assumes "execd_inv s"
  shows "execd_inv (snd (serve digest c s))"
proof (cases c)
  case (Claim tok body)
  have "execd_inv (s\<lparr>x_claims := x_claims s @ [p]\<rparr>)" if "claim_check body = Inr p" for p
    using assms claim_check_ok [OF that] by (auto simp: execd_inv_defs)
  with assms Claim show ?thesis by (auto simp: guard_def split: sum.split)
next
  case (Claim_runs i)
  define s0 where "s0 = s\<lparr>x_claims := take i (x_claims s) @ drop (Suc i) (x_claims s)\<rparr>"
  have "execd_inv s0"
    using assms by (auto simp: execd_inv_defs s0_def dest: in_set_takeD in_set_dropD)
  moreover have "cl_AccessToken (fst (x_claims s ! i)) \<noteq> [] \<and>
      checkIdentityEnvs (cl_Envs (fst (x_claims s ! i))) = Inr (snd (x_claims s ! i))" if "i < length (x_claims s)"
    using assms nth_mem [OF that] by (auto simp: execd_inv_defs)
  ultimately have "execd_inv (snd (claim_locked (x_claims s ! i) s0))" if "i < length (x_claims s)"
    using inv_claim_locked [OF _ _ _ prod.collapse [symmetric]] that by simp
  with assms Claim_runs show ?thesis by (simp add: s0_def)
next
  case (Seal vsock hdr)
  then show ?thesis using inv_seal [OF assms prod.collapse [symmetric]] by simp
next
  case (Rekey vsock hdr body)
  then show ?thesis using inv_rekey [OF assms prod.collapse [symmetric]] by simp
qed (use assms inv_ping in \<open>simp_all add: guard_def\<close>)

interpretation execd: invariant_system started "served digest" execd_inv for digest
proof unfold_locales
  show "execd_inv s" if "started s" for s
    using that by (auto simp: started_def execd_inv_defs execd_New_def)
  show "execd_inv t" if "execd_inv s" "served digest s t" for s t
    using that by (auto simp: served_def inv_serve)
qed

section \<open>Sealed servers\<close>

text \<open>The calls of a client, and what a holder of a secret presents.\<close>

fun from_client :: "call \<Rightarrow> bool" where
  "from_client (Ping _ _) = True"
| "from_client (Client _) = True"
| "from_client (Claim _ _) = True"
| "from_client _ = False"

fun rekeys_with :: "string \<Rightarrow> call \<Rightarrow> bool" where
  "rekeys_with sec (Rekey _ hdr _) = (hdr = sec)"
| "rekeys_with sec _ = False"

lemma claim_locked_keeps:
  "x_sealed (snd (claim_locked p s)) = x_sealed s"
  "c_secret (x_ctl (snd (claim_locked p s))) = c_secret (x_ctl s)"
proof -
  obtain req grace where p: "p = (req, grace)" by (cases p)
  obtain b s1 where s1: "applyIdentityEnvs (cl_Envs req) grace False (s\<lparr>x_claimed := True\<rparr>) = (b, s1)"
    by fastforce
  note core_eqD [OF applyIdentityEnvs_core [OF s1]]
  with s1 show "x_sealed (snd (claim_locked p s)) = x_sealed s"
    "c_secret (x_ctl (snd (claim_locked p s))) = c_secret (x_ctl s)"
    by (auto simp: claim_locked_def p setToken_def split: bool.split)
qed

lemma sealed_client:
  "from_client c \<Longrightarrow> x_sealed s \<Longrightarrow> serve digest c s = (Sealed, s)"
  by (cases c) (simp_all add: ping_def guard_def)

lemma sealed_serve:
  assumes "execd_inv s" "x_sealed s" "\<not> rekeys_with (c_secret (x_ctl s)) c"
  shows "x_sealed (snd (serve digest c s))"
    and "c_secret (x_ctl (snd (serve digest c s))) = c_secret (x_ctl s)"
proof -
  have "x_sealed (snd (serve digest c s)) \<and> c_secret (x_ctl (snd (serve digest c s))) = c_secret (x_ctl s)"
  proof (cases c)
    case (Seal vsock hdr)
    then show ?thesis using assms(2) by (simp add: seal_def authorizeControl_def)
  next
    case (Rekey vsock hdr body)
    obtain a t where eq: "rekey digest vsock hdr body s = (a, t)" by fastforce
    then show ?thesis
    proof (cases rule: rekey_cases)
      case refused
      then show ?thesis using Rekey eq assms(2) core_eqD [OF refused(2)] by simp
    next
      case retry
      then show ?thesis using assms(1,2) by (simp add: execd_inv_defs)
    next
      case applied
      then show ?thesis using Rekey assms(3) by simp
    qed
  next
    case (Claim_runs i)
    then show ?thesis using assms(2) by (simp add: claim_locked_keeps)
  qed (use assms(2) in \<open>simp_all add: ping_def guard_def\<close>)
  then show "x_sealed (snd (serve digest c s))"
    "c_secret (x_ctl (snd (serve digest c s))) = c_secret (x_ctl s)" by simp_all
qed

lemma serve_all_Cons:
  "serve_all digest (c # cs) s =
     (fst (serve digest c s) # fst (serve_all digest cs (snd (serve digest c s))),
      snd (serve_all digest cs (snd (serve digest c s))))"
  by (simp add: split_beta Let_def)

lemma serve_all_sealed:
  assumes "execd_inv s" "x_sealed s" "\<forall>c \<in> set cs. \<not> rekeys_with (c_secret (x_ctl s)) c"
  shows "x_sealed (snd (serve_all digest cs s)) \<and>
    c_secret (x_ctl (snd (serve_all digest cs s))) = c_secret (x_ctl s) \<and>
    (\<forall>(c, a) \<in> set (zip cs (fst (serve_all digest cs s))). from_client c \<longrightarrow> a = Sealed)"
  using assms
proof (induction cs arbitrary: s)
  case Nil
  then show ?case by simp
next
  case (Cons c cs)
  let ?t = "snd (serve digest c s)"
  have c: "\<not> rekeys_with (c_secret (x_ctl s)) c" using Cons.prems(3) by simp
  have t: "execd_inv ?t" "x_sealed ?t" "c_secret (x_ctl ?t) = c_secret (x_ctl s)"
    using Cons.prems(1) sealed_serve [OF Cons.prems(1,2) c] by (simp_all add: inv_serve)
  have IH: "x_sealed (snd (serve_all digest cs ?t)) \<and>
      c_secret (x_ctl (snd (serve_all digest cs ?t))) = c_secret (x_ctl ?t) \<and>
      (\<forall>(c, a) \<in> set (zip cs (fst (serve_all digest cs ?t))). from_client c \<longrightarrow> a = Sealed)"
    by (rule Cons.IH) (use t Cons.prems(3) in auto)
  have "fst (serve digest c s) = Sealed" if "from_client c"
    using sealed_client [OF that Cons.prems(2)] by simp
  with IH t(3) show ?case unfolding serve_all_Cons by auto
qed

text \<open>
  (C37) A sealed server, and so every clone of the snapshot it was sealed for, answers 503 to every
  client, its liveness probe included, over any sequence of calls, until a re-key presents the
  control secret it was sealed with: neither a replay of the re-key before the seal nor a claim that
  was already past the guard opens it.\<close>

theorem sealed_until_rekeyed:
  assumes "reach started (served digest) s" "x_sealed s"
    and "\<forall>c \<in> set cs. \<not> rekeys_with (c_secret (x_ctl s)) c"
  shows "x_sealed (snd (serve_all digest cs s)) \<and>
    c_secret (x_ctl (snd (serve_all digest cs s))) = c_secret (x_ctl s) \<and>
    (\<forall>(c, a) \<in> set (zip cs (fst (serve_all digest cs s))). from_client c \<longrightarrow> a = Sealed)"
  using serve_all_sealed [OF execd.reach_inv [OF assms(1)] assms(2,3)] .

section \<open>A re-key retires what came before\<close>









section \<open>A sandbox to try the statements on\<close>

definition demo_secret :: "char \<Rightarrow> string" where "demo_secret c = replicate 32 c"

definition demo_server :: execd where
  "demo_server = execd_New ''pool'' (demo_secret CHR ''a'') False [''PATH'' \<mapsto> ''/bin''] 0"

definition demo_rekey :: "64 word \<Rightarrow> string \<Rightarrow> char \<Rightarrow> envs option \<Rightarrow> rekey_request" where
  "demo_rekey g tok c envs = \<lparr>rk_Generation = g, rk_AccessToken = tok, rk_ControlSecret = demo_secret c, rk_Envs = envs\<rparr>"

definition demo_digest :: "rekey_request \<Rightarrow> string" where
  "demo_digest req = rk_AccessToken req"

definition demo_sealed :: execd where
  "demo_sealed = snd (serve demo_digest (Seal False (demo_secret CHR ''a'')) demo_server)"

lemmas demo_defs = demo_secret_def demo_server_def demo_rekey_def demo_digest_def demo_sealed_def
  execd_New_def

lemma demo_sealed_reached: "reach started (served demo_digest) demo_sealed"
proof -
  have "reach started (served demo_digest) demo_server"
    unfolding demo_server_def by (rule reach_init) (unfold started_def, intro exI, rule refl)
  then show ?thesis
    by (rule reach_step) (unfold served_def demo_sealed_def, rule exI, rule refl)
qed

lemma demo_sealed_simps:
  "x_sealed demo_sealed" "c_secret (x_ctl demo_sealed) = demo_secret CHR ''a''"
  by (simp_all add: demo_defs seal_def authorizeControl_def secret_matches_def)

definition demo_calls :: "call list" where
  "demo_calls = [Client ''pool'', Rekey False (demo_secret CHR ''b'') (Decoded (demo_rekey 1 ''new'' CHR ''c'' None)),
     Client ''new'']"

theorem sealed_until_rekeyed_witness:
  "x_sealed (snd (serve_all demo_digest demo_calls demo_sealed)) \<and>
   fst (serve_all demo_digest demo_calls demo_sealed) = [Sealed, Unauthorized, Sealed]"
proof
  have "\<forall>c \<in> set demo_calls. \<not> rekeys_with (c_secret (x_ctl demo_sealed)) c"
    by (simp add: demo_sealed_simps demo_calls_def) (simp add: demo_secret_def)
  from sealed_until_rekeyed [OF demo_sealed_reached demo_sealed_simps(1) this]
  show "x_sealed (snd (serve_all demo_digest demo_calls demo_sealed))" by blast
  show "fst (serve_all demo_digest demo_calls demo_sealed) = [Sealed, Unauthorized, Sealed]" by code_simp
qed

definition demo_restored :: execd where
  "demo_restored = snd (rekey demo_digest False (demo_secret CHR ''a'')
     (Decoded (demo_rekey 1 ''new'' CHR ''b'' (Some [(''ROLE'', ''x'')]))) demo_sealed)"

lemma demo_restored_applied:
  "rekey demo_digest False (demo_secret CHR ''a'')
     (Decoded (demo_rekey 1 ''new'' CHR ''b'' (Some [(''ROLE'', ''x'')]))) demo_sealed = (NoContent, demo_restored)"
  unfolding demo_restored_def by (rule prod_eqI) (code_simp, simp)


section \<open>Retries and generations\<close>

lemma rekey_applied:
  assumes "rekey digest vsock hdr (Decoded req) s = (NoContent, t)" "c_gen (x_ctl s) < rk_Generation req"
  obtains s1 where "t = install req (digest req) s1" "core s1 = core s" "hdr = c_secret (x_ctl s)"
    "c_secret (x_ctl s) \<noteq> []" "rk_AccessToken req \<noteq> []" "rk_ControlSecret req \<noteq> c_secret (x_ctl s)"
    "rk_ControlSecret req \<noteq> []" "c_vsockOnly (x_ctl s) \<longrightarrow> vsock"
proof -
  have vs: "c_vsockOnly (x_ctl s) \<longrightarrow> vsock"
    using assms(1) by (auto simp: rekey_def authorizeControl_def split: if_splits)
  show thesis
    using assms(1)
  proof (cases rule: rekey_cases)
    case refused
    then show ?thesis by simp
  next
    case (retry req')
    then show ?thesis using assms(2) by simp
  next
    case (applied req' s1)
    then show ?thesis using vs by (intro that [of s1]) (auto simp: MinSecretLen_def)
  qed
qed

text \<open>
  After a re-key is applied, sending it again with the secret it was sent with, or with the one it
  installed, succeeds and changes nothing; any other re-key of the same or an older generation is
  refused and changes nothing; and once the server is sealed again, sending it again with the old
  secret is refused and leaves the server sealed.\<close>

theorem rekey_retry_is_idempotent:
  assumes "rekey digest vsock hdr (Decoded req) s = (NoContent, t)" "c_gen (x_ctl s) < rk_Generation req"
  shows "rekey digest vsock hdr (Decoded req) t = (NoContent, t) \<and>
    rekey digest vsock (rk_ControlSecret req) (Decoded req) t = (NoContent, t) \<and>
    (\<forall>req'. rk_Generation req' \<le> rk_Generation req \<and> (rk_Generation req' \<noteq> rk_Generation req \<or> digest req' \<noteq> digest req) \<longrightarrow>
      rekey digest vsock (rk_ControlSecret req) (Decoded req') t = (Stale, t) \<and>
      rekey digest vsock hdr (Decoded req') t = (Unauthorized, t)) \<and>
    (let u = snd (seal vsock (rk_ControlSecret req) t) in
      x_sealed u \<and> rekey digest vsock hdr (Decoded req) u = (Unauthorized, u))"
proof -
  obtain s1 where t: "t = install req (digest req) s1" "core s1 = core s" "hdr = c_secret (x_ctl s)"
    "c_secret (x_ctl s) \<noteq> []" "rk_AccessToken req \<noteq> []" "rk_ControlSecret req \<noteq> c_secret (x_ctl s)"
    "rk_ControlSecret req \<noteq> []" "c_vsockOnly (x_ctl s) \<longrightarrow> vsock"
    using assms by (rule rekey_applied)
  define sec where "sec = c_secret (x_ctl s)"
  have f: "c_secret (x_ctl t) = rk_ControlSecret req" "c_prev (x_ctl t) = sec"
    "c_gen (x_ctl t) = rk_Generation req" "c_last (x_ctl t) = Some (digest req)" "c_vsockOnly (x_ctl t) \<longrightarrow> vsock"
    "hdr = sec" "sec \<noteq> []" "rk_ControlSecret req \<noteq> sec" "rk_ControlSecret req \<noteq> []"
    using t core_eqD [OF t(2)] by (simp_all add: sec_def)
  have "rekey digest vsock hdr (Decoded req) t = (NoContent, t)"
    "rekey digest vsock (rk_ControlSecret req) (Decoded req) t = (NoContent, t)"
    using f by (simp_all add: rekey_def authorizeControl_def secret_matches_def)
  moreover have "rekey digest vsock (rk_ControlSecret req) (Decoded req') t = (Stale, t) \<and>
      rekey digest vsock hdr (Decoded req') t = (Unauthorized, t)"
    if "rk_Generation req' \<le> rk_Generation req" "rk_Generation req' \<noteq> rk_Generation req \<or> digest req' \<noteq> digest req" for req'
    using f that by (auto simp: rekey_def authorizeControl_def secret_matches_def)
  moreover have "let u = snd (seal vsock (rk_ControlSecret req) t) in
      x_sealed u \<and> rekey digest vsock hdr (Decoded req) u = (Unauthorized, u)"
    using f by (auto simp: seal_def rekey_def authorizeControl_def secret_matches_def Let_def)
  ultimately show ?thesis by blast
qed

theorem rekey_retry_witness:
  "rekey demo_digest False (demo_secret CHR ''a'')
     (Decoded (demo_rekey 1 ''new'' CHR ''b'' (Some [(''ROLE'', ''x'')]))) demo_restored = (NoContent, demo_restored)"
proof -
  have gen: "c_gen (x_ctl demo_sealed) < rk_Generation (demo_rekey 1 ''new'' CHR ''b'' (Some [(''ROLE'', ''x'')]))"
    by code_simp
  show ?thesis using rekey_retry_is_idempotent [OF demo_restored_applied gen] by blast
qed

text \<open>No call moves a server back to an older generation.\<close>

lemma claim_locked_gen: "c_gen (x_ctl (snd (claim_locked p s))) = c_gen (x_ctl s)"
proof -
  obtain req grace where p: "p = (req, grace)" by (cases p)
  obtain b s1 where s1: "applyIdentityEnvs (cl_Envs req) grace False (s\<lparr>x_claimed := True\<rparr>) = (b, s1)"
    by fastforce
  with core_eqD [OF applyIdentityEnvs_core [OF s1]] show ?thesis
    by (auto simp: claim_locked_def p setToken_def split: bool.split)
qed

lemma generation_never_falls: "c_gen (x_ctl s) \<le> c_gen (x_ctl (snd (serve digest c s)))"
proof (cases c)
  case (Rekey vsock hdr body)
  obtain a t where eq: "rekey digest vsock hdr body s = (a, t)" by fastforce
  then have "c_gen (x_ctl s) \<le> c_gen (x_ctl t)"
  proof (cases rule: rekey_cases)
    case refused
    then show ?thesis using core_eqD [OF refused(2)] by simp
  qed simp_all
  with Rekey eq show ?thesis by simp
qed (auto simp: ping_def seal_def guard_def claim_locked_gen split: sum.split jupyter.split)

section \<open>The environment a re-key leaves\<close>

lemma rekey_env_cases:
  assumes "rekey digest vsock hdr (Decoded req) s = (NoContent, t)" "c_gen (x_ctl s) < rk_Generation req"
    and "rk_Envs req = Some envs"
  obtains grace s1 where "checkIdentityEnvs envs = Inr grace" "applyIdentityEnvs envs grace True s = (True, s1)"
    "t = install req (digest req) s1"
  using assms
  by (auto simp: rekey_def authorizeControl_def rekey_newer_def Let_def split: sum.splits if_splits prod.splits bool.splits)

text \<open>
  A re-key that brings an environment replaces the one that earlier calls had set: afterwards a
  variable it names has the value it gives, a variable only earlier calls had set is gone, every
  other variable is as it was, and the server remembers exactly the variables it named. None of
  them is a setting of \<open>execd\<close> itself.\<close>

theorem rekey_replaces_identity_env:
  assumes "reach started (served digest) s" "rekey digest vsock hdr (Decoded req) s = (NoContent, t)"
    and "c_gen (x_ctl s) < rk_Generation req" "rk_Envs req = Some envs" "distinct (map fst envs)"
  shows "(\<forall>k. x_env t k =
      (if k \<noteq> EnvGraceShutdown \<and> k \<in> fst ` set envs then map_of envs k
       else if k \<in> set (c_identityEnv (x_ctl s)) then None else x_env s k)) \<and>
    set (c_identityEnv (x_ctl t)) = fst ` set envs - {EnvGraceShutdown} \<and>
    (\<forall>k. hiddenEnv k \<longrightarrow> x_env t k = x_env s k)"
proof -
  obtain grace s1 where ok: "checkIdentityEnvs envs = Inr grace" "applyIdentityEnvs envs grace True s = (True, s1)"
    "t = install req (digest req) s1"
    using assms(2,3,4) by (rule rekey_env_cases)
  have hid: "\<not> hiddenEnv k" if "k \<in> set (c_identityEnv (x_ctl s))" for k
    using execd.reach_inv [OF assms(1)] that by (simp add: execd_inv_defs)
  then have grace: "EnvGraceShutdown \<notin> set (c_identityEnv (x_ctl s))"
    by (auto simp: hiddenEnv_def)
  have env: "x_env t k =
      (if k \<noteq> EnvGraceShutdown \<and> k \<in> fst ` set envs then map_of envs k
       else if k \<in> set (c_identityEnv (x_ctl s)) then None else x_env s k)" for k
    using applyIdentityEnvs_ok(1) [OF ok(2) assms(5)] ok(3) grace by auto
  moreover have "set (c_identityEnv (x_ctl t)) = fst ` set envs - {EnvGraceShutdown}"
    using applyIdentityEnvs_ok(2) [OF ok(2) assms(5)] ok(3) grace by auto
  moreover have "x_env t k = x_env s k" if "hiddenEnv k" for k
    using checkIdentityEnvs_ok [OF ok(1), of k] that hid [of k] unfolding env by auto
  ultimately show ?thesis by blast
qed

theorem rekey_replaces_identity_env_witness:
  "set (c_identityEnv (x_ctl demo_restored)) = {''ROLE''}"
proof -
  have gen: "c_gen (x_ctl demo_sealed) < rk_Generation (demo_rekey 1 ''new'' CHR ''b'' (Some [(''ROLE'', ''x'')]))"
    by code_simp
  have envs: "rk_Envs (demo_rekey 1 ''new'' CHR ''b'' (Some [(''ROLE'', ''x'')])) = Some [(''ROLE'', ''x'')]"
    "distinct (map fst [(''ROLE'', ''x'')])" by (simp_all add: demo_rekey_def)
  show ?thesis
    using rekey_replaces_identity_env [OF demo_sealed_reached demo_restored_applied gen envs]
    by (simp add: EnvGraceShutdown_def)
qed

text \<open>A variable of the image that a caller overrides counts as set by the call, so a later re-key
  that does not name it removes it altogether.\<close>

lemma image_variable_lost:
  "let s1 = snd (claim (Decoded \<lparr>cl_AccessToken = ''mine'', cl_Envs = [(''PATH'', ''/opt/bin'')]\<rparr>) demo_server);
       r = rekey demo_digest False (demo_secret CHR ''a'') (Decoded (demo_rekey 1 ''new'' CHR ''b'' (Some []))) s1
   in x_env demo_server ''PATH'' = Some ''/bin'' \<and> fst r = NoContent \<and> x_env (snd r) ''PATH'' = None"
  by code_simp

section \<open>Claims\<close>

text \<open>A claim that gets the lock at once is \<open>guard\<close> around the whole handler.\<close>

lemma claim_at_once:
  assumes "x_claims s = []" "serve digest (Claim tok body) s = (Claim_waits, s1)"
  shows "serve digest (Claim_runs 0) s1 = guard tok (claim body) s"
proof -
  obtain p where "claim_check body = Inr p" "s1 = s\<lparr>x_claims := [p]\<rparr>" "\<not> x_sealed s"
    "a_token (x_auth s) = [] \<or> tok = a_token (x_auth s)"
    using assms by (auto simp: guard_def claim_check_def split: if_splits sum.splits body.splits)
  moreover have "s\<lparr>x_claims := []\<rparr> = s" using assms(1) by (cases s) simp
  ultimately show ?thesis by (auto simp: guard_def claim_def)
qed

text \<open>A claimed server stays claimed, and no claim changes anything any more.\<close>

lemma claimed_for_good:
  assumes "x_claimed s"
  shows "x_claimed (snd (serve digest c s))"
    and "claim_locked p s = (Answer 409 ''ALREADY_CLAIMED'', s)"
proof -
  show locked: "claim_locked p s = (Answer 409 ''ALREADY_CLAIMED'', s)" for p
    using assms by (cases p) (simp add: claim_locked_def)
  show "x_claimed (snd (serve digest c s))"
  proof (cases c)
    case (Rekey vsock hdr body)
    obtain a t where eq: "rekey digest vsock hdr body s = (a, t)" by fastforce
    then have "x_claimed t"
    proof (cases rule: rekey_cases)
      case refused
      then show ?thesis using assms core_eqD [OF refused(2)] by simp
    next
      case (applied req s1)
      then show ?thesis using assms core_eqD [OF applied(3)] by simp
    qed (use assms in simp)
    with Rekey eq show ?thesis by simp
  qed (use assms in \<open>auto simp: ping_def seal_def guard_def claim_locked_def split: sum.split jupyter.split prod.split\<close>)
qed

text \<open>A claim that passes its checks is marked done before its environment is applied, and a value
  with a NUL byte, which the checks let through, makes that fail: the caller is told that the
  request is invalid, the server keeps the token of the pool, and no claim is taken any more.\<close>

lemma refused_claim_claims:
  "let bad = \<lparr>cl_AccessToken = ''mine'', cl_Envs = [(''A'', [CHR 0x00])]\<rparr>; (a, s1) = claim (Decoded bad) demo_server;
       (b, s2) = claim (Decoded \<lparr>cl_AccessToken = ''mine'', cl_Envs = []\<rparr>) s1
   in a = InvalidRequest \<and> b = Answer 409 ''ALREADY_CLAIMED'' \<and> a_token (x_auth s2) = ''pool''"
  by code_simp

text \<open>A claim that the old token brought past the guard and that gets the lock only after a re-key
  replaces the token the re-key installed.\<close>

lemma waiting_claim_outlives_rekey:
  "let (as, s) = serve_all demo_digest
     [Claim ''pool'' (Decoded \<lparr>cl_AccessToken = ''mine'', cl_Envs = []\<rparr>), Seal False (demo_secret CHR ''a''),
      Rekey False (demo_secret CHR ''a'') (Decoded (demo_rekey 1 ''new'' CHR ''b'' None)),
      Claim_runs 0, Client ''new'', Client ''mine''] demo_server
   in as = [Claim_waits, NoContent, NoContent, NoContent, Unauthorized, Handled 2]"
  by code_simp

end
