(* ===== verification/Execd_Output.thy ===== *)
theory Execd_Output
  imports Go_Strings
begin

text \<open>
  What a sandbox prints: the ring buffer a terminal's scrollback is kept in
  (\<^verbatim>\<open>internal/execd/replay.go\<close>) with the viewer that follows it (\<open>ptyViewer\<close> of \<^verbatim>\<open>pty.go\<close>), and
  the splitter that makes line events of a command's output (\<^verbatim>\<open>lines.go\<close>).
  \<^item> The ring refines the whole history of the terminal, of which it keeps the tail: \<open>rep\<close> is the
    abstraction relation, and the locale \<open>scrollback\<close> is what a viewer relies on.
  \<^item> The count of bytes ever written is a \<open>nat\<close>; an \<open>int64\<close> holds it for the first eight exabytes.
  \<^item> A Go channel that is only ever closed is a number, and the closed ones are kept in a list.
\<close>

section \<open>The ring buffer\<close>

definition replaySize :: nat where "replaySize = 1048576"

record replayBuffer =
  rb_buf :: string
  rb_total :: nat
  rb_changed :: "nat option"
  rb_closed :: "nat list"
  rb_fresh :: nat

definition newReplayBuffer :: "nat \<Rightarrow> replayBuffer" where
  "newReplayBuffer sz = \<lparr>rb_buf = replicate sz (CHR 0x00), rb_total = 0, rb_changed = None,
     rb_closed = [], rb_fresh = 0\<rparr>"

text \<open>\<open>copy(dst, src)\<close>: the overlap of the two is written to the front of \<open>dst\<close>. \<open>copy_at i\<close> is
  \<open>copy(dst[i:], src)\<close>.\<close>

definition go_copy :: "'a list \<Rightarrow> 'a list \<Rightarrow> 'a list" where
  "go_copy dst src = take (length dst) src @ drop (length src) dst"

definition copy_at :: "nat \<Rightarrow> 'a list \<Rightarrow> 'a list \<Rightarrow> 'a list" where
  "copy_at i dst src = take i dst @ go_copy (drop i dst) src"

definition rb_write :: "string \<Rightarrow> replayBuffer \<Rightarrow> replayBuffer" where
  "rb_write p0 r =
     (if p0 = [] then r
      else let size = length (rb_buf r);
               (total, p) = (if length p0 > size then (rb_total r + (length p0 - size), drop (length p0 - size) p0)
                             else (rb_total r, p0));
               start = total mod size;
               n = min (size - start) (length p);
               buf = go_copy (copy_at start (rb_buf r) p) (drop n p);
               r1 = r\<lparr>rb_buf := buf, rb_total := total + length p\<rparr>
           in (case rb_changed r1 of
                 None \<Rightarrow> r1
               | Some ch \<Rightarrow> r1\<lparr>rb_closed := ch # rb_closed r1, rb_changed := None\<rparr>))"

definition readLocked :: "int \<Rightarrow> replayBuffer \<Rightarrow> string \<times> int" where
  "readLocked off0 r =
     (let off1 = (if off0 < 0 then 0 else off0); total = int (rb_total r) in
      if off1 \<ge> total then ([], total)
      else let size = int (length (rb_buf r));
               oldest = total - size;
               off = (if off1 < oldest then oldest else off1);
               count = nat (total - off);
               start = nat (off mod size);
               out = replicate count (CHR 0x00);
               n = min count (length (rb_buf r) - start);
               out1 = go_copy out (drop start (rb_buf r))
           in (copy_at n out1 (take (count - n) (rb_buf r)), off))"

abbreviation readFrom :: "int \<Rightarrow> replayBuffer \<Rightarrow> string \<times> int" where
  "readFrom \<equiv> readLocked"

definition readAndSubscribe :: "int \<Rightarrow> replayBuffer \<Rightarrow> (string \<times> int \<times> nat) \<times> replayBuffer" where
  "readAndSubscribe off r =
     (let (data, at) = readLocked off r;
          r1 = (case rb_changed r of
                  None \<Rightarrow> r\<lparr>rb_changed := Some (rb_fresh r), rb_fresh := Suc (rb_fresh r)\<rparr>
                | Some _ \<Rightarrow> r)
      in ((data, at, the (rb_changed r1)), r1))"

text \<open>
  A viewer of a terminal (\<open>ptyViewer\<close>): it reads from where it left off whenever it is woken, and
  sends what it got, if anything, as a frame with the offset it starts at. The steps say how its
  reads fall between the writes of the terminal; the buffer's two operations are arguments, so that
  what is shown of the viewer rests on their contract only.
\<close>

datatype view_step = Output string | Drain

fun follow :: "(string \<Rightarrow> 'r \<Rightarrow> 'r) \<Rightarrow> (int \<Rightarrow> 'r \<Rightarrow> (string \<times> int \<times> nat) \<times> 'r) \<Rightarrow>
    view_step list \<Rightarrow> int \<Rightarrow> 'r \<Rightarrow> (string \<times> int) list \<times> int \<times> 'r" where
  "follow wr sub [] nxt r = ([], nxt, r)"
| "follow wr sub (Output p # steps) nxt r = follow wr sub steps nxt (wr p r)"
| "follow wr sub (Drain # steps) nxt r =
     (let ((data, at, ch), r1) = sub nxt r;
          (frames, n, r2) = follow wr sub steps (at + int (length data)) r1
      in (if data = [] then frames else (data, at) # frames, n, r2))"

section \<open>The line splitter\<close>

definition maxLine :: nat where "maxLine = 8388608"

record lineSplitter =
  ls_emitted :: "string list"
  ls_pending :: string
  ls_lastCR :: bool

abbreviation LF :: char where "LF \<equiv> CHR 0x0A"
abbreviation CR :: char where "CR \<equiv> CHR 0x0D"

text \<open>One round of the loop of \<open>write\<close>; the limit is an argument, \<open>maxLine\<close> in the program.\<close>

definition ls_emit :: "string \<Rightarrow> lineSplitter \<Rightarrow> lineSplitter" where
  "ls_emit s l = l\<lparr>ls_emitted := ls_emitted l @ [s]\<rparr>"

definition ls_byte :: "nat \<Rightarrow> char \<Rightarrow> lineSplitter \<Rightarrow> lineSplitter" where
  "ls_byte lim b l =
     (if b = LF \<or> b = CR then
        (let l1 = (if ls_pending l \<noteq> [] then (ls_emit (ls_pending l) l)\<lparr>ls_pending := []\<rparr>
                   else if b = LF \<and> ls_lastCR l then l
                   else ls_emit [LF] l)
         in l1\<lparr>ls_lastCR := (b = CR)\<rparr>)
      else let l1 = l\<lparr>ls_lastCR := False, ls_pending := ls_pending l @ [b]\<rparr>
           in if length (ls_pending l1) \<ge> lim then (ls_emit (ls_pending l1) l1)\<lparr>ls_pending := []\<rparr> else l1)"

definition ls_write :: "nat \<Rightarrow> string \<Rightarrow> lineSplitter \<Rightarrow> lineSplitter" where
  "ls_write lim p l = fold (ls_byte lim) p l"

definition ls_flush :: "lineSplitter \<Rightarrow> lineSplitter" where
  "ls_flush l = (if ls_pending l \<noteq> [] then (ls_emit (ls_pending l) l)\<lparr>ls_pending := []\<rparr> else l)"

text \<open>\<open>pump\<close>: the chunks that were read until the end, then the flush.\<close>

definition pump :: "nat \<Rightarrow> string list \<Rightarrow> string list" where
  "pump lim chunks =
     ls_emitted (ls_flush (fold (ls_write lim) chunks \<lparr>ls_emitted = [], ls_pending = [], ls_lastCR = False\<rparr>))"

section \<open>The ring holds the tail of the history\<close>

lemma length_go_copy [simp]: "length (go_copy dst src) = length dst"
  by (simp add: go_copy_def)

lemma length_copy_at [simp]: "length (copy_at i dst src) = length dst"
  by (simp add: copy_at_def)

lemma go_copy_nth: "j < length dst \<Longrightarrow> go_copy dst src ! j = (if j < length src then src ! j else dst ! j)"
  by (auto simp: go_copy_def nth_append min_def)

lemma copy_at_nth:
  assumes "j < length dst" "i \<le> length dst"
  shows "copy_at i dst src ! j = (if i \<le> j \<and> j < i + length src then src ! (j - i) else dst ! j)"
  using assms by (auto simp: copy_at_def nth_append go_copy_nth min_def)

text \<open>Writing \<open>p\<close> round the ring from \<open>start\<close>.\<close>

definition ring_put :: "nat \<Rightarrow> 'a list \<Rightarrow> 'a list \<Rightarrow> 'a list" where
  "ring_put start buf p = go_copy (copy_at start buf p) (drop (min (length buf - start) (length p)) p)"

lemma ring_put_nth:
  assumes "start < length buf" "length p \<le> length buf" "j < length buf"
  shows "ring_put start buf p ! j =
    (if start \<le> j \<and> j < start + length p then p ! (j - start)
     else if j + length buf < start + length p then p ! (j + length buf - start)
     else buf ! j)"
  using assms
  by (auto simp: ring_put_def go_copy_nth copy_at_nth min_def not_le not_less intro!: arg_cong [where f = "(!) p"])

lemma mod_ring:
  fixes a k sz :: nat
  assumes "k < sz" "0 < sz"
  shows "(a + k) mod sz = (if a mod sz + k < sz then a mod sz + k else a mod sz + k - sz)"
proof -
  define m where "m = a mod sz"
  have "m < sz" using assms(2) by (simp add: m_def)
  have "(a + k) mod sz = (m + k) mod sz" unfolding m_def by (simp only: mod_add_left_eq)
  also have "\<dots> = (if m + k < sz then m + k else m + k - sz)"
    using \<open>m < sz\<close> assms(1) by (simp add: mod_if)
  finally show ?thesis unfolding m_def .
qed

lemma ring_put_written:
  assumes "0 < length buf" "length p \<le> length buf" "k < length p"
  shows "ring_put (a mod length buf) buf p ! ((a + k) mod length buf) = p ! k"
proof -
  let ?n = "length buf" and ?j = "(a + k) mod length buf"
  have "k < ?n" using assms by simp
  then consider "?j = a mod ?n + k" "a mod ?n + k < ?n" | "?j + ?n = a mod ?n + k" "?n \<le> a mod ?n + k"
    using mod_ring [of k ?n a] assms(1) by (auto split: if_splits)
  then show ?thesis
    using assms ring_put_nth [of "a mod ?n" buf p ?j] by cases auto
qed

lemma ring_put_kept:
  assumes "0 < length buf" "length p < length buf" "d \<le> length buf - length p" "0 < d" "d \<le> a"
  shows "ring_put (a mod length buf) buf p ! ((a - d) mod length buf) = buf ! ((a - d) mod length buf)"
proof -
  define n where "n = length buf"
  define i where "i = (a - d) mod n"
  define m where "m = a mod n"
  have n: "0 < n" "length p < n" "d \<le> n - length p" "i < n" "m < n"
    using assms by (simp_all add: n_def i_def m_def)
  have split: "m = (if i + (d mod n) < n then i + (d mod n) else i + (d mod n) - n)"
    using mod_ring [of "d mod n" n "a - d"] n(1)
    unfolding mod_add_right_eq le_add_diff_inverse2 [OF assms(5)] by (simp add: i_def m_def)
  have "d < n \<or> d = n \<and> length p = 0" using n(2,3) by linarith
  then consider "d < n" | "d = n" "p = []" by auto
  then have "\<not> (m \<le> i \<and> i < m + length p) \<and> \<not> i + n < m + length p"
  proof cases
    case 1
    then have "m = i + d \<or> m + n = i + d" using split n(4) by (simp split: if_splits)
    then show ?thesis using n assms(4) by linarith
  next
    case 2
    then have "m = i" using split n(4) by simp
    with 2 n show ?thesis by simp
  qed
  then have no: "(m \<le> i \<and> i < m + length p) = False" "(i + n < m + length p) = False" by simp_all
  have "ring_put m buf p ! i = buf ! i"
    using ring_put_nth [of m buf p i, folded n_def] n(2,4,5) unfolding no by simp
  then show ?thesis unfolding m_def i_def n_def .
qed

definition rep :: "nat \<Rightarrow> replayBuffer \<Rightarrow> string \<Rightarrow> bool" where
  "rep sz r h \<longleftrightarrow> 0 < sz \<and> length (rb_buf r) = sz \<and> rb_total r = length h \<and>
     (\<forall>i < length h. length h \<le> i + sz \<longrightarrow> rb_buf r ! (i mod sz) = h ! i)"

lemma rep_new: "0 < sz \<Longrightarrow> rep sz (newReplayBuffer sz) []"
  by (simp add: rep_def newReplayBuffer_def)

lemma rb_write_simps:
  assumes "p \<noteq> []" "length (rb_buf r) = sz"
  shows "rb_buf (rb_write p r) = ring_put ((rb_total r + (length p - sz)) mod sz) (rb_buf r) (drop (length p - sz) p)"
    and "rb_total (rb_write p r) = rb_total r + length p"
  using assms by (auto simp: rb_write_def ring_put_def Let_def split: option.split)

lemma length_ring_put [simp]: "length (ring_put start buf p) = length buf"
  by (simp add: ring_put_def)

lemma rep_write:
  assumes "rep sz r h"
  shows "rep sz (rb_write p r) (h @ p)"
proof (cases "p = []")
  case True
  then show ?thesis using assms by (simp add: rb_write_def)
next
  case False
  let ?n = "length (rb_buf r)"
  define skip where "skip = length p - ?n"
  define q where "q = drop skip p"
  define a where "a = length h + skip"
  have n: "?n = sz" "0 < sz" and tot: "rb_total r = length h"
    and old: "\<And>i. i < length h \<Longrightarrow> length h \<le> i + sz \<Longrightarrow> rb_buf r ! (i mod sz) = h ! i"
    using assms by (auto simp: rep_def)
  have q: "length q \<le> sz" "length (h @ p) = a + length q" "drop a (h @ p) = q"
    by (auto simp: q_def skip_def n a_def)
  have buf: "rb_buf (rb_write p r) = ring_put (a mod sz) (rb_buf r) q"
    using rb_write_simps(1) [OF False n(1)] by (simp add: n tot q_def skip_def a_def)
  have "rb_buf (rb_write p r) ! (i mod sz) = (h @ p) ! i"
    if i: "i < length (h @ p)" "length (h @ p) \<le> i + sz" for i
  proof (cases "a \<le> i")
    case True
    then obtain k where k: "i = a + k" by (auto simp: le_iff_add)
    then have kq: "k < length q" using i(1) q(2) by simp
    have "(h @ p) ! i = q ! k"
      unfolding q(3) [symmetric] using k i(1) by (subst nth_drop) auto
    then show ?thesis
      using ring_put_written [of "rb_buf r" q k a] n q(1) kq by (simp add: buf k)
  next
    case False
    then have "length q < sz" using i q(2) by linarith
    then have "skip = 0" by (auto simp: q_def skip_def n)
    then have a: "a = length h" "q = p" by (simp_all add: a_def q_def)
    define d where "d = a - i"
    have d: "0 < d" "d \<le> a" "i = a - d" using False by (simp_all add: d_def)
    have "d \<le> sz - length q" using i q(2) d by linarith
    then have "rb_buf (rb_write p r) ! (i mod sz) = rb_buf r ! (i mod sz)"
      using ring_put_kept [of "rb_buf r" q d a] n \<open>length q < sz\<close> d by (simp add: buf)
    also have "\<dots> = h ! i" using old [of i] False a(1) i(2) q(2) by simp
    finally show ?thesis using False a(1) by (simp add: nth_append)
  qed
  then show ?thesis
    using n tot rb_write_simps(2) [OF False n(1)] by (simp add: rep_def buf n)
qed

lemma ring_get_nth:
  assumes "st < length buf" "count \<le> length buf" "j < count"
  defines "n \<equiv> min count (length buf - st)"
  shows "copy_at n (go_copy (replicate count z) (drop st buf)) (take (count - n) buf) ! j =
    buf ! (if st + j < length buf then st + j else st + j - length buf)"
proof (cases "j < n")
  case True
  then have "st + j < length buf" "j < length buf - st" using assms(1) by (auto simp: n_def)
  moreover have "n \<le> count" by (simp add: n_def)
  ultimately show ?thesis using True assms(1,2,3) by (simp add: copy_at_nth go_copy_nth)
next
  case False
  then have n: "n = length buf - st" using assms by (simp add: n_def min_def split: if_splits)
  then have "\<not> st + j < length buf" "j - n = st + j - length buf" "j < n + (count - n)" "count - n \<le> length buf" "n \<le> count"
    using False assms(1,2,3) by (simp_all add: n_def)
  with False assms(3) show ?thesis by (simp add: copy_at_nth)
qed

text \<open>A read gives the history from the later of the offset asked for and the oldest one kept.\<close>

definition kept_from :: "nat \<Rightarrow> int \<Rightarrow> string \<Rightarrow> int" where
  "kept_from sz off h =
     (if off \<ge> int (length h) then int (length h) else max (max off 0) (int (length h) - int sz))"

lemma rep_read:
  assumes "rep sz r h"
  shows "readLocked off r = (drop (nat (kept_from sz off h)) h, kept_from sz off h)"
proof (cases "off \<ge> int (length h)")
  case True
  then show ?thesis using assms by (auto simp: readLocked_def kept_from_def rep_def)
next
  case False
  show ?thesis
  proof (cases "h = []")
    case True
    then show ?thesis using assms False by (auto simp: readLocked_def kept_from_def rep_def)
  next
    case ne: False
    define o1 where "o1 = nat (kept_from sz off h)"
    define count where "count = length h - o1"
    define st where "st = o1 mod sz"
    define n where "n = min count (sz - st)"
    have r: "0 < sz" "length (rb_buf r) = sz" "rb_total r = length h"
      and old: "\<And>i. i < length h \<Longrightarrow> length h \<le> i + sz \<Longrightarrow> rb_buf r ! (i mod sz) = h ! i"
      using assms by (auto simp: rep_def)
    have "0 < length h" using ne by simp
    then have k: "kept_from sz off h = int o1" "o1 < length h" "length h \<le> o1 + sz"
      using False r(1) by (auto simp: o1_def kept_from_def max_def)
    have st: "st < sz" using r(1) by (simp add: st_def)
    have cn: "count \<le> sz" using k by (simp add: count_def)
    have eq: "readLocked off r =
        (copy_at n (go_copy (replicate count (CHR 0x00)) (drop st (rb_buf r))) (take (count - n) (rb_buf r)), int o1)"
    proof -
      have off: "(if (if off < 0 then 0 else off) < int (length h) - int sz then int (length h) - int sz
          else if off < 0 then 0 else off) = int o1"
        using k(1) False by (simp add: kept_from_def max_def split: if_splits)
      have "\<not> (if off < 0 then 0 else off) \<ge> int (length h)" using False \<open>0 < length h\<close> by simp
      moreover have "nat (int (length h) - int o1) = count" "nat (int o1 mod int sz) = st"
        by (simp_all add: count_def st_def flip: zmod_int)
      ultimately show ?thesis
        unfolding readLocked_def Let_def r(2,3) off by (simp add: n_def)
    qed
    have "copy_at n (go_copy (replicate count (CHR 0x00)) (drop st (rb_buf r))) (take (count - n) (rb_buf r)) = drop o1 h"
    proof (rule nth_equalityI)
      fix j assume "j < length (copy_at n (go_copy (replicate count (CHR 0x00)) (drop st (rb_buf r))) (take (count - n) (rb_buf r)))"
      then have j: "j < count" by simp
      have h: "rb_buf r ! ((o1 + j) mod sz) = h ! (o1 + j)"
        using old [of "o1 + j"] j k by (simp add: count_def)
      have idx: "(o1 + j) mod sz = (if st + j < sz then st + j else st + j - sz)"
        using mod_ring [of j sz o1] j cn r(1) by (simp add: st_def)
      have "copy_at n (go_copy (replicate count (CHR 0x00)) (drop st (rb_buf r))) (take (count - n) (rb_buf r)) ! j
          = rb_buf r ! ((o1 + j) mod sz)"
        using ring_get_nth [of st "rb_buf r" count j "CHR 0x00"] st cn j unfolding r(2) idx n_def by blast
      also have "\<dots> = drop o1 h ! j" using h j by (simp add: count_def)
      finally show "copy_at n (go_copy (replicate count (CHR 0x00)) (drop st (rb_buf r))) (take (count - n) (rb_buf r)) ! j
          = drop o1 h ! j" .
    qed (simp add: count_def)
    with eq k(1) show ?thesis unfolding o1_def by metis
  qed
qed

section \<open>What a viewer relies on\<close>

text \<open>
  The contract of a scrollback of \<open>sz\<close> bytes: it stands for a history, a write appends to it, and a
  read from \<open>off\<close> gives the history from the later of \<open>off\<close> and the oldest byte kept.
\<close>

locale scrollback =
  fixes sz :: nat and rep :: "'r \<Rightarrow> string \<Rightarrow> bool"
    and wr :: "string \<Rightarrow> 'r \<Rightarrow> 'r" and sub :: "int \<Rightarrow> 'r \<Rightarrow> (string \<times> int \<times> nat) \<times> 'r"
  assumes wr_rep: "rep r h \<Longrightarrow> rep (wr p r) (h @ p)"
    and sub_rep: "rep r h \<Longrightarrow> rep (snd (sub off r)) h"
    and sub_read: "rep r h \<Longrightarrow> sub off r = ((d, at, ch), r') \<Longrightarrow>
      at = kept_from sz off h \<and> d = drop (nat at) h"
begin

lemma kept_from_bounds: "off \<le> int (length h) \<Longrightarrow> 0 \<le> off \<Longrightarrow>
    off \<le> kept_from sz off h \<and> kept_from sz off h \<le> int (length h)"
  by (auto simp: kept_from_def)

lemma drain:
  assumes "rep r h" "0 \<le> nxt" "nxt \<le> int (length h)" "sub nxt r = ((d, at, ch), r')"
  shows "rep r' h" "nxt \<le> at" "at + int (length d) = int (length h)" "d = drop (nat at) h"
    and "int (length h) \<le> nxt + int sz \<Longrightarrow> at = nxt"
proof -
  have r: "at = kept_from sz nxt h" "d = drop (nat at) h" using sub_read [OF assms(1,4)] by simp_all
  show "rep r' h" using sub_rep [OF assms(1), of nxt] assms(4) by simp
  show "nxt \<le> at" "d = drop (nat at) h" using r kept_from_bounds [OF assms(3,2)] by simp_all
  show "at + int (length d) = int (length h)"
    using r kept_from_bounds [OF assms(3,2)] assms(2) by (simp add: of_nat_diff nat_le_iff)
  show "at = nxt" if "int (length h) \<le> nxt + int sz"
    using that assms(2,3) unfolding r(1) by (auto simp: kept_from_def)
qed

end

text \<open>The output of a run, and a run in which at most \<open>sz\<close> bytes come between two reads.\<close>

fun outputs :: "view_step list \<Rightarrow> string" where
  "outputs [] = []"
| "outputs (Output p # steps) = p @ outputs steps"
| "outputs (Drain # steps) = outputs steps"

fun timely :: "nat \<Rightarrow> nat \<Rightarrow> view_step list \<Rightarrow> bool" where
  "timely sz lag [] = True"
| "timely sz lag (Output p # steps) = (lag + length p \<le> sz \<and> timely sz (lag + length p) steps)"
| "timely sz lag (Drain # steps) = timely sz 0 steps"

text \<open>Frames from \<open>nxt\<close> on that show \<open>h\<close> truly: in order, without overlap, each with the bytes at its
  offset.\<close>

fun true_frames :: "string \<Rightarrow> int \<Rightarrow> (string \<times> int) list \<Rightarrow> bool" where
  "true_frames h nxt [] = True"
| "true_frames h nxt ((d, at) # fs) =
     (nxt \<le> at \<and> 0 \<le> at \<and> d = take (length d) (drop (nat at) h) \<and> true_frames h (at + int (length d)) fs)"

lemma true_frames_mono: "true_frames h n fs \<Longrightarrow> m \<le> n \<Longrightarrow> true_frames h m fs"
  by (cases fs) auto

context scrollback
begin

lemma follow_true:
  assumes "rep r h" "0 \<le> nxt" "nxt \<le> int (length h)" "follow wr sub steps nxt r = (fs, n, r')"
  shows "rep r' (h @ outputs steps) \<and> true_frames (h @ outputs steps) nxt fs \<and>
    nxt \<le> n \<and> n \<le> int (length (h @ outputs steps))"
  using assms
proof (induction steps arbitrary: r h nxt fs n r')
  case Nil
  then show ?case by simp
next
  case (Cons st steps)
  show ?case
  proof (cases st)
    case (Output p)
    have "follow wr sub steps nxt (wr p r) = (fs, n, r')" using Cons.prems(4) Output by simp
    from Cons.IH [OF wr_rep [OF Cons.prems(1)] Cons.prems(2) _ this] Cons.prems(3) Output
    show ?thesis by simp
  next
    case Drain
    obtain d at ch r1 where sub: "sub nxt r = ((d, at, ch), r1)" by (metis surj_pair)
    obtain fs1 where rest: "follow wr sub steps (at + int (length d)) r1 = (fs1, n, r')"
      and fs: "fs = (if d = [] then fs1 else (d, at) # fs1)"
      using Cons.prems(4) Drain sub by (auto split: prod.splits)
    note dr = drain [OF Cons.prems(1,2,3) sub]
    have IH: "rep r' (h @ outputs steps) \<and> true_frames (h @ outputs steps) (at + int (length d)) fs1 \<and>
        at + int (length d) \<le> n \<and> n \<le> int (length (h @ outputs steps))"
      by (rule Cons.IH [OF dr(1) _ _ rest]) (use dr Cons.prems(2) in simp_all)
    have "d = take (length d) (drop (nat at) (h @ outputs steps))"
      using dr(3,4) by simp
    then show ?thesis
      using IH fs Drain dr(2) Cons.prems(2) by (auto elim: true_frames_mono)
  qed
qed

lemma follow_timely:
  assumes "rep r h" "0 \<le> nxt" "nxt + int lag = int (length h)" "timely sz lag steps" "lag \<le> sz"
    and "follow wr sub steps nxt r = (fs, n, r')"
  shows "concat (map fst fs) = take (nat (n - nxt)) (drop (nat nxt) (h @ outputs steps))"
  using assms
proof (induction steps arbitrary: r h nxt lag fs n r')
  case Nil
  then show ?case by simp
next
  case (Cons st steps)
  show ?case
  proof (cases st)
    case (Output p)
    have "follow wr sub steps nxt (wr p r) = (fs, n, r')" using Cons.prems(6) Output by simp
    from Cons.IH [OF wr_rep [OF Cons.prems(1)] Cons.prems(2) _ _ _ this, of "lag + length p"] Cons.prems(3,4) Output
    show ?thesis by simp
  next
    case Drain
    obtain d at ch r1 where sub: "sub nxt r = ((d, at, ch), r1)" by (metis surj_pair)
    obtain fs1 where rest: "follow wr sub steps (at + int (length d)) r1 = (fs1, n, r')"
      and fs: "fs = (if d = [] then fs1 else (d, at) # fs1)"
      using Cons.prems(6) Drain sub by (auto split: prod.splits)
    have le: "nxt \<le> int (length h)" using Cons.prems(3) by simp
    note dr = drain [OF Cons.prems(1,2) le sub]
    have at: "at = nxt" using dr(5) Cons.prems(3,5) by simp
    let ?m = "at + int (length d)"
    have m: "?m = int (length h)" by (rule dr(3))
    have IH: "concat (map fst fs1) = take (nat (n - ?m)) (drop (nat ?m) (h @ outputs steps))"
      by (rule Cons.IH [OF dr(1) _ _ _ _ rest, of 0]) (use m Cons.prems(2,4) at Drain in simp_all)
    have "?m \<le> n"
      using follow_true [OF dr(1) _ _ rest] m by simp
    define k where "k = nat (n - ?m)"
    have "concat (map fst fs) = d @ take k (drop (nat ?m) (h @ outputs steps))"
      using IH fs by (simp add: k_def)
    also have "\<dots> = take (length d + k) (drop (nat nxt) (h @ outputs steps))"
      using dr(4) m at by simp
    also have "length d + k = nat (n - nxt)"
      using \<open>?m \<le> n\<close> at by (simp add: k_def)
    finally show ?thesis using Drain by simp
  qed
qed

end

section \<open>The ring meets the contract\<close>

lemma rep_subscribe: "rep sz r h \<Longrightarrow> rep sz (snd (readAndSubscribe off r)) h"
  by (auto simp: readAndSubscribe_def rep_def split: prod.split option.split)

interpretation ring: scrollback sz "rep sz" rb_write readAndSubscribe for sz
proof unfold_locales
  show "at = kept_from sz off h \<and> d = drop (nat at) h"
    if "rep sz r h" "readAndSubscribe off r = ((d, at, ch), r')" for r h off d at ch r'
    using rep_read [OF that(1), of off] that(2) by (auto simp: readAndSubscribe_def Let_def)
qed (simp_all add: rep_write rep_subscribe)

lemma rep_writes: "rep sz r h \<Longrightarrow> rep sz (fold rb_write ws r) (h @ concat ws)"
  by (induction ws arbitrary: r h) (simp_all add: rep_write flip: append_assoc)

text \<open>
  (C39) Whatever was written to a terminal in whatever chunks, a read from an offset gives everything that
  was ever printed from that offset on, or from the oldest byte kept when that is later, and says
  which offset that is; an oversized chunk and a negative or future offset included.\<close>

theorem replay_refines_history:
  assumes "0 < sz"
  shows "readFrom off (fold rb_write ws (newReplayBuffer sz)) =
    (drop (nat (kept_from sz off (concat ws))) (concat ws), kept_from sz off (concat ws))"
  using rep_read [OF rep_writes [OF rep_new [OF assms]]] by simp

theorem replay_refines_history_witness:
  "readFrom 1 (fold rb_write [''ab'', ''cdefgh'', ''i''] (newReplayBuffer 4)) = (''fghi'', 5)"
proof -
  have "(0 :: nat) < 4" by simp
  from replay_refines_history [OF this, of 1 "[''ab'', ''cdefgh'', ''i'']"] show ?thesis
    by (simp add: kept_from_def)
qed

text \<open>
  A viewer of a terminal that has printed \<open>h\<close> and attaches at an offset of it is sent frames that
  show the output truly: in order, without overlap, each with the bytes at the offset it names,
  however far the viewer falls behind. If at most a buffer's size comes between two of its reads, the
  frames put together are the output itself, without a gap.\<close>

theorem viewer_sees_the_output:
  assumes "0 < sz" "h = concat ws" "0 \<le> nxt" "nxt \<le> int (length h)"
    and "follow rb_write readAndSubscribe steps nxt (fold rb_write ws (newReplayBuffer sz)) = (fs, n, r)"
  shows "true_frames (h @ outputs steps) nxt fs \<and> nxt \<le> n \<and> n \<le> int (length (h @ outputs steps)) \<and>
    (timely sz (length h - nat nxt) steps \<and> length h - nat nxt \<le> sz \<longrightarrow>
      concat (map fst fs) = take (nat (n - nxt)) (drop (nat nxt) (h @ outputs steps)))"
proof -
  have rep: "rep sz (fold rb_write ws (newReplayBuffer sz)) h"
    using rep_writes [OF rep_new [OF assms(1)], of ws] assms(2) by simp
  have lag: "nxt + int (length h - nat nxt) = int (length h)" using assms(3,4) by simp
  show ?thesis
    using ring.follow_true [OF rep assms(3,4,5)] ring.follow_timely [OF rep assms(3) lag _ _ assms(5)] by blast
qed

theorem viewer_sees_the_output_witness:
  "concat (map fst (fst (follow rb_write readAndSubscribe [Drain, Output ''de'', Drain, Output ''fgh'', Drain] 1
     (fold rb_write [''abc''] (newReplayBuffer 4))))) = ''bcdefgh''"
proof -
  let ?f = "follow rb_write readAndSubscribe [Drain, Output ''de'', Drain, Output ''fgh'', Drain] 1
     (fold rb_write [''abc''] (newReplayBuffer 4))"
  obtain fs n r where f: "?f = (fs, n, r)" by (metis surj_pair)
  have "fst (snd ?f) = 8" by code_simp
  then have n: "n = 8" using f by simp
  have "(0 :: nat) < 4" "''abc'' = concat [''abc'']" "(0 :: int) \<le> 1" "(1 :: int) \<le> int (length ''abc'')" by simp_all
  from viewer_sees_the_output [OF this f] n show ?thesis using f by simp
qed

section \<open>No wake-up is lost\<close>

text \<open>Any operation on the buffer, by its writer or by another reader.\<close>

datatype rb_op = Write string | Read int | Subscribe int

fun rb_run :: "rb_op \<Rightarrow> replayBuffer \<Rightarrow> replayBuffer" where
  "rb_run (Write p) r = rb_write p r"
| "rb_run (Read off) r = r"
| "rb_run (Subscribe off) r = snd (readAndSubscribe off r)"

fun wakes :: "rb_op \<Rightarrow> bool" where
  "wakes (Write p) = (p \<noteq> [])"
| "wakes _ = False"

definition chan_inv :: "replayBuffer \<Rightarrow> bool" where
  "chan_inv r \<longleftrightarrow> (\<forall>c \<in> set (rb_closed r). c < rb_fresh r) \<and>
     (case rb_changed r of None \<Rightarrow> True | Some c \<Rightarrow> c < rb_fresh r \<and> c \<notin> set (rb_closed r))"

lemma rb_write_chan:
  "rb_closed (rb_write p r) = (if p \<noteq> [] then (case rb_changed r of None \<Rightarrow> rb_closed r | Some c \<Rightarrow> c # rb_closed r) else rb_closed r)"
  "rb_changed (rb_write p r) = (if p \<noteq> [] then None else rb_changed r)"
  "rb_fresh (rb_write p r) = rb_fresh r"
  by (auto simp: rb_write_def Let_def split: option.split)

lemma subscribe_chan:
  "rb_closed (snd (readAndSubscribe off r)) = rb_closed r"
  "rb_changed (snd (readAndSubscribe off r)) =
     Some (case rb_changed r of None \<Rightarrow> rb_fresh r | Some c \<Rightarrow> c)"
  "rb_fresh (snd (readAndSubscribe off r)) = (case rb_changed r of None \<Rightarrow> Suc (rb_fresh r) | Some _ \<Rightarrow> rb_fresh r)"
  by (auto simp: readAndSubscribe_def split: prod.split option.split)

lemma chan_inv_run: "chan_inv r \<Longrightarrow> chan_inv (rb_run x r)"
  by (cases x) (auto simp: chan_inv_def rb_write_chan subscribe_chan split: option.split)

lemma chan_inv_runs: "chan_inv r \<Longrightarrow> chan_inv (fold rb_run xs r)"
  by (induction xs arbitrary: r) (simp_all add: chan_inv_run)

lemma closed_stays: "c \<in> set (rb_closed r) \<Longrightarrow> c \<in> set (rb_closed (fold rb_run xs r))"
proof (induction xs arbitrary: r)
  case (Cons x xs)
  have "c \<in> set (rb_closed (rb_run x r))"
    using Cons.prems by (cases x) (auto simp: rb_write_chan subscribe_chan split: option.split)
  then show ?case using Cons.IH by simp
qed simp

lemma closed_iff_woken:
  assumes "chan_inv r" "rb_changed r = Some c"
  shows "c \<in> set (rb_closed (fold rb_run xs r)) \<longleftrightarrow> (\<exists>x \<in> set xs. wakes x)"
  using assms
proof (induction xs arbitrary: r)
  case Nil
  then show ?case by (simp add: chan_inv_def)
next
  case (Cons x xs)
  show ?case
  proof (cases "wakes x")
    case True
    then have "c \<in> set (rb_closed (rb_run x r))"
      using Cons.prems(2) by (cases x) (auto simp: rb_write_chan)
    then show ?thesis using True closed_stays by simp
  next
    case False
    then have "rb_changed (rb_run x r) = Some c"
      using Cons.prems(2) by (cases x) (auto simp: rb_write_chan subscribe_chan)
    from Cons.IH [OF chan_inv_run [OF Cons.prems(1)] this] False show ?thesis by simp
  qed
qed

text \<open>
  The channel a reader subscribes to is closed exactly when something is written after its read,
  whatever other readers and writers do: no write in between is missed, and no reader is woken for
  nothing.\<close>

theorem subscriber_woken_by_next_write:
  assumes "r = fold rb_run xs (newReplayBuffer sz)" "readAndSubscribe off r = ((d, at, ch), r')"
  shows "ch \<notin> set (rb_closed r') \<and>
    (ch \<in> set (rb_closed (fold rb_run ys r')) \<longleftrightarrow> (\<exists>y \<in> set ys. wakes y))"
proof -
  have "chan_inv (newReplayBuffer sz)" by (simp add: chan_inv_def newReplayBuffer_def)
  then have "chan_inv r" unfolding assms(1) by (rule chan_inv_runs)
  then have inv: "chan_inv r'" using chan_inv_run [of r "Subscribe off"] assms(2) by simp
  have "rb_changed r' = Some ch"
    using assms(2) by (auto simp: readAndSubscribe_def split: prod.splits option.splits)
  with inv closed_iff_woken [OF inv this] show ?thesis by (simp add: chan_inv_def)
qed

theorem subscriber_woken_witness:
  "0 \<in> set (rb_closed (fold rb_run [Subscribe 0, Write ''x''] (snd (readAndSubscribe 0 (newReplayBuffer 4)))))"
proof -
  have "fst (readAndSubscribe 0 (newReplayBuffer 4)) = ('''', 0, 0)" by code_simp
  then have "readAndSubscribe 0 (newReplayBuffer 4) = (('''', 0, 0), snd (readAndSubscribe 0 (newReplayBuffer 4)))"
    by (metis prod.collapse)
  from subscriber_woken_by_next_write [where xs = "[]" and sz = 4 and ys = "[Subscribe 0, Write ''x'']", OF _ this]
  show ?thesis by simp
qed

section \<open>Lines\<close>

text \<open>
  The reference: line ends of every kind become \<open>LF\<close>, the text is split there, an empty line is sent
  as \<open>LF\<close> and what follows the last line end only if there is something.
\<close>

fun unix :: "bool \<Rightarrow> string \<Rightarrow> string" where
  "unix cr [] = []"
| "unix cr (c # s) =
     (if c = CR then LF # unix True s
      else if c = LF \<and> cr then unix False s
      else c # unix False s)"

definition line_events :: "string list \<Rightarrow> string list" where
  "line_events ls = map (\<lambda>l. if l = [] then [LF] else l) (butlast ls) @ (if last ls = [] then [] else [last ls])"

lemma line_events_Cons: "ls \<noteq> [] \<Longrightarrow> line_events (l # ls) = (if l = [] then [LF] else l) # line_events ls"
  by (simp add: line_events_def)

lemma Split_prefix: "c \<notin> set p \<Longrightarrow> \<exists>w ws. Split (p @ s) c = (p @ w) # ws"
proof (induction p)
  case Nil
  then show ?case by (metis Split_ne append_Nil neq_Nil_conv)
next
  case (Cons x p)
  then show ?case by fastforce
qed

lemma ls_byte_end:
  assumes "c = LF \<or> c = CR" "\<not> (c = LF \<and> ls_lastCR l)"
  shows "ls_emitted (ls_byte lim c l) = ls_emitted l @ [if ls_pending l = [] then [LF] else ls_pending l]"
    "ls_pending (ls_byte lim c l) = []" "ls_lastCR (ls_byte lim c l) = (c = CR)"
  using assms by (auto simp: ls_byte_def ls_emit_def Let_def)

lemma ls_byte_second:
  assumes "ls_lastCR l" "ls_pending l = []"
  shows "ls_byte lim LF l = l\<lparr>ls_lastCR := False\<rparr>"
  using assms by (simp add: ls_byte_def)

lemma ls_fold_lines:
  assumes "LF \<notin> set (ls_pending l)" "ls_lastCR l \<longrightarrow> ls_pending l = []"
    and "\<forall>w \<in> set (Split (ls_pending l @ unix (ls_lastCR l) s) LF). length w < lim"
  shows "ls_emitted (ls_flush (fold (ls_byte lim) s l)) =
    ls_emitted l @ line_events (Split (ls_pending l @ unix (ls_lastCR l) s) LF)"
  using assms
proof (induction s arbitrary: l)
  case Nil
  then show ?case by (simp add: ls_flush_def ls_emit_def Split_none line_events_def)
next
  case (Cons c s)
  let ?l = "ls_byte lim c l"
  consider (cr) "c = CR" | (skip) "c = LF" "ls_lastCR l" | (lf) "c = LF" "\<not> ls_lastCR l"
    | (byte) "c \<noteq> CR" "c \<noteq> LF" by blast
  then show ?case
  proof cases
    case cr
    note ends = ls_byte_end [of c l lim]
    have sp: "Split (ls_pending l @ unix (ls_lastCR l) (c # s)) LF = ls_pending l # Split (unix True s) LF"
      using Cons.prems(1) cr by (simp add: Split_append)
    have "ls_emitted (ls_flush (fold (ls_byte lim) s ?l)) =
        ls_emitted ?l @ line_events (Split (ls_pending ?l @ unix (ls_lastCR ?l) s) LF)"
      by (rule Cons.IH) (use Cons.prems(3) sp cr ends in auto)
    then show ?thesis using sp cr ends by (simp add: line_events_Cons)
  next
    case skip
    have l: "?l = l\<lparr>ls_lastCR := False\<rparr>" using skip Cons.prems(2) ls_byte_second by simp
    have "ls_emitted (ls_flush (fold (ls_byte lim) s ?l)) =
        ls_emitted ?l @ line_events (Split (ls_pending ?l @ unix (ls_lastCR ?l) s) LF)"
      by (rule Cons.IH) (use Cons.prems skip l in auto)
    then show ?thesis using skip l by simp
  next
    case lf
    note ends = ls_byte_end [of c l lim]
    have sp: "Split (ls_pending l @ unix (ls_lastCR l) (c # s)) LF = ls_pending l # Split (unix False s) LF"
      using Cons.prems(1) lf by (simp add: Split_append)
    have "ls_emitted (ls_flush (fold (ls_byte lim) s ?l)) =
        ls_emitted ?l @ line_events (Split (ls_pending ?l @ unix (ls_lastCR ?l) s) LF)"
      by (rule Cons.IH) (use Cons.prems(3) sp lf ends in auto)
    then show ?thesis using sp lf ends by (simp add: line_events_Cons)
  next
    case byte
    let ?p = "ls_pending l @ [c]"
    have p: "LF \<notin> set ?p" using Cons.prems(1) byte by simp
    have eq: "ls_pending l @ unix (ls_lastCR l) (c # s) = ?p @ unix False s" using byte by simp
    have "length ?p < lim"
    proof -
      obtain w ws where "Split (?p @ unix False s) LF = (?p @ w) # ws"
        using p Split_prefix by blast
      then show ?thesis using Cons.prems(3) eq by auto
    qed
    then have l: "?l = l\<lparr>ls_lastCR := False, ls_pending := ?p\<rparr>"
      using byte by (simp add: ls_byte_def)
    have "ls_emitted (ls_flush (fold (ls_byte lim) s ?l)) =
        ls_emitted ?l @ line_events (Split (ls_pending ?l @ unix (ls_lastCR ?l) s) LF)"
      by (rule Cons.IH) (use Cons.prems(3) p eq l in auto)
    then show ?thesis using l eq by simp
  qed
qed

lemma fold_ls_write: "fold (ls_write lim) chunks l = fold (ls_byte lim) (concat chunks) l"
  by (induction chunks arbitrary: l) (simp_all add: ls_write_def)

text \<open>
  (C40) However a command's output is cut into reads, the events sent for it are its lines: \<open>CR\<close>, \<open>LF\<close> and
  \<open>CRLF\<close> each end one, also when a read ends between the two bytes, an empty line is sent as a line
  feed, and an unfinished last line is sent at the end. This is for lines below the limit.\<close>

theorem output_events_are_its_lines:
  assumes "\<forall>w \<in> set (Split (unix False (concat chunks)) LF). length w < lim"
  shows "pump lim chunks = line_events (Split (unix False (concat chunks)) LF)"
  using ls_fold_lines [of "\<lparr>ls_emitted = [], ls_pending = [], ls_lastCR = False\<rparr>" "concat chunks" lim] assms
  by (simp add: pump_def fold_ls_write)

theorem output_events_witness:
  "pump 4 [[CHR ''a'', CR], [LF, CHR ''b''], [LF, LF, CHR ''c'']] = [''a'', ''b'', [LF], ''c'']"
proof -
  have "\<forall>w \<in> set (Split (unix False (concat [[CHR ''a'', CR], [LF, CHR ''b''], [LF, LF, CHR ''c'']])) LF). length w < 4"
    by simp
  from output_events_are_its_lines [OF this] show ?thesis by (simp add: line_events_def)
qed

definition splitter_inv :: "nat \<Rightarrow> string \<Rightarrow> lineSplitter \<Rightarrow> bool" where
  "splitter_inv lim s l \<longleftrightarrow>
     length (ls_pending l) < lim \<and> (\<forall>e \<in> set (ls_emitted l). e \<noteq> [] \<and> length e \<le> lim) \<and>
     filter (\<lambda>b. b \<noteq> LF \<and> b \<noteq> CR) (concat (ls_emitted l)) @ ls_pending l = filter (\<lambda>b. b \<noteq> LF \<and> b \<noteq> CR) s \<and>
     set (ls_pending l) \<inter> {LF, CR} = {}"

lemma splitter_inv_byte:
  assumes "splitter_inv lim s l"
  shows "splitter_inv lim (s @ [b]) (ls_byte lim b l)"
proof -
  have filt: "filter (\<lambda>b. b \<noteq> LF \<and> b \<noteq> CR) (ls_pending l) = ls_pending l"
    using assms by (auto simp: splitter_inv_def filter_id_conv)
  have lim: "0 < lim" using assms by (auto simp: splitter_inv_def)
  consider (second) "b = LF" "ls_lastCR l" "ls_pending l = []"
    | (ends) "b = LF \<or> b = CR" "\<not> (b = LF \<and> ls_lastCR l \<and> ls_pending l = [])"
    | (full) "b \<noteq> LF" "b \<noteq> CR" "lim \<le> Suc (length (ls_pending l))"
    | (short) "b \<noteq> LF" "b \<noteq> CR" "Suc (length (ls_pending l)) < lim" by linarith
  then show ?thesis
  proof cases
    case second
    then show ?thesis using assms by (simp add: ls_byte_second splitter_inv_def)
  next
    case ends
    then have "ls_emitted (ls_byte lim b l) = ls_emitted l @ [if ls_pending l = [] then [LF] else ls_pending l]"
      "ls_pending (ls_byte lim b l) = []"
      by (auto simp: ls_byte_def ls_emit_def Let_def)
    moreover have "(b \<noteq> LF \<and> b \<noteq> CR) = False" using ends(1) by simp
    ultimately show ?thesis
      using assms filt lim by (cases "ls_pending l = []") (simp_all add: splitter_inv_def ball_Un)
  next
    case full
    then have "ls_byte lim b l = l\<lparr>ls_lastCR := False, ls_pending := [], ls_emitted := ls_emitted l @ [ls_pending l @ [b]]\<rparr>"
      by (simp add: ls_byte_def ls_emit_def)
    with assms filt lim full show ?thesis by (auto simp: splitter_inv_def)
  next
    case short
    then have "ls_byte lim b l = l\<lparr>ls_lastCR := False, ls_pending := ls_pending l @ [b]\<rparr>"
      by (simp add: ls_byte_def)
    with assms short show ?thesis by (simp add: splitter_inv_def)
  qed
qed

lemma splitter_inv_fold:
  "splitter_inv lim s l \<Longrightarrow> splitter_inv lim (s @ t) (fold (ls_byte lim) t l)"
proof (induction t arbitrary: s l)
  case (Cons b t)
  from Cons.IH [OF splitter_inv_byte [OF Cons.prems]] show ?case by simp
qed simp

text \<open>
  Whatever a command prints, a line event is never empty and never longer than the limit, and no byte
  of the output other than line ends is lost, doubled or moved.\<close>

theorem output_events_bounded:
  assumes "0 < lim"
  shows "(\<forall>e \<in> set (pump lim chunks). e \<noteq> [] \<and> length e \<le> lim) \<and>
    filter (\<lambda>b. b \<noteq> LF \<and> b \<noteq> CR) (concat (pump lim chunks)) =
      filter (\<lambda>b. b \<noteq> LF \<and> b \<noteq> CR) (concat chunks)"
proof -
  define l0 where "l0 = \<lparr>ls_emitted = [], ls_pending = [], ls_lastCR = False\<rparr>"
  let ?l = "fold (ls_byte lim) (concat chunks) l0"
  have "splitter_inv lim [] l0" using assms by (simp add: splitter_inv_def l0_def)
  from splitter_inv_fold [OF this, of "concat chunks"]
  have inv: "splitter_inv lim (concat chunks) ?l" by simp
  then have "filter (\<lambda>b. b \<noteq> LF \<and> b \<noteq> CR) (ls_pending ?l) = ls_pending ?l"
    by (auto simp: splitter_inv_def filter_id_conv)
  with inv show ?thesis
    by (auto simp: pump_def fold_ls_write splitter_inv_def ls_flush_def ls_emit_def l0_def [symmetric])
qed

theorem output_events_bounded_witness:
  "concat (pump 3 [''abcde'']) = ''abcde''"
proof -
  have "filter (\<lambda>b. b \<noteq> LF \<and> b \<noteq> CR) (concat (pump 3 [''abcde''])) = ''abcde''"
    using output_events_bounded [of 3 "[''abcde'']"] by simp
  moreover have "filter (\<lambda>b. b \<noteq> LF \<and> b \<noteq> CR) (concat (pump 3 [''abcde''])) = concat (pump 3 [''abcde''])"
    by code_simp
  ultimately show ?thesis by simp
qed

text \<open>A line of exactly the limit is followed by a blank line that the command did not print.\<close>

lemma ls_fold_pending:
  "set s \<inter> {LF, CR} = {} \<Longrightarrow> length (ls_pending l) + length s < lim \<Longrightarrow> s \<noteq> [] \<Longrightarrow>
   fold (ls_byte lim) s l = l\<lparr>ls_lastCR := False, ls_pending := ls_pending l @ s\<rparr>"
proof (induction s arbitrary: l)
  case (Cons b s)
  then show ?case by (cases "s = []") (auto simp: ls_byte_def)
qed simp

lemma line_of_the_limit_gains_a_blank:
  assumes "set s \<inter> {LF, CR} = {}" "length s = lim" "1 < lim"
  shows "pump lim [s @ [LF]] = [s, [LF]]"
proof -
  obtain s1 b where s: "s = s1 @ [b]" using assms(2,3) by (cases s rule: rev_cases) auto
  have "fold (ls_byte lim) s1 \<lparr>ls_emitted = [], ls_pending = [], ls_lastCR = False\<rparr> =
      \<lparr>ls_emitted = [], ls_pending = s1, ls_lastCR = False\<rparr>"
    using assms s by (subst ls_fold_pending) auto
  then show ?thesis
    using assms s by (auto simp: pump_def ls_write_def ls_byte_def ls_emit_def ls_flush_def)
qed

end
