(* ===== verification/Fc_Extract.thy ===== *)
theory Fc_Extract
  imports Go_Strings
begin

text \<open>
  Unpacking the exported file system of an image on the host (\<^verbatim>\<open>internal/fc/extract.go\<close>): \<open>safeJoin\<close> and
  \<open>extractTar\<close>, on a file system with symbolic links.
  \<^item> A path is the list of its components. A file system says what stands at each physical path, one
    that leads through no link, and \<open>walk\<close> finds the physical path of any other, as the kernel does:
    a link is followed from where it stands, and forty of them at most.
  \<^item> A call is a function of the file system with a result or an error, which leaves what was done
    before it failed (\<open>io\<close>); what is shown of a whole extraction is put together from its calls by
    rules in the manner of Hoare.
  \<^item> A hard link is a second entry with the same contents. The archive is a list of entries, and the
    extraction runs as root, so that a call fails only for what stands in the tree.
\<close>

section \<open>The file system\<close>

type_synonym path = "string list"

datatype inode = Directory | Regular string | Symlink bool path

record meta =
  mt_uid :: int
  mt_gid :: int
  mt_mode :: int

record fs =
  fs_node :: "path \<Rightarrow> inode option"
  fs_meta :: "path \<Rightarrow> meta"
  fs_paths :: "path list"

datatype io_error = Not_exist | Not_dir | Exists | Is_dir | Too_many_links | Escapes | Through_link

text \<open>\<open>Symlink ab target\<close> is a link to \<open>target\<close>, from the root of the host if \<open>ab\<close>. A walk fails on
  more than \<open>n\<close> links and on a directory that is missing or is none; the last component need not
  exist. \<open>fs_paths\<close> lists the paths that may exist.\<close>

function walk :: "nat \<Rightarrow> fs \<Rightarrow> path \<Rightarrow> path \<Rightarrow> (io_error, path) res" where
  "walk n f cur [] = Inr cur"
| "walk n f cur (c # cs) =
     (if c = ''.'' \<or> c = [] then walk n f cur cs
      else if c = ''..'' then walk n f (butlast cur) cs
      else (case fs_node f (cur @ [c]) of
          Some (Symlink ab target) \<Rightarrow>
            (if n = 0 then Inl Too_many_links else walk (n - 1) f (if ab then [] else cur) (target @ cs))
        | Some Directory \<Rightarrow> walk n f (cur @ [c]) cs
        | Some (Regular _) \<Rightarrow> if cs = [] then Inr (cur @ [c]) else Inl Not_dir
        | None \<Rightarrow> if cs = [] then Inr (cur @ [c]) else Inl Not_exist))"
  by pat_completeness auto
termination by (relation "measures [\<lambda>(n, f, cur, cs). n, \<lambda>(n, f, cur, cs). length cs]") auto

declare walk.simps [simp del]

text \<open>Where a call works that follows a link in the last component, and one that does not.\<close>

definition followed :: "fs \<Rightarrow> path \<Rightarrow> (io_error, path) res" where
  "followed f p = walk 40 f [] p"

definition place :: "fs \<Rightarrow> path \<Rightarrow> (io_error, path) res" where
  "place f p = bind_res (followed f (butlast p)) (\<lambda>d. case fs_node f d of
       Some Directory \<Rightarrow> Inr (d @ [last p])
     | None \<Rightarrow> Inl Not_exist
     | Some _ \<Rightarrow> Inl Not_dir)"

section \<open>Calls\<close>

type_synonym 'a io = "fs \<Rightarrow> (io_error, 'a) res \<times> fs"

definition ret :: "'a \<Rightarrow> 'a io" where "ret a = (\<lambda>f. (Inr a, f))"

definition throw :: "io_error \<Rightarrow> 'a io" where "throw e = (\<lambda>f. (Inl e, f))"

definition bind_io :: "'a io \<Rightarrow> ('a \<Rightarrow> 'b io) \<Rightarrow> 'b io" where
  "bind_io m k = (\<lambda>f. case m f of (Inl e, g) \<Rightarrow> (Inl e, g) | (Inr a, g) \<Rightarrow> k a g)"

definition asks :: "(fs \<Rightarrow> (io_error, 'a) res) \<Rightarrow> 'a io" where "asks q = (\<lambda>f. (q f, f))"

definition modify :: "(fs \<Rightarrow> fs) \<Rightarrow> unit io" where "modify h = (\<lambda>f. (Inr (), h f))"

text \<open>A call whose error is ignored: \<open>_ = os.Remove(p)\<close>.\<close>

definition attempt :: "unit io \<Rightarrow> unit io" where "attempt m = (\<lambda>f. (Inr (), snd (m f)))"

fun for_each :: "'a list \<Rightarrow> ('a \<Rightarrow> unit io) \<Rightarrow> unit io" where
  "for_each [] g = ret ()"
| "for_each (x # xs) g = bind_io (g x) (\<lambda>_. for_each xs g)"

definition node_at :: "(fs \<Rightarrow> path \<Rightarrow> (io_error, path) res) \<Rightarrow> path \<Rightarrow> (path \<times> inode option) io" where
  "node_at to p = asks (\<lambda>f. bind_res (to f p) (\<lambda>r. Inr (r, fs_node f r)))"

definition set_node :: "path \<Rightarrow> inode option \<Rightarrow> fs \<Rightarrow> fs" where
  "set_node r x f = f\<lparr>fs_node := (fs_node f)(r := x), fs_paths := r # fs_paths f\<rparr>"

definition Lstat :: "path \<Rightarrow> inode io" where
  "Lstat p = bind_io (node_at place p) (\<lambda>(r, x). case x of None \<Rightarrow> throw Not_exist | Some i \<Rightarrow> ret i)"

text \<open>\<open>os.Mkdir\<close>, \<open>os.Symlink\<close> and \<open>os.Link\<close>: nothing may stand there yet.\<close>

definition make_at :: "inode \<Rightarrow> path \<Rightarrow> unit io" where
  "make_at i p = bind_io (node_at place p) (\<lambda>(r, x).
     if x = None then modify (set_node r (Some i)) else throw Exists)"

definition Link :: "path \<Rightarrow> path \<Rightarrow> unit io" where
  "Link target p = bind_io (Lstat target) (\<lambda>i. if i = Directory then throw Is_dir else make_at i p)"

text \<open>\<open>os.MkdirAll\<close>: the prefixes of the path in turn.\<close>

definition mkdir_step :: "path \<Rightarrow> unit io" where
  "mkdir_step p = bind_io (node_at followed p) (\<lambda>(r, x). case x of
       Some Directory \<Rightarrow> ret ()
     | Some _ \<Rightarrow> throw Not_dir
     | None \<Rightarrow> make_at Directory p)"

definition MkdirAll :: "path \<Rightarrow> unit io" where
  "MkdirAll p = for_each (tl (prefixes p)) mkdir_step"

text \<open>\<open>os.OpenFile\<close> with \<open>O_CREATE | O_WRONLY | O_TRUNC\<close> and what is then copied into the file: a link
  in the last component is followed.\<close>

definition write_file :: "path \<Rightarrow> string \<Rightarrow> unit io" where
  "write_file p content = bind_io (node_at followed p) (\<lambda>(r, x).
     if x = Some Directory then throw Is_dir else modify (set_node r (Some (Regular content))))"

definition has_children :: "fs \<Rightarrow> path \<Rightarrow> bool" where
  "has_children f r = list_ex (\<lambda>q. q \<noteq> [] \<and> butlast q = r \<and> fs_node f q \<noteq> None) (fs_paths f)"

definition os_Remove :: "path \<Rightarrow> unit io" where
  "os_Remove p = bind_io (node_at place p) (\<lambda>(r, x).
     if x = None then throw Not_exist
     else bind_io (asks (\<lambda>f. Inr (has_children f r))) (\<lambda>full.
       if x = Some Directory \<and> full then throw Exists else modify (set_node r None)))"

text \<open>\<open>Lchown\<close> works on a link itself, \<open>Chmod\<close> on what it leads to.\<close>

definition set_meta :: "path \<Rightarrow> (meta \<Rightarrow> meta) \<Rightarrow> fs \<Rightarrow> fs" where
  "set_meta r u f = f\<lparr>fs_meta := (fs_meta f)(r := u (fs_meta f r))\<rparr>"

definition Lchown :: "path \<Rightarrow> int \<Rightarrow> int \<Rightarrow> unit io" where
  "Lchown p uid gid = bind_io (node_at place p) (\<lambda>(r, x).
     if x = None then throw Not_exist else modify (set_meta r (\<lambda>m. m\<lparr>mt_uid := uid, mt_gid := gid\<rparr>)))"

definition Chmod :: "path \<Rightarrow> int \<Rightarrow> unit io" where
  "Chmod p mode = bind_io (node_at followed p) (\<lambda>(r, x).
     if x = None then throw Not_exist else modify (set_meta r (\<lambda>m. m\<lparr>mt_mode := mode\<rparr>)))"

section \<open>The archive\<close>

datatype typeflag = TypeDir | TypeReg | TypeSymlink | TypeLink | TypeOther

record tar_header =
  th_Name :: string
  th_Typeflag :: typeflag
  th_Linkname :: string
  th_Uid :: int
  th_Gid :: int
  th_Mode :: int
  th_body :: string

text \<open>The components of \<open>filepath.Clean("/" + name)\<close>.\<close>

definition clean_step :: "string \<Rightarrow> path \<Rightarrow> path" where
  "clean_step c acc = (if c = [] \<or> c = ''.'' then acc else if c = ''..'' then butlast acc else acc @ [c])"

definition Clean :: "string \<Rightarrow> path" where
  "Clean name = fold clean_step (Split name CHR ''/'') []"

text \<open>\<open>safeJoin\<close>: the loop over the directories on the way, which stops at the first that is not
  there. For the root itself the relative path of its parent is one step up.\<close>

fun no_links :: "path list \<Rightarrow> unit io" where
  "no_links [] = ret ()"
| "no_links (q # qs) = (\<lambda>f. case Lstat q f of
       (Inl Not_exist, g) \<Rightarrow> (Inr (), g)
     | (Inl e, g) \<Rightarrow> (Inl e, g)
     | (Inr (Symlink _ _), g) \<Rightarrow> (Inl Through_link, g)
     | (Inr _, g) \<Rightarrow> no_links qs g)"

definition safeJoin :: "path \<Rightarrow> string \<Rightarrow> path io" where
  "safeJoin root name =
     (let p = root @ Clean name in
      if \<not> prefix root p then throw Escapes
      else if butlast p = root then ret p
      else bind_io
        (if p = root then no_links [butlast root]
         else no_links (map (\<lambda>q. root @ q) (tl (prefixes (butlast (Clean name))))))
        (\<lambda>_. ret p))"

definition applyMeta :: "bool \<Rightarrow> path \<Rightarrow> tar_header \<Rightarrow> unit io" where
  "applyMeta chown p h =
     bind_io (if chown then Lchown p (th_Uid h) (th_Gid h) else ret ()) (\<lambda>_. Chmod p (th_Mode h))"

definition read_link :: "string \<Rightarrow> inode" where
  "read_link s = Symlink (HasPrefix s ''/'') (Split s CHR ''/'')"

text \<open>One entry; it says which directory's mode is to be set at the end, if any.\<close>

definition extract_entry :: "path \<Rightarrow> bool \<Rightarrow> tar_header \<Rightarrow> path list io" where
  "extract_entry dst chown h =
     bind_io (safeJoin dst (th_Name h)) (\<lambda>p.
       if p = dst then ret []
       else bind_io (MkdirAll (butlast p)) (\<lambda>_.
         case th_Typeflag h of
           TypeDir \<Rightarrow> bind_io (MkdirAll p) (\<lambda>_. ret [p])
         | TypeReg \<Rightarrow> bind_io (write_file p (th_body h)) (\<lambda>_. bind_io (applyMeta chown p h) (\<lambda>_. ret []))
         | TypeSymlink \<Rightarrow> bind_io (attempt (os_Remove p)) (\<lambda>_.
             bind_io (make_at (read_link (th_Linkname h)) p) (\<lambda>_.
             bind_io (if chown then attempt (Lchown p (th_Uid h) (th_Gid h)) else ret ()) (\<lambda>_. ret [])))
         | TypeLink \<Rightarrow> bind_io (safeJoin dst (th_Linkname h)) (\<lambda>target.
             bind_io (attempt (os_Remove p)) (\<lambda>_. bind_io (Link target p) (\<lambda>_. ret [])))
         | TypeOther \<Rightarrow> ret []))"

text \<open>The loop over the archive; \<open>dirs\<close> are the directories met so far, the latest first.\<close>

fun extract_all :: "path \<Rightarrow> bool \<Rightarrow> tar_header list \<Rightarrow> (path \<times> tar_header) list \<Rightarrow> (path \<times> tar_header) list io" where
  "extract_all dst chown [] dirs = ret dirs"
| "extract_all dst chown (h # hs) dirs =
     bind_io (extract_entry dst chown h) (\<lambda>ps. extract_all dst chown hs (map (\<lambda>p. (p, h)) ps @ dirs))"

definition extractTar :: "path \<Rightarrow> bool \<Rightarrow> tar_header list \<Rightarrow> unit io" where
  "extractTar dst chown hs =
     bind_io (MkdirAll dst) (\<lambda>_.
       bind_io (extract_all dst chown hs []) (\<lambda>dirs.
         for_each dirs (\<lambda>(p, h). applyMeta chown p h)))"

section \<open>Rules for calls\<close>

text \<open>From a state with \<open>P\<close>, the call ends with a result and \<open>Q\<close>, or fails with \<open>E\<close>.\<close>

definition triple :: "(fs \<Rightarrow> bool) \<Rightarrow> 'a io \<Rightarrow> ('a \<Rightarrow> fs \<Rightarrow> bool) \<Rightarrow> (fs \<Rightarrow> bool) \<Rightarrow> bool" where
  "triple P m Q E \<longleftrightarrow> (\<forall>f. P f \<longrightarrow> (case m f of (Inl e, g) \<Rightarrow> E g | (Inr a, g) \<Rightarrow> Q a g))"

named_theorems io_rules \<open>the rules for calls\<close>

lemma triple_bind [io_rules]:
  "triple P m Q E \<Longrightarrow> (\<And>a. triple (Q a) (k a) R E) \<Longrightarrow> triple P (bind_io m k) R E"
  by (fastforce simp: triple_def bind_io_def split: prod.splits sum.splits)

lemma triple_ret [io_rules]: "(\<And>f. P f \<Longrightarrow> Q a f) \<Longrightarrow> triple P (ret a) Q E"
  by (simp add: triple_def ret_def)

lemma triple_throw [io_rules]: "(\<And>f. P f \<Longrightarrow> E f) \<Longrightarrow> triple P (throw e) Q E"
  by (simp add: triple_def throw_def)

lemma triple_modify: "(\<And>f. P f \<Longrightarrow> Q () (h f)) \<Longrightarrow> triple P (modify h) Q E"
  by (simp add: triple_def modify_def)

lemma triple_attempt: "triple P m (\<lambda>_. Q) Q \<Longrightarrow> triple P (attempt m) (\<lambda>_. Q) E"
proof -
  assume t: "triple P m (\<lambda>_. Q) Q"
  have "Q (snd (m f))" if "P f" for f
    using t that by (cases "m f"; cases "fst (m f)") (auto simp: triple_def)
  then show ?thesis by (simp add: triple_def attempt_def)
qed

lemma triple_conseq:
  "triple P m Q E \<Longrightarrow> (\<And>f. P' f \<Longrightarrow> P f) \<Longrightarrow> (\<And>a f. Q a f \<Longrightarrow> Q' a f) \<Longrightarrow> triple P' m Q' E"
  by (fastforce simp: triple_def split: prod.splits sum.splits)

lemma triple_for_each:
  "(\<And>x. x \<in> set xs \<Longrightarrow> triple P (g x) (\<lambda>_. P) E) \<Longrightarrow> triple P (for_each xs g) (\<lambda>_. P) E"
  by (induction xs) (auto intro!: triple_bind triple_ret)

text \<open>Looking a path up: where the place is known, so is the node.\<close>

lemma triple_node_at:
  assumes "\<And>f. P f \<Longrightarrow> E f" "\<And>f. P f \<Longrightarrow> to f p = Inr r"
  shows "triple P (node_at to p) (\<lambda>(q, x) f. q = r \<and> x = fs_node f r \<and> P f) E"
  using assms by (auto simp: triple_def node_at_def asks_def)

section \<open>Paths without links\<close>

definition name_ok :: "string \<Rightarrow> bool" where
  "name_ok c \<longleftrightarrow> c \<noteq> [] \<and> c \<noteq> ''.'' \<and> c \<noteq> ''..''"

definition dirs_to :: "fs \<Rightarrow> path \<Rightarrow> bool" where
  "dirs_to f q \<longleftrightarrow> (\<forall>r. prefix r q \<longrightarrow> fs_node f r = Some Directory)"

definition is_link :: "fs \<Rightarrow> path \<Rightarrow> bool" where
  "is_link f q \<longleftrightarrow> (\<exists>ab t. fs_node f q = Some (Symlink ab t))"

lemma dirs_to_prefix: "dirs_to f q \<Longrightarrow> prefix r q \<Longrightarrow> dirs_to f r"
  by (auto simp: dirs_to_def intro: prefix_order.trans)

lemma dirs_to_snoc: "dirs_to f (q @ [c]) \<longleftrightarrow> dirs_to f q \<and> fs_node f (q @ [c]) = Some Directory"
  by (auto simp: dirs_to_def prefix_snoc)

lemma dirs_to_node: "dirs_to f q \<Longrightarrow> fs_node f q = Some Directory"
  by (simp add: dirs_to_def)

lemma dirs_to_not_link: "dirs_to f q \<Longrightarrow> \<not> is_link f q"
  by (simp add: dirs_to_def is_link_def)

lemma walk_through_dirs:
  assumes "dirs_to f (cur @ cs)" "list_all name_ok cs"
  shows "walk n f cur (cs @ ds) = walk n f (cur @ cs) ds"
  using assms
proof (induction cs arbitrary: cur)
  case Nil
  then show ?case by simp
next
  case (Cons c cs)
  have "fs_node f (cur @ [c]) = Some Directory"
    using Cons.prems(1) by (auto simp: dirs_to_def)
  with Cons.prems(2) have "walk n f cur ((c # cs) @ ds) = walk n f (cur @ [c]) (cs @ ds)"
    by (simp add: walk.simps name_ok_def)
  also have "\<dots> = walk n f ((cur @ [c]) @ cs) ds"
    by (rule Cons.IH) (use Cons.prems in simp_all)
  finally show ?case by simp
qed

lemma followed_dir:
  assumes "dirs_to f p" "list_all name_ok p"
  shows "followed f p = Inr p"
  using walk_through_dirs [of f "[]" p 40 "[]"] assms by (simp add: followed_def walk.simps)

lemma followed_plain:
  assumes "dirs_to f p" "list_all name_ok (p @ [c])" "\<not> is_link f (p @ [c])"
  shows "followed f (p @ [c]) = Inr (p @ [c])"
proof -
  have "followed f (p @ [c]) = walk 40 f p [c]"
    using walk_through_dirs [of f "[]" p 40 "[c]"] assms by (simp add: followed_def)
  also have "\<dots> = Inr (p @ [c])"
    using assms(2,3) by (auto simp: walk.simps name_ok_def is_link_def split: option.split inode.split)
  finally show ?thesis .
qed

lemma place_plain:
  assumes "dirs_to f p" "list_all name_ok p"
  shows "place f (p @ [c]) = Inr (p @ [c])"
  using assms dirs_to_node [OF assms(1)] by (simp add: place_def followed_dir)

lemma Clean_names: "list_all name_ok (Clean name)"
proof -
  have "list_all name_ok (fold clean_step cs acc)" if "list_all name_ok acc" for cs acc
    using that
  proof (induction cs arbitrary: acc)
    case (Cons c cs)
    have "list_all name_ok (clean_step c acc)"
      using Cons.prems by (auto simp: clean_step_def name_ok_def list_all_iff dest: in_set_butlastD)
    then show ?case using Cons.IH by simp
  qed simp
  then show ?thesis by (simp add: Clean_def)
qed

section \<open>The tree being unpacked\<close>

text \<open>Nothing but what is under \<open>root\<close> differs from \<open>f0\<close>.\<close>

definition untouched :: "path \<Rightarrow> fs \<Rightarrow> fs \<Rightarrow> bool" where
  "untouched root f0 f \<longleftrightarrow>
     (\<forall>q. \<not> prefix root q \<longrightarrow> fs_node f q = fs_node f0 q \<and> fs_meta f q = fs_meta f0 q)"

text \<open>The tree under \<open>root\<close> is one, all of it is listed, its links are among \<open>L\<close>, and the paths in \<open>D\<close>
  are directories that lead through no link.\<close>

definition tree_inv :: "path \<Rightarrow> fs \<Rightarrow> path set \<Rightarrow> path set \<Rightarrow> fs \<Rightarrow> bool" where
  "tree_inv root f0 L D f \<longleftrightarrow>
     untouched root f0 f \<and> dirs_to f root \<and>
     (\<forall>q c. prefix root q \<longrightarrow> fs_node f (q @ [c]) \<noteq> None \<longrightarrow> fs_node f q = Some Directory) \<and>
     (\<forall>q. prefix root q \<longrightarrow> fs_node f q \<noteq> None \<longrightarrow> q \<noteq> root \<longrightarrow> q \<in> set (fs_paths f)) \<and>
     (\<forall>q. prefix root q \<longrightarrow> is_link f q \<longrightarrow> q \<in> L) \<and>
     (\<forall>p \<in> D. strict_prefix root p \<and> dirs_to f p)"

lemma tree_invD:
  assumes "tree_inv root f0 L D f"
  shows "untouched root f0 f" "dirs_to f root"
    "\<And>q c. prefix root q \<Longrightarrow> fs_node f (q @ [c]) \<noteq> None \<Longrightarrow> fs_node f q = Some Directory"
    "\<And>q. prefix root q \<Longrightarrow> fs_node f q \<noteq> None \<Longrightarrow> q \<noteq> root \<Longrightarrow> q \<in> set (fs_paths f)"
    "\<And>q. prefix root q \<Longrightarrow> is_link f q \<Longrightarrow> q \<in> L"
    "\<And>p. p \<in> D \<Longrightarrow> strict_prefix root p" "\<And>p. p \<in> D \<Longrightarrow> dirs_to f p"
  using assms unfolding tree_inv_def by blast+

lemma tree_inv_untouched: "tree_inv root f0 L D f \<Longrightarrow> untouched root f0 f"
  by (rule tree_invD(1))

lemma tree_inv_mono: "tree_inv root f0 L D f \<Longrightarrow> L \<subseteq> L' \<Longrightarrow> tree_inv root f0 L' D f"
  unfolding tree_inv_def by blast

lemma tree_inv_meta:
  assumes "tree_inv root f0 L D f" "prefix root r"
  shows "tree_inv root f0 L D (set_meta r u f)"
proof -
  have "dirs_to (set_meta r u f) = dirs_to f" "is_link (set_meta r u f) = is_link f"
    by (auto simp: fun_eq_iff dirs_to_def is_link_def set_meta_def)
  moreover have "untouched root f0 (set_meta r u f)"
    using tree_invD(1) [OF assms(1)] assms(2) by (auto simp: untouched_def set_meta_def)
  ultimately show ?thesis
    using assms(1) unfolding tree_inv_def by (simp add: set_meta_def)
qed

text \<open>A new node where nothing or something other than a directory stood.\<close>

lemma dirs_to_set_node:
  assumes "dirs_to f q" "fs_node f r \<noteq> Some Directory"
  shows "dirs_to (set_node r x f) q"
  using assms by (auto simp: dirs_to_def set_node_def)

lemma tree_inv_set:
  assumes inv: "tree_inv root f0 L D f" and d: "dirs_to f d" and r: "prefix root d"
    and old: "fs_node f (d @ [c]) \<noteq> Some Directory"
    and link: "\<And>ab t. i = Symlink ab t \<Longrightarrow> d @ [c] \<in> L"
  shows "tree_inv root f0 L D (set_node (d @ [c]) (Some i) f)"
proof -
  let ?g = "set_node (d @ [c]) (Some i) f"
  have pre: "prefix root (d @ [c])" "d @ [c] \<noteq> root"
    using r by (auto simp: prefix_snoc)
  note D = tree_invD [OF inv]
  have "untouched root f0 ?g"
    using D(1) pre by (auto simp: untouched_def set_node_def)
  moreover have "dirs_to ?g root" by (rule dirs_to_set_node [OF D(2) old])
  moreover have "fs_node ?g q = Some Directory" if "prefix root q" "fs_node ?g (q @ [e]) \<noteq> None" for q e
  proof (cases "q @ [e] = d @ [c]")
    case True
    then show ?thesis using dirs_to_node [OF d] by (simp add: set_node_def)
  next
    case False
    then have "fs_node f (q @ [e]) \<noteq> None" using that(2) by (auto simp: set_node_def)
    then have "fs_node f q = Some Directory" by (rule D(3) [OF that(1)])
    with old show ?thesis by (auto simp: set_node_def)
  qed
  moreover have "q \<in> set (fs_paths ?g)" if "prefix root q" "fs_node ?g q \<noteq> None" "q \<noteq> root" for q
    using that D(4) [of q] by (auto simp: set_node_def split: if_splits)
  moreover have "q \<in> L" if "prefix root q" "is_link ?g q" for q
    using that D(5) [of q] link by (auto simp: is_link_def set_node_def split: if_splits)
  moreover have "dirs_to ?g p" if "p \<in> D" for p by (rule dirs_to_set_node [OF D(7) [OF that] old])
  ultimately show ?thesis using D(6) unfolding tree_inv_def by blast
qed

lemma has_child:
  assumes "tree_inv root f0 L D f" "prefix root q" "fs_node f (q @ [c]) \<noteq> None"
  shows "has_children f q"
proof -
  have "q @ [c] \<noteq> root" using assms(2) by auto
  then have "q @ [c] \<in> set (fs_paths f)"
    using tree_invD(4) [OF assms(1), of "q @ [c]"] assms(2,3) by (simp add: prefix_snoc)
  with assms(3) show ?thesis unfolding has_children_def list_ex_iff by force
qed

lemma tree_inv_remove:
  assumes inv: "tree_inv root f0 L D f" and d: "dirs_to f d" and r: "prefix root d"
    and no: "\<not> (fs_node f (d @ [c]) = Some Directory \<and> has_children f (d @ [c]))" and D: "d @ [c] \<notin> D"
  shows "tree_inv root f0 L D (set_node (d @ [c]) None f)"
proof -
  let ?g = "set_node (d @ [c]) None f"
  have pre: "prefix root (d @ [c])" "d @ [c] \<noteq> root" using r by (auto simp: prefix_snoc)
  note T = tree_invD [OF inv]
  have empty: "fs_node f ((d @ [c]) @ [e]) = None" for e
    using T(3) [OF pre(1), of e] has_child [OF inv pre(1), of e] no by metis
  have keep: "dirs_to ?g q" if "dirs_to f q" "\<not> prefix (d @ [c]) q" for q
    using that by (auto simp: dirs_to_def set_node_def)
  have "untouched root f0 ?g"
    using T(1) pre by (auto simp: untouched_def set_node_def)
  moreover have "dirs_to ?g root"
    by (rule keep [OF T(2)]) (use pre in \<open>metis prefix_order.antisym\<close>)
  moreover have "fs_node ?g q = Some Directory" if q: "prefix root q" "fs_node ?g (q @ [e]) \<noteq> None" for q e
  proof -
    have "fs_node f (q @ [e]) \<noteq> None" using q(2) by (auto simp: set_node_def split: if_splits)
    then have "fs_node f q = Some Directory" "q \<noteq> d @ [c]" using T(3) [OF q(1)] empty by metis+
    then show ?thesis by (simp add: set_node_def)
  qed
  moreover have "q \<in> set (fs_paths ?g)" if "prefix root q" "fs_node ?g q \<noteq> None" "q \<noteq> root" for q
    using that T(4) [of q] by (auto simp: set_node_def split: if_splits)
  moreover have "q \<in> L" if "prefix root q" "is_link ?g q" for q
    using that T(5) [of q] by (auto simp: is_link_def set_node_def split: if_splits)
  moreover have "dirs_to ?g p" if "p \<in> D" for p
  proof (rule keep [OF T(7) [OF that]])
    show "\<not> prefix (d @ [c]) p"
    proof
      assume "prefix (d @ [c]) p"
      then obtain es' where p: "p = (d @ [c]) @ es'" by (auto simp: prefix_def)
      moreover have "es' \<noteq> []" using p D that by auto
      ultimately obtain e es where "p = (d @ [c]) @ e # es" by (cases es') auto
      then have "prefix ((d @ [c]) @ [e]) p" by simp
      then have "fs_node f ((d @ [c]) @ [e]) = Some Directory"
        using T(7) [OF that] by (simp only: dirs_to_def)
      with empty show False by simp
    qed
  qed
  ultimately show ?thesis using T(6) unfolding tree_inv_def by blast
qed

section \<open>What each call keeps\<close>

text \<open>A place under \<open>root\<close>: a good name in a directory that is reached through no link.\<close>

abbreviation at_dir :: "path \<Rightarrow> fs \<Rightarrow> path set \<Rightarrow> path set \<Rightarrow> path \<Rightarrow> fs \<Rightarrow> bool" where
  "at_dir root f0 L D d f \<equiv> tree_inv root f0 L D f \<and> dirs_to f d"

lemma triple_place:
  assumes "list_all name_ok d"
  shows "triple (at_dir root f0 L D d) (node_at place (d @ [c]))
    (\<lambda>(q, x) f. q = d @ [c] \<and> x = fs_node f (d @ [c]) \<and> at_dir root f0 L D d f) (untouched root f0)"
  by (rule triple_node_at) (use assms in \<open>auto simp: place_plain dest: tree_inv_untouched\<close>)

lemma triple_followed:
  assumes "list_all name_ok (d @ [c])" "prefix root d" "d @ [c] \<notin> L"
  shows "triple (at_dir root f0 L D d) (node_at followed (d @ [c]))
    (\<lambda>(q, x) f. q = d @ [c] \<and> x = fs_node f (d @ [c]) \<and> at_dir root f0 L D d f) (untouched root f0)"
proof (rule triple_node_at)
  fix f assume f: "at_dir root f0 L D d f"
  then show "untouched root f0 f" by (blast dest: tree_inv_untouched)
  have "prefix root (d @ [c])" using assms(2) by (simp add: prefix_snoc)
  then have "\<not> is_link f (d @ [c])" using tree_invD(5) [of root f0 L D f "d @ [c]"] f assms(3) by blast
  then show "followed f (d @ [c]) = Inr (d @ [c])" using f assms(1) by (simp add: followed_plain)
qed

lemma triple_make_at:
  assumes "list_all name_ok d" "prefix root d" "\<And>ab t. i = Symlink ab t \<Longrightarrow> d @ [c] \<in> L"
  shows "triple (at_dir root f0 L D d) (make_at i (d @ [c]))
    (\<lambda>_ f. at_dir root f0 L D d f \<and> fs_node f (d @ [c]) = Some i) (untouched root f0)"
  unfolding make_at_def
proof (rule triple_bind [OF triple_place [OF assms(1)]])
  fix a
  show "triple (case a of (q, x) \<Rightarrow> \<lambda>f. q = d @ [c] \<and> x = fs_node f (d @ [c]) \<and> at_dir root f0 L D d f)
    (case a of (r, x) \<Rightarrow> if x = None then modify (set_node r (Some i)) else throw Exists)
    (\<lambda>_ f. at_dir root f0 L D d f \<and> fs_node f (d @ [c]) = Some i) (untouched root f0)"
    using tree_inv_set [of root f0 L D _ d c i] dirs_to_set_node [of _ d "d @ [c]" "Some i"] assms(2,3)
    by (cases a) (auto intro!: triple_modify triple_throw simp: set_node_def dest: tree_inv_untouched)
qed

lemma triple_remove:
  assumes "list_all name_ok d" "prefix root d" "d @ [c] \<notin> D"
  shows "triple (at_dir root f0 L D d) (attempt (os_Remove (d @ [c]))) (\<lambda>_. at_dir root f0 L D d) (untouched root f0)"
proof (rule triple_attempt)
  show "triple (at_dir root f0 L D d) (os_Remove (d @ [c])) (\<lambda>_. at_dir root f0 L D d) (at_dir root f0 L D d)"
    unfolding triple_def
  proof (intro allI impI)
    fix f assume f: "at_dir root f0 L D d f"
    then have pl: "place f (d @ [c]) = Inr (d @ [c])" using assms(1) by (simp add: place_plain)
    have "at_dir root f0 L D d (set_node (d @ [c]) None f)"
      if "\<not> (fs_node f (d @ [c]) = Some Directory \<and> has_children f (d @ [c]))"
    proof
      show "tree_inv root f0 L D (set_node (d @ [c]) None f)"
        by (rule tree_inv_remove) (use f assms that in auto)
      show "dirs_to (set_node (d @ [c]) None f) d"
        using f by (auto simp: dirs_to_def set_node_def)
    qed
    then show "case os_Remove (d @ [c]) f of (Inl e, g) \<Rightarrow> at_dir root f0 L D d g | (Inr a, g) \<Rightarrow> at_dir root f0 L D d g"
      using f pl by (auto simp: os_Remove_def bind_io_def node_at_def asks_def throw_def modify_def)
  qed
qed

lemma triple_weaken:
  "triple P m Q E \<Longrightarrow> (\<And>f. P' f \<Longrightarrow> P f) \<Longrightarrow> (\<And>a f. Q a f \<Longrightarrow> Q' a f) \<Longrightarrow> (\<And>f. E f \<Longrightarrow> E' f) \<Longrightarrow> triple P' m Q' E'"
  by (fastforce simp: triple_def split: prod.splits sum.splits)

lemma at_dir_untouched: "at_dir root f0 L D d f \<Longrightarrow> untouched root f0 f"
  by (blast dest: tree_inv_untouched)

text \<open>Looking does not change anything.\<close>

lemma bind_io_same:
  fixes m :: "'a io" and k :: "'a \<Rightarrow> 'b io"
  assumes "\<And>f. snd (m f) = f" "\<And>a f. snd (k a f) = f"
  shows "snd (bind_io m k f) = f"
proof -
  obtain r g where m: "m f = (r, g)" by fastforce
  then have "g = f" using assms(1) [of f] by simp
  with m show ?thesis using assms(2) by (cases r) (simp_all add: bind_io_def)
qed

lemma Lstat_same: "snd (Lstat p f) = f"
  by (auto simp: Lstat_def node_at_def asks_def bind_io_def throw_def ret_def split: prod.splits sum.splits option.splits)

lemma no_links_same: "snd (no_links qs f) = f"
proof (induction qs)
  case Nil
  then show ?case by (simp add: ret_def)
next
  case (Cons q qs)
  then show ?case using Lstat_same [of q f]
    by (auto split: prod.splits sum.splits io_error.splits inode.splits)
qed

lemma safeJoin_same: "snd (safeJoin root name f) = f"
  unfolding safeJoin_def Let_def
  by (simp add: throw_def ret_def bind_io_same no_links_same del: no_links.simps)

lemma safeJoin_path: "fst (safeJoin root name f) = Inr p \<Longrightarrow> p = root @ Clean name"
  by (auto simp: safeJoin_def Let_def throw_def ret_def bind_io_def split: prod.splits sum.splits if_splits)

lemma triple_looks: "(\<And>f. snd (m f) = f) \<Longrightarrow> triple P m (\<lambda>_. P) P"
  by (auto simp: triple_def split: prod.splits sum.splits) (metis snd_conv)+

section \<open>The check of a path\<close>

lemma below_file:
  assumes "tree_inv root f0 L D f" "prefix root q" "fs_node f q \<noteq> Some Directory" "strict_prefix q r"
  shows "fs_node f r = None"
  using assms(4)
proof (induction r rule: rev_induct)
  case Nil
  then show ?case by simp
next
  case (snoc c r)
  have "prefix root r" if "prefix q r" using assms(2) that by (rule prefix_order.trans)
  show ?case
  proof (cases "q = r")
    case True
    then show ?thesis using tree_invD(3) [OF assms(1,2), of c] assms(3) by metis
  next
    case False
    then have "strict_prefix q r" using snoc.prems by (auto simp: strict_prefix_def prefix_snoc)
    then have "fs_node f r = None" "prefix root r"
      using snoc.IH assms(2) by (auto simp: strict_prefix_def intro: prefix_order.trans)
    then show ?thesis using tree_invD(3) [OF assms(1), of r c] by force
  qed
qed

lemma tl_prefixes_Cons: "tl (prefixes (c # cs)) = [c] # map ((#) c) (tl (prefixes cs))"
  by (cases cs) simp_all

lemma no_links_sound:
  assumes "tree_inv root f0 L D f" "dirs_to f cur" "prefix root cur" "list_all name_ok (cur @ cs)"
    and "fst (no_links (map ((@) cur) (tl (prefixes cs))) f) = Inr ()" "prefix q cs"
  shows "\<not> is_link f (cur @ q)"
  using assms(2-)
proof (induction cs arbitrary: cur q)
  case Nil
  then show ?case by (simp add: dirs_to_not_link)
next
  case (Cons c cs)
  have pl: "place f (cur @ [c]) = Inr (cur @ [c])" using Cons.prems by (simp add: place_plain)
  have pre: "prefix root (cur @ [c])" using Cons.prems(2) by (simp add: prefix_snoc)
  have map: "map ((@) cur) (tl (prefixes (c # cs))) = (cur @ [c]) # map ((@) (cur @ [c])) (tl (prefixes cs))"
    unfolding tl_prefixes_Cons by simp
  have q: "q = [] \<or> q = [c] \<or> (\<exists>q'. q = c # q' \<and> q' \<noteq> [] \<and> prefix q' cs)"
    using Cons.prems(5) by (cases q) auto
  show ?case
  proof (cases "fs_node f (cur @ [c]) = Some Directory")
    case True
    have "dirs_to f (cur @ [c])" using Cons.prems(1) True by (simp add: dirs_to_snoc)
    moreover have "fst (no_links (map ((@) (cur @ [c])) (tl (prefixes cs))) f) = Inr ()"
      using Cons.prems(4) pl True unfolding map by (simp add: Lstat_def node_at_def asks_def bind_io_def ret_def)
    moreover have "list_all name_ok ((cur @ [c]) @ cs)" using Cons.prems(3) by simp
    ultimately have below: "\<not> is_link f ((cur @ [c]) @ q')" if "prefix q' cs" for q'
      using Cons.IH [OF _ pre _ _ that] by blast
    show ?thesis
      using q dirs_to_not_link [OF Cons.prems(1)] below [of "[]"] below by auto
  next
    case False
    have "\<not> is_link f (cur @ [c])"
      using Cons.prems(4) pl unfolding map is_link_def
      by (auto simp: Lstat_def node_at_def asks_def bind_io_def ret_def)
    moreover have "\<not> is_link f (cur @ c # q')" if "q' \<noteq> []" for q'
      using below_file [OF assms(1) pre False, of "cur @ c # q'"] that
      by (auto simp: is_link_def strict_prefix_def prefix_def)
    ultimately show ?thesis using q dirs_to_not_link [OF Cons.prems(1)] by auto
  qed
qed

lemma triple_safeJoin:
  assumes "list_all name_ok root"
  shows "triple (tree_inv root f0 L D) (safeJoin root name)
    (\<lambda>p f. p = root @ Clean name \<and> tree_inv root f0 L D f \<and>
       (\<forall>q. prefix q (butlast (Clean name)) \<longrightarrow> \<not> is_link f (root @ q))) (untouched root f0)"
  unfolding triple_def
proof (intro allI impI)
  fix f assume f: "tree_inv root f0 L D f"
  obtain r g where eq: "safeJoin root name f = (r, g)" by fastforce
  have g: "g = f" using safeJoin_same [of root name f] eq by simp
  have "(\<forall>q. prefix q (butlast (Clean name)) \<longrightarrow> \<not> is_link f (root @ q))" if "r = Inr p" for p
  proof (cases "butlast (Clean name) = []")
    case True
    then show ?thesis using tree_invD(2) [OF f] by (simp add: dirs_to_not_link)
  next
    case False
    then have "Clean name \<noteq> []" by auto
    then have "butlast (root @ Clean name) \<noteq> root" using False by (simp add: butlast_append)
    then have ok: "fst (no_links (map ((@) root) (tl (prefixes (butlast (Clean name))))) f) = Inr ()"
      using eq that \<open>Clean name \<noteq> []\<close>
      by (auto simp: safeJoin_def Let_def bind_io_def ret_def split: prod.splits sum.splits)
    have names: "list_all name_ok (root @ butlast (Clean name))"
      using assms Clean_names [of name] by (auto simp: list_all_iff dest: in_set_butlastD)
    show ?thesis
      using no_links_sound [OF f tree_invD(2) [OF f] _ names ok] by simp
  qed
  then show "case safeJoin root name f of (Inl e, g) \<Rightarrow> untouched root f0 g
    | (Inr p, g) \<Rightarrow> p = root @ Clean name \<and> tree_inv root f0 L D g \<and>
        (\<forall>q. prefix q (butlast (Clean name)) \<longrightarrow> \<not> is_link g (root @ q))"
    using eq g f safeJoin_path [of root name f] by (auto split: sum.split dest: tree_inv_untouched)
qed

section \<open>Directories\<close>

lemma mkdir_step_exists:
  assumes "dirs_to f q" "list_all name_ok q"
  shows "mkdir_step q f = (Inr (), f)"
  using assms dirs_to_node [OF assms(1)]
  by (simp add: mkdir_step_def node_at_def asks_def bind_io_def followed_dir ret_def)

lemma for_each_nothing: "(\<And>x. x \<in> set xs \<Longrightarrow> g x f = (Inr (), f)) \<Longrightarrow> for_each xs g f = (Inr (), f)"
  by (induction xs) (simp_all add: ret_def bind_io_def)

lemma for_each_append: "for_each (xs @ ys) g = bind_io (for_each xs g) (\<lambda>_. for_each ys g)"
  by (induction xs) (auto simp: ret_def bind_io_def fun_eq_iff split: prod.splits sum.splits)

lemma mkdir_prefixes_exist:
  assumes "dirs_to f q" "list_all name_ok q"
  shows "for_each (tl (prefixes q)) mkdir_step f = (Inr (), f)"
proof (rule for_each_nothing)
  fix r assume "r \<in> set (tl (prefixes q))"
  then have "prefix r q" by (metis list.set_sel(2) in_set_prefixes prefixes_not_Nil)
  then show "mkdir_step r f = (Inr (), f)"
    using assms set_mono_prefix [OF \<open>prefix r q\<close>]
    by (intro mkdir_step_exists dirs_to_prefix [OF assms(1)]) (auto simp: list_all_iff subset_iff)
qed

definition no_links_below :: "path \<Rightarrow> path \<Rightarrow> fs \<Rightarrow> bool" where
  "no_links_below cur cs f \<longleftrightarrow> (\<forall>q. prefix q cs \<longrightarrow> \<not> is_link f (cur @ q))"

lemma triple_mkdir_step:
  assumes "list_all name_ok (d @ c # cs)" "prefix root d"
  shows "triple (\<lambda>f. at_dir root f0 L D d f \<and> no_links_below d (c # cs) f) (mkdir_step (d @ [c]))
    (\<lambda>_ f. at_dir root f0 L D (d @ [c]) f \<and> no_links_below (d @ [c]) cs f) (untouched root f0)"
  unfolding triple_def
proof (intro allI impI)
  fix f assume f: "at_dir root f0 L D d f \<and> no_links_below d (c # cs) f"
  let ?g = "set_node (d @ [c]) (Some Directory) f"
  have nl: "\<not> is_link f (d @ [c])" "no_links_below (d @ [c]) cs f"
    using f by (auto simp: no_links_below_def dest: spec [of _ "[c]"] spec [of _ "c # _"])
  have pl: "followed f (d @ [c]) = Inr (d @ [c])" "place f (d @ [c]) = Inr (d @ [c])"
    using f nl assms(1) by (simp_all add: followed_plain place_plain)
  have new: "at_dir root f0 L D (d @ [c]) ?g \<and> no_links_below (d @ [c]) cs ?g" if "fs_node f (d @ [c]) = None"
  proof (intro conjI)
    show "tree_inv root f0 L D ?g" by (rule tree_inv_set) (use f assms that in auto)
    show "dirs_to ?g (d @ [c])"
      using f dirs_to_set_node [of f d "d @ [c]" "Some Directory"] that by (simp add: dirs_to_snoc) (simp add: set_node_def)
    show "no_links_below (d @ [c]) cs ?g"
      using nl(2) by (auto simp: no_links_below_def is_link_def set_node_def)
  qed
  show "case mkdir_step (d @ [c]) f of (Inl e, g) \<Rightarrow> untouched root f0 g
    | (Inr a, g) \<Rightarrow> at_dir root f0 L D (d @ [c]) g \<and> no_links_below (d @ [c]) cs g"
    using f pl nl new
    by (auto simp: mkdir_step_def make_at_def node_at_def asks_def bind_io_def ret_def throw_def modify_def dirs_to_snoc
        split: option.split inode.split dest: tree_inv_untouched)
qed

lemma triple_mkdirs:
  assumes "list_all name_ok (d @ cs)" "prefix root d"
  shows "triple (\<lambda>f. at_dir root f0 L D d f \<and> no_links_below d cs f) (for_each (map ((@) d) (tl (prefixes cs))) mkdir_step)
    (\<lambda>_ f. at_dir root f0 L D (d @ cs) f) (untouched root f0)"
  using assms
proof (induction cs arbitrary: d)
  case Nil
  then show ?case by (auto intro: triple_ret)
next
  case (Cons c cs)
  have map: "map ((@) d) (tl (prefixes (c # cs))) = (d @ [c]) # map ((@) (d @ [c])) (tl (prefixes cs))"
    unfolding tl_prefixes_Cons by simp
  have "triple (\<lambda>f. at_dir root f0 L D (d @ [c]) f \<and> no_links_below (d @ [c]) cs f)
      (for_each (map ((@) (d @ [c])) (tl (prefixes cs))) mkdir_step)
      (\<lambda>_ f. at_dir root f0 L D ((d @ [c]) @ cs) f) (untouched root f0)"
    by (rule Cons.IH) (use Cons.prems in \<open>simp_all add: prefix_snoc\<close>)
  then show ?case
    unfolding map using triple_bind [OF triple_mkdir_step [OF Cons.prems]] by simp
qed

lemma triple_MkdirAll:
  assumes "list_all name_ok (root @ cs)"
  shows "triple (\<lambda>f. tree_inv root f0 L D f \<and> no_links_below root cs f) (MkdirAll (root @ cs))
    (\<lambda>_. at_dir root f0 L D (root @ cs)) (untouched root f0)"
proof -
  have "tl (prefixes (root @ cs)) = tl (prefixes root) @ map ((@) root) (tl (prefixes cs))"
    by (simp add: prefixes_append)
  then have eq: "MkdirAll (root @ cs) = bind_io (for_each (tl (prefixes root)) mkdir_step)
      (\<lambda>_. for_each (map ((@) root) (tl (prefixes cs))) mkdir_step)"
    by (simp add: MkdirAll_def for_each_append)
  have "triple (\<lambda>f. tree_inv root f0 L D f \<and> no_links_below root cs f) (for_each (tl (prefixes root)) mkdir_step)
      (\<lambda>_ f. at_dir root f0 L D root f \<and> no_links_below root cs f) (untouched root f0)"
    using mkdir_prefixes_exist assms tree_invD(2) by (fastforce simp: triple_def)
  then show ?thesis
    unfolding eq by (rule triple_bind) (rule triple_mkdirs [OF assms], simp)
qed

lemma triple_ex: "(\<And>M. triple (P M) m Q E) \<Longrightarrow> triple (\<lambda>f. \<exists>M. P M f) m Q E"
proof -
  assume t: "\<And>M. triple (P M) m Q E"
  show ?thesis
    unfolding triple_def
  proof (intro allI impI)
    fix f assume "\<exists>M. P M f"
    then obtain M where "P M f" ..
    with t [of M] show "case m f of (Inl e, g) \<Rightarrow> E g | (Inr a, g) \<Rightarrow> Q a g" by (simp add: triple_def)
  qed
qed

section \<open>Files, links and modes\<close>

lemma at_dir_meta:
  assumes "at_dir root f0 L D d f" "prefix root d"
  shows "at_dir root f0 L D d (set_meta (d @ [c]) u f)"
  using tree_inv_meta [of root f0 L D f "d @ [c]" u] assms by (auto simp: prefix_snoc dirs_to_def set_meta_def)

lemma triple_set_meta:
  assumes t: "triple (at_dir root f0 L D d) m
      (\<lambda>(q, x) f. q = d @ [c] \<and> x = fs_node f (d @ [c]) \<and> at_dir root f0 L D d f) (untouched root f0)"
    and "prefix root d"
  shows "triple (at_dir root f0 L D d)
    (bind_io m (\<lambda>(r, x). if x = None then throw Not_exist else modify (set_meta r u)))
    (\<lambda>_. at_dir root f0 L D d) (untouched root f0)"
proof (rule triple_bind [OF t])
  fix a
  show "triple (case a of (q, x) \<Rightarrow> \<lambda>f. q = d @ [c] \<and> x = fs_node f (d @ [c]) \<and> at_dir root f0 L D d f)
    (case a of (r, x) \<Rightarrow> if x = None then throw Not_exist else modify (set_meta r u))
    (\<lambda>_. at_dir root f0 L D d) (untouched root f0)"
    using at_dir_meta [OF _ assms(2)]
    by (cases a) (auto intro!: triple_modify triple_throw dest: tree_inv_untouched)
qed

lemma triple_Lchown:
  assumes "list_all name_ok d" "prefix root d"
  shows "triple (at_dir root f0 L D d) (Lchown (d @ [c]) uid gid) (\<lambda>_. at_dir root f0 L D d) (untouched root f0)"
  unfolding Lchown_def by (rule triple_set_meta [OF triple_place [OF assms(1)] assms(2)])

text \<open>Where the error of a call is ignored it has changed nothing.\<close>

lemma triple_try_Lchown:
  assumes "list_all name_ok d" "prefix root d"
  shows "triple (at_dir root f0 L D d) (attempt (Lchown (d @ [c]) uid gid)) (\<lambda>_. at_dir root f0 L D d) E"
proof (rule triple_attempt)
  have "at_dir root f0 L D d (snd (Lchown (d @ [c]) uid gid f))" if "at_dir root f0 L D d f" for f
    using that at_dir_meta [OF that assms(2)] assms(1)
    by (auto simp: Lchown_def bind_io_def node_at_def asks_def place_plain throw_def modify_def)
  then show "triple (at_dir root f0 L D d) (Lchown (d @ [c]) uid gid) (\<lambda>_. at_dir root f0 L D d) (at_dir root f0 L D d)"
    by (auto simp: triple_def split: prod.split sum.split) (metis snd_conv)+
qed

lemma triple_applyMeta:
  assumes "list_all name_ok (d @ [c])" "prefix root d" "d @ [c] \<notin> L"
  shows "triple (at_dir root f0 L D d) (applyMeta chown (d @ [c]) h) (\<lambda>_. at_dir root f0 L D d) (untouched root f0)"
proof -
  have d: "list_all name_ok d" using assms(1) by simp
  have "triple (at_dir root f0 L D d) (Chmod (d @ [c]) (th_Mode h)) (\<lambda>_. at_dir root f0 L D d) (untouched root f0)"
    unfolding Chmod_def by (rule triple_set_meta [OF triple_followed [OF assms] assms(2)])
  moreover have "triple (at_dir root f0 L D d) (if chown then Lchown (d @ [c]) (th_Uid h) (th_Gid h) else ret ())
      (\<lambda>_. at_dir root f0 L D d) (untouched root f0)"
    using triple_Lchown [OF d assms(2)] by (auto intro: triple_ret)
  ultimately show ?thesis unfolding applyMeta_def by (intro triple_bind)
qed

lemma triple_write_file:
  assumes "list_all name_ok (d @ [c])" "prefix root d" "d @ [c] \<notin> L"
  shows "triple (at_dir root f0 L D d) (write_file (d @ [c]) content) (\<lambda>_. at_dir root f0 L D d) (untouched root f0)"
  unfolding write_file_def
proof (rule triple_bind [OF triple_followed [OF assms]])
  fix a
  show "triple (case a of (q, x) \<Rightarrow> \<lambda>f. q = d @ [c] \<and> x = fs_node f (d @ [c]) \<and> at_dir root f0 L D d f)
    (case a of (r, x) \<Rightarrow> if x = Some Directory then throw Is_dir else modify (set_node r (Some (Regular content))))
    (\<lambda>_. at_dir root f0 L D d) (untouched root f0)"
    using tree_inv_set [of root f0 L D _ d c "Regular content"] dirs_to_set_node [of _ d "d @ [c]"] assms(2)
    by (cases a) (auto intro!: triple_modify triple_throw dest: tree_inv_untouched)
qed

lemma triple_Link:
  assumes "list_all name_ok d" "prefix root d" "d @ [c] \<in> L"
  shows "triple (at_dir root f0 L D d) (Link target (d @ [c])) (\<lambda>_. at_dir root f0 L D d) (untouched root f0)"
proof -
  have "triple (at_dir root f0 L D d) (Lstat target) (\<lambda>_. at_dir root f0 L D d) (untouched root f0)"
    by (rule triple_weaken [OF triple_looks [of "Lstat target" "at_dir root f0 L D d"]]) (auto simp: Lstat_same dest: tree_inv_untouched)
  moreover have "triple (at_dir root f0 L D d) (make_at i (d @ [c])) (\<lambda>_. at_dir root f0 L D d) (untouched root f0)" for i
    by (rule triple_weaken [OF triple_make_at [OF assms(1,2)]]) (use assms(3) in auto)
  ultimately show ?thesis unfolding Link_def
    by (intro triple_bind) (auto intro: triple_throw dest: tree_inv_untouched)
qed

text \<open>A new directory in one that is reached through no link.\<close>

lemma triple_MkdirAll_new:
  assumes names: "list_all name_ok (d @ [c])" and pre: "prefix root d" and new: "d @ [c] \<notin> L"
  shows "triple (at_dir root f0 L D d) (MkdirAll (d @ [c])) (\<lambda>_. at_dir root f0 L D (d @ [c])) (untouched root f0)"
proof -
  obtain cs where cs: "d = root @ cs" using pre by (auto simp: prefix_def)
  have pp: "d @ [c] = root @ cs @ [c]" using cs by simp
  show ?thesis
    unfolding pp
  proof (rule triple_weaken [OF triple_MkdirAll [of root "cs @ [c]"]])
    show "list_all name_ok (root @ cs @ [c])" using names cs by simp
    fix f assume f: "at_dir root f0 L D d f"
    have "\<not> is_link f (root @ q)" if "prefix q (cs @ [c])" for q
    proof (cases "q = cs @ [c]")
      case True
      then show ?thesis using f new tree_invD(5) [of root f0 L D f "d @ [c]"] cs by auto
    next
      case False
      then have "prefix (root @ q) d" using that cs by (simp add: prefix_snoc)
      then show ?thesis using f dirs_to_prefix dirs_to_not_link by blast
    qed
    with f show "tree_inv root f0 L D f \<and> no_links_below root (cs @ [c]) f" by (simp add: no_links_below_def)
  qed auto
qed

section \<open>One entry, and the archive\<close>

lemma triple_entry_body:
  assumes names: "list_all name_ok (d @ [c])" and pre: "prefix root d" and p: "p = d @ [c]"
    and new: "p \<notin> L" "p \<notin> D"
  shows "triple (at_dir root f0 L D d)
    (case th_Typeflag h of
       TypeDir \<Rightarrow> bind_io (MkdirAll p) (\<lambda>_. ret [p])
     | TypeReg \<Rightarrow> bind_io (write_file p (th_body h)) (\<lambda>_. bind_io (applyMeta chown p h) (\<lambda>_. ret []))
     | TypeSymlink \<Rightarrow> bind_io (attempt (os_Remove p)) (\<lambda>_.
         bind_io (make_at (read_link (th_Linkname h)) p) (\<lambda>_.
         bind_io (if chown then attempt (Lchown p (th_Uid h) (th_Gid h)) else ret ()) (\<lambda>_. ret [])))
     | TypeLink \<Rightarrow> bind_io (safeJoin root (th_Linkname h)) (\<lambda>target.
         bind_io (attempt (os_Remove p)) (\<lambda>_. bind_io (Link target p) (\<lambda>_. ret [])))
     | TypeOther \<Rightarrow> ret [])
    (\<lambda>ps f. tree_inv root f0 (insert p L) (set ps \<union> D) f \<and> set ps \<subseteq> {p}) (untouched root f0)"
proof -
  let ?L = "insert p L" and ?U = "untouched root f0"
  have d: "list_all name_ok d" and pL: "d @ [c] \<in> ?L" "d @ [c] \<notin> L" "d @ [c] \<notin> D"
    using names new p by simp_all
  have grow: "at_dir root f0 L D d f \<Longrightarrow> at_dir root f0 ?L D d f" for f
    using tree_inv_mono [of root f0 L D f ?L] by blast
  have fin: "triple (at_dir root f0 M D d) (ret []) (\<lambda>ps f. tree_inv root f0 ?L (set ps \<union> D) f \<and> set ps \<subseteq> {p}) ?U"
    if "M \<subseteq> ?L" for M
    using tree_inv_mono that by (auto intro!: triple_ret)
  have look: "triple (at_dir root f0 ?L D d) (safeJoin root (th_Linkname h)) (\<lambda>_. at_dir root f0 ?L D d) ?U"
    by (rule triple_weaken [OF triple_looks [of "safeJoin root (th_Linkname h)" "at_dir root f0 ?L D d"]])
       (auto simp: safeJoin_same dest: tree_inv_untouched)
  have rem: "triple (at_dir root f0 ?L D d) (attempt (os_Remove p)) (\<lambda>_. at_dir root f0 ?L D d) ?U"
    unfolding p by (rule triple_remove [OF d pre pL(3)])
  have mk: "triple (at_dir root f0 ?L D d) (make_at i p) (\<lambda>_. at_dir root f0 ?L D d) ?U" for i
    unfolding p by (rule triple_weaken [OF triple_make_at [OF d pre, of i c "insert (d @ [c]) L"]]) auto
  have ch: "triple (at_dir root f0 ?L D d) (if chown then attempt (Lchown p (th_Uid h) (th_Gid h)) else ret ())
      (\<lambda>_. at_dir root f0 ?L D d) ?U"
    unfolding p using triple_try_Lchown [OF d pre] by (auto intro: triple_ret)
  have link: "triple (at_dir root f0 ?L D d) (Link target p) (\<lambda>_. at_dir root f0 ?L D d) ?U" for target
    using triple_Link [OF d pre pL(1)] p by simp
  have reg: "triple (at_dir root f0 L D d) (write_file p (th_body h)) (\<lambda>_. at_dir root f0 L D d) ?U"
    "triple (at_dir root f0 L D d) (applyMeta chown p h) (\<lambda>_. at_dir root f0 L D d) ?U"
    unfolding p by (rule triple_write_file [OF names pre pL(2)], rule triple_applyMeta [OF names pre pL(2)])
  have dir: "triple (at_dir root f0 L D d) (MkdirAll p) (\<lambda>_. at_dir root f0 L D p) ?U"
    unfolding p by (rule triple_MkdirAll_new [OF names pre pL(2)])
  have fin_dir: "triple (at_dir root f0 L D p) (ret [p]) (\<lambda>ps f. tree_inv root f0 ?L (set ps \<union> D) f \<and> set ps \<subseteq> {p}) ?U"
  proof (rule triple_ret)
    fix f assume f: "at_dir root f0 L D p f"
    have "strict_prefix root p" using pre p by (auto simp: strict_prefix_def prefix_snoc)
    with f show "tree_inv root f0 ?L (set [p] \<union> D) f \<and> set [p] \<subseteq> {p}" unfolding tree_inv_def by auto
  qed
  show ?thesis
  proof (cases "th_Typeflag h")
    case TypeDir
    then show ?thesis using triple_bind [OF dir fin_dir] by simp
  next
    case TypeReg
    then show ?thesis using triple_bind [OF reg(1) triple_bind [OF reg(2) fin [of L]]] by auto
  next
    case TypeSymlink
    show ?thesis unfolding TypeSymlink typeflag.case
      by (rule triple_weaken [OF triple_bind [OF rem triple_bind [OF mk triple_bind [OF ch fin [OF order_refl]]]] grow]) simp_all
  next
    case TypeLink
    show ?thesis unfolding TypeLink typeflag.case
      by (rule triple_weaken [OF triple_bind [OF look triple_bind [OF rem triple_bind [OF link fin [OF order_refl]]]] grow]) simp_all
  next
    case TypeOther
    then show ?thesis using fin [of L] by auto
  qed
qed

lemma triple_entry:
  assumes names: "list_all name_ok root"
    and new: "root @ Clean (th_Name h) \<notin> L" "root @ Clean (th_Name h) \<notin> D"
  shows "triple (tree_inv root f0 L D) (extract_entry root chown h)
    (\<lambda>ps f. tree_inv root f0 (insert (root @ Clean (th_Name h)) L) (set ps \<union> D) f \<and>
       set ps \<subseteq> {root @ Clean (th_Name h)}) (untouched root f0)"
proof -
  let ?n = "Clean (th_Name h)"
  let ?p = "root @ ?n"
  show ?thesis
    unfolding extract_entry_def
  proof (rule triple_bind [OF triple_safeJoin [OF names]])
    fix p
    let ?P = "\<lambda>f. p = ?p \<and> tree_inv root f0 L D f \<and> (\<forall>q. prefix q (butlast ?n) \<longrightarrow> \<not> is_link f (root @ q))"
    show "triple ?P (if p = root then ret [] else bind_io (MkdirAll (butlast p)) (\<lambda>_.
         case th_Typeflag h of
           TypeDir \<Rightarrow> bind_io (MkdirAll p) (\<lambda>_. ret [p])
         | TypeReg \<Rightarrow> bind_io (write_file p (th_body h)) (\<lambda>_. bind_io (applyMeta chown p h) (\<lambda>_. ret []))
         | TypeSymlink \<Rightarrow> bind_io (attempt (os_Remove p)) (\<lambda>_.
             bind_io (make_at (read_link (th_Linkname h)) p) (\<lambda>_.
             bind_io (if chown then attempt (Lchown p (th_Uid h) (th_Gid h)) else ret ()) (\<lambda>_. ret [])))
         | TypeLink \<Rightarrow> bind_io (safeJoin root (th_Linkname h)) (\<lambda>target.
             bind_io (attempt (os_Remove p)) (\<lambda>_. bind_io (Link target p) (\<lambda>_. ret [])))
         | TypeOther \<Rightarrow> ret []))
       (\<lambda>ps f. tree_inv root f0 (insert ?p L) (set ps \<union> D) f \<and> set ps \<subseteq> {?p}) (untouched root f0)"
    proof (cases "p = ?p \<and> p \<noteq> root")
      case False
      then show ?thesis using tree_inv_mono [of root f0 L D _ "insert ?p L"]
        by (auto simp: triple_def ret_def)
    next
      case True
      then have "?n \<noteq> []" by auto
      then obtain cs c where n: "?n = cs @ [c]" by (cases ?n rule: rev_cases) auto
      have all: "list_all name_ok (root @ cs)" "list_all name_ok ((root @ cs) @ [c])"
        using names Clean_names [of "th_Name h"] n by simp_all
      have p: "p = (root @ cs) @ [c]" "butlast p = root @ cs" using True n by (simp_all add: butlast_append)
      have mk: "triple ?P (MkdirAll (butlast p)) (\<lambda>_. at_dir root f0 L D (root @ cs)) (untouched root f0)"
        unfolding p(2) by (rule triple_weaken [OF triple_MkdirAll [OF all(1)]]) (use n in \<open>auto simp: no_links_below_def\<close>)
      have "p \<notin> L" "p \<notin> D" using new True by simp_all
      note body = triple_bind [OF mk triple_entry_body [OF all(2) _ p(1) this]]
      have "p \<noteq> root" "p = ?p" using True by blast+
      show ?thesis
        unfolding if_not_P [OF \<open>p \<noteq> root\<close>]
        by (rule triple_weaken [OF body]) (use \<open>p = ?p\<close> in simp_all)
    qed
  qed
qed

lemma triple_entries:
  assumes "list_all name_ok root" "distinct (map (\<lambda>h. root @ Clean (th_Name h)) hs)"
    and "L \<inter> (\<lambda>h. root @ Clean (th_Name h)) ` set hs = {}" "D \<inter> (\<lambda>h. root @ Clean (th_Name h)) ` set hs = {}"
    and "D = fst ` set dirs" "\<forall>p \<in> D. list_all name_ok p"
  shows "triple (tree_inv root f0 L D) (extract_all root chown hs dirs)
    (\<lambda>ds f. (\<exists>M. tree_inv root f0 M (fst ` set ds) f) \<and> (\<forall>p \<in> fst ` set ds. list_all name_ok p)) (untouched root f0)"
  using assms(2-)
proof (induction hs arbitrary: L D dirs)
  case Nil
  then show ?case by (auto intro: triple_ret)
next
  case (Cons h hs)
  let ?p = "root @ Clean (th_Name h)"
  have new: "?p \<notin> L" "?p \<notin> D" using Cons.prems(2,3) by auto
  show ?case
    unfolding extract_all.simps
  proof (rule triple_bind [OF triple_entry [OF assms(1) new]])
    fix ps :: "path list"
    show "triple (\<lambda>f. tree_inv root f0 (insert ?p L) (set ps \<union> D) f \<and> set ps \<subseteq> {?p})
      (extract_all root chown hs (map (\<lambda>p. (p, h)) ps @ dirs))
      (\<lambda>ds f. (\<exists>M. tree_inv root f0 M (fst ` set ds) f) \<and> (\<forall>p \<in> fst ` set ds. list_all name_ok p)) (untouched root f0)"
    proof (cases "set ps \<subseteq> {?p}")
      case True
      have "triple (tree_inv root f0 (insert ?p L) (set ps \<union> D)) (extract_all root chown hs (map (\<lambda>p. (p, h)) ps @ dirs))
          (\<lambda>ds f. (\<exists>M. tree_inv root f0 M (fst ` set ds) f) \<and> (\<forall>p \<in> fst ` set ds. list_all name_ok p)) (untouched root f0)"
      proof (rule Cons.IH)
        show "(set ps \<union> D) \<inter> (\<lambda>h. root @ Clean (th_Name h)) ` set hs = {}"
        proof -
          have "?p \<notin> (\<lambda>h. root @ Clean (th_Name h)) ` set hs" using Cons.prems(1) by simp
          moreover have "D \<inter> (\<lambda>h. root @ Clean (th_Name h)) ` set hs = {}" using Cons.prems(3) by auto
          moreover have "set ps = {} \<or> set ps = {?p}" using True by (rule subset_singletonD)
          ultimately show ?thesis by (elim disjE) simp_all
        qed
        show "\<forall>p \<in> set ps \<union> D. list_all name_ok p"
          using Cons.prems(5) True assms(1) Clean_names by auto
      qed (use Cons.prems in \<open>auto simp: image_Un image_image\<close>)
      then show ?thesis by (rule triple_weaken) auto
    qed (simp add: triple_def)
  qed
qed

lemma triple_directory_modes:
  assumes "list_all name_ok root" "\<And>p h. (p, h) \<in> set dirs \<Longrightarrow> p \<in> D \<and> list_all name_ok p"
  shows "triple (tree_inv root f0 L D) (for_each dirs (\<lambda>(p, h). applyMeta chown p h)) (\<lambda>_. tree_inv root f0 L D) (untouched root f0)"
proof (rule triple_for_each, clarify)
  fix p h assume ph: "(p, h) \<in> set dirs"
  have "triple (tree_inv root f0 L D) (applyMeta chown p h) (\<lambda>_. tree_inv root f0 L D) (untouched root f0)"
    unfolding triple_def
  proof (intro allI impI)
    fix f assume f: "tree_inv root f0 L D f"
    have p: "strict_prefix root p" "dirs_to f p" "list_all name_ok p"
      using tree_invD(6,7) [OF f] assms(2) [OF ph] by simp_all
    then obtain d c where dc: "p = d @ [c]" "prefix root d"
      by (cases p rule: rev_cases) (auto simp: strict_prefix_def prefix_snoc)
    have pl: "place f p = Inr p" "followed f p = Inr p"
      using p dc by (simp_all add: place_plain followed_dir dirs_to_snoc)
    have keep: "place (set_meta p u f) p = Inr p \<and> followed (set_meta p u f) p = Inr p" for u
      using p dc by (simp add: place_plain followed_dir dirs_to_def set_meta_def prefix_snoc)
    have node: "fs_node f p = Some Directory" "fs_node (set_meta p u f) = fs_node f" for u
      using dirs_to_node [OF p(2)] by (simp_all add: set_meta_def)
    have inv: "tree_inv root f0 L D (set_meta p u f)" "tree_inv root f0 L D (set_meta p v (set_meta p u f))" for u v
      using f p(1) by (simp_all add: tree_inv_meta strict_prefix_def)
    show "case applyMeta chown p h f of (Inl e, g) \<Rightarrow> untouched root f0 g | (Inr a, g) \<Rightarrow> tree_inv root f0 L D g"
      using pl keep node inv by (auto simp: applyMeta_def Lchown_def Chmod_def bind_io_def node_at_def asks_def ret_def
          throw_def modify_def)
  qed
  then show "triple (tree_inv root f0 L D) (applyMeta chown p h) (\<lambda>_. tree_inv root f0 L D) (untouched root f0)" .
qed

section \<open>Extraction stays inside\<close>

text \<open>The directory an image is unpacked into: it is not there yet, and its parent is a directory.\<close>

definition fresh_root :: "path \<Rightarrow> fs \<Rightarrow> bool" where
  "fresh_root dst f \<longleftrightarrow> dst \<noteq> [] \<and> list_all name_ok dst \<and> dirs_to f (butlast dst) \<and>
     (\<forall>q. prefix dst q \<longrightarrow> fs_node f q = None)"

lemma MkdirAll_fresh:
  assumes "fresh_root dst f"
  shows "fst (MkdirAll dst f) = Inr () \<and> tree_inv dst f {} {} (snd (MkdirAll dst f))"
proof -
  obtain d c where dst: "dst = d @ [c]" using assms by (cases dst rule: rev_cases) (auto simp: fresh_root_def)
  have f: "dirs_to f d" "list_all name_ok (d @ [c])" "\<And>q. prefix (d @ [c]) q \<Longrightarrow> fs_node f q = None"
    using assms by (simp_all add: fresh_root_def dst)
  have nl: "\<not> is_link f (d @ [c])" "fs_node f (d @ [c]) = None" using f(3) by (simp_all add: is_link_def)
  let ?g = "set_node (d @ [c]) (Some Directory) f"
  have "MkdirAll dst f = mkdir_step (d @ [c]) f"
    using mkdir_prefixes_exist [OF f(1)] f(2)
    by (simp add: MkdirAll_def dst prefixes_append for_each_append bind_io_def ret_def split: prod.split sum.split)
  also have "\<dots> = (Inr (), ?g)"
    using f(1,2) nl by (simp add: mkdir_step_def make_at_def node_at_def asks_def bind_io_def modify_def followed_plain place_plain)
  finally have eq: "MkdirAll dst f = (Inr (), ?g)" .
  have "tree_inv dst f {} {} ?g"
    unfolding tree_inv_def dst
  proof (intro conjI allI impI ballI)
    show "untouched (d @ [c]) f ?g" by (auto simp: untouched_def set_node_def)
    show "dirs_to ?g (d @ [c])"
      using dirs_to_set_node [OF f(1), of "d @ [c]"] nl by (simp add: dirs_to_snoc) (simp add: set_node_def)
    show "fs_node ?g q = Some Directory" if q: "prefix (d @ [c]) q" "fs_node ?g (q @ [e]) \<noteq> None" for q e
    proof -
      have "q @ [e] \<noteq> d @ [c]" using q(1) by auto
      then have "fs_node ?g (q @ [e]) = None" using f(3) [of "q @ [e]"] q(1) by (auto simp: set_node_def prefix_snoc)
      then show ?thesis using q(2) by simp
    qed
    show "q \<in> set (fs_paths ?g)" if "prefix (d @ [c]) q" "fs_node ?g q \<noteq> None" "q \<noteq> d @ [c]" for q
      using that f(3) [of q] by (simp add: set_node_def)
    show "q \<in> {}" if "prefix (d @ [c]) q" "is_link ?g q" for q
      using that f(3) [of q] by (auto simp: is_link_def set_node_def split: if_splits)
  qed auto
  with eq show ?thesis by simp
qed

text \<open>
  (C31) Unpacking an archive in which no two entries have the same path changes nothing on the host outside
  the directory it is unpacked into, neither a file nor an owner or mode, whatever the names, link
  targets and types of the entries, and whether it succeeds or fails on the way.\<close>

theorem extraction_stays_inside:
  assumes "fresh_root dst f" "distinct (map (\<lambda>h. Clean (th_Name h)) hs)" "\<not> prefix dst q"
  shows "fs_node (snd (extractTar dst chown hs f)) q = fs_node f q \<and>
    fs_meta (snd (extractTar dst chown hs f)) q = fs_meta f q"
proof -
  have names: "list_all name_ok dst" using assms(1) by (simp add: fresh_root_def)
  have dist: "distinct (map (\<lambda>h. dst @ Clean (th_Name h)) hs)"
    using assms(2) by (auto simp: distinct_map inj_on_def)
  have mk: "triple (\<lambda>g. g = f) (MkdirAll dst) (\<lambda>_. tree_inv dst f {} {}) (untouched dst f)"
    using MkdirAll_fresh [OF assms(1)] by (auto simp: triple_def split: prod.split)
  have all: "triple (tree_inv dst f {} {}) (extract_all dst chown hs [])
      (\<lambda>ds g. (\<exists>M. tree_inv dst f M (fst ` set ds) g) \<and> (\<forall>p \<in> fst ` set ds. list_all name_ok p)) (untouched dst f)"
    by (rule triple_entries [OF names dist]) auto
  have modes: "triple (\<lambda>g. (\<exists>M. tree_inv dst f M (fst ` set ds) g) \<and> (\<forall>p \<in> fst ` set ds. list_all name_ok p))
      (for_each ds (\<lambda>(p, h). applyMeta chown p h)) (\<lambda>_. untouched dst f) (untouched dst f)" for ds
  proof (cases "\<forall>p \<in> fst ` set ds. list_all name_ok p")
    case True
    have keep: "triple (tree_inv dst f M (fst ` set ds)) (for_each ds (\<lambda>(p, h). applyMeta chown p h))
        (\<lambda>_. tree_inv dst f M (fst ` set ds)) (untouched dst f)" for M
      by (rule triple_directory_modes [OF names]) (use True in force)
    have "triple (tree_inv dst f M (fst ` set ds)) (for_each ds (\<lambda>(p, h). applyMeta chown p h))
        (\<lambda>_. untouched dst f) (untouched dst f)" for M
      by (rule triple_weaken [OF keep [of M]]) (auto dest: tree_inv_untouched)
    then have "triple (\<lambda>g. \<exists>M. tree_inv dst f M (fst ` set ds) g) (for_each ds (\<lambda>(p, h). applyMeta chown p h))
        (\<lambda>_. untouched dst f) (untouched dst f)"
      by (rule triple_ex)
    then show ?thesis by (rule triple_weaken) auto
  qed (unfold triple_def, blast)
  have "triple (\<lambda>g. g = f) (extractTar dst chown hs) (\<lambda>_. untouched dst f) (untouched dst f)"
    unfolding extractTar_def by (rule triple_bind [OF mk triple_bind [OF all modes]])
  then have "untouched dst f (snd (extractTar dst chown hs f))"
    by (auto simp: triple_def split: prod.splits sum.splits)
  with assms(3) show ?thesis by (simp add: untouched_def)
qed

text \<open>A host with one file, and two archives.\<close>

definition demo_host :: fs where
  "demo_host = \<lparr>fs_node = (\<lambda>_. None)([] \<mapsto> Directory, [''tmp''] \<mapsto> Directory, [''etc''] \<mapsto> Directory,
     [''etc'', ''passwd''] \<mapsto> Regular ''root''), fs_meta = (\<lambda>_. \<lparr>mt_uid = 0, mt_gid = 0, mt_mode = 420\<rparr>), fs_paths = []\<rparr>"

definition demo_entry :: "string \<Rightarrow> typeflag \<Rightarrow> string \<Rightarrow> string \<Rightarrow> tar_header" where
  "demo_entry name flag link body = \<lparr>th_Name = name, th_Typeflag = flag, th_Linkname = link, th_Uid = 0, th_Gid = 0,
     th_Mode = 511, th_body = body\<rparr>"

theorem extraction_stays_inside_witness:
  "fs_node (snd (extractTar [''tmp'', ''tree''] True
     [demo_entry ''etc'' TypeSymlink ''/etc'' [], demo_entry ''../etc/passwd'' TypeReg [] ''evil''] demo_host)) [''etc'', ''passwd''] =
   Some (Regular ''root'')"
proof -
  have "fresh_root [''tmp'', ''tree''] demo_host"
    by (auto simp: fresh_root_def demo_host_def name_ok_def dirs_to_def prefix_Cons)
  moreover have "distinct (map (\<lambda>h. Clean (th_Name h))
      [demo_entry ''etc'' TypeSymlink ''/etc'' [], demo_entry ''../etc/passwd'' TypeReg [] ''evil''])"
    by code_simp
  moreover have "\<not> prefix [''tmp'', ''tree''] [''etc'', ''passwd'']" by simp
  ultimately show ?thesis
    using extraction_stays_inside [of "[''tmp'', ''tree'']" demo_host _ "[''etc'', ''passwd'']" True]
    by (simp add: demo_host_def)
qed

text \<open>With a path twice in the archive it is not so: the check looks at the directories on the way
  and not at the last component, which opening a file follows. A link and then a file of the same name
  write through the link.\<close>

lemma extraction_writes_through_link:
  "fs_node (snd (extractTar [''tmp'', ''tree''] False
     [demo_entry ''x'' TypeSymlink ''/etc/passwd'' [], demo_entry ''x'' TypeReg [] ''evil''] demo_host)) [''etc'', ''passwd''] =
   Some (Regular ''evil'')"
  by code_simp

end
