(* ===== verification/Fc_Guard.thy ===== *)
theory Fc_Guard
  imports Go_Strings
begin

text \<open>
  The network of a microVM on its host: the addresses and the bridge and tap of
  \<^verbatim>\<open>internal/fc/network.go\<close>, and the firewall rules of \<^verbatim>\<open>guard.go\<close> that close the host to its guests.
  \<^item> The programs \<open>ip\<close> and \<open>iptables\<close> and the files under \<open>/proc/sys\<close> are arguments, the fields of
    \<open>machine\<close>, on a world of any type; any call may fail. What iptables is relied on for is the
    predicate \<open>iptables_ok\<close>: a command that succeeds does what its manual says and one that fails does
    nothing.
  \<^item> The commands given to \<open>ip\<close> are recorded with the world they were given in, so that it can be
    said in which state a bridge is brought up.
\<close>

section \<open>Addresses\<close>

record vm_addr =
  Slot :: int
  Index :: int

definition Bridge :: "vm_addr \<Rightarrow> string" where "Bridge a = ''sbxfc'' @ Itoa (Slot a)"
definition Tap :: "vm_addr \<Rightarrow> string" where "Tap a = ''sbxfc'' @ Itoa (Slot a) @ ''-'' @ Itoa (Index a)"
definition Gateway :: "vm_addr \<Rightarrow> string" where "Gateway a = ''10.231.'' @ Itoa (Slot a) @ ''.1''"
definition GuestIP :: "vm_addr \<Rightarrow> string" where
  "GuestIP a = ''10.231.'' @ Itoa (Slot a) @ ''.'' @ Itoa (Index a + 2)"
definition NetNS :: "vm_addr \<Rightarrow> string" where "NetNS a = Tap a"
definition Chain :: "vm_addr \<Rightarrow> string" where "Chain a = ''SBX-FC'' @ Itoa (Slot a)"
definition BootArg :: "vm_addr \<Rightarrow> string" where
  "BootArg a = ''ip='' @ GuestIP a @ ''::'' @ Gateway a @ '':255.255.255.0::eth0:off''"
definition addr_Valid :: "vm_addr \<Rightarrow> bool" where
  "addr_Valid a \<longleftrightarrow> \<not> (Slot a < 0 \<or> Slot a > 253 \<or> Index a < 0 \<or> Index a > 250)"

section \<open>The machine\<close>

datatype run_result = Ok | NoFirewall | Failed
datatype write_result = Written | Write_missing | Write_error
datatype read_result = Content string | Read_missing | Read_error

record 'w machine =
  m_iptables :: "string list \<Rightarrow> 'w \<Rightarrow> run_result \<times> 'w"
  m_ip :: "string list \<Rightarrow> 'w \<Rightarrow> bool \<times> 'w"
  m_write :: "string \<Rightarrow> string \<Rightarrow> 'w \<Rightarrow> write_result \<times> 'w"
  m_read :: "string \<Rightarrow> 'w \<Rightarrow> read_result"
  m_stat :: "string \<Rightarrow> 'w \<Rightarrow> bool"

record guard_cfg =
  g_Port :: int
  g_ProcSys :: string

definition ipt :: "'w machine \<Rightarrow> string \<Rightarrow> string list \<Rightarrow> 'w \<Rightarrow> run_result \<times> 'w" where
  "ipt m table args w = m_iptables m (if table \<noteq> [] then ''-t'' # table # args else args) w"

section \<open>The rules of a bridge\<close>

record share =
  sh_table :: string
  sh_rules :: "string list list"
  sh_hooks :: "(string \<times> string list) list"

definition replies :: "string list" where
  "replies = [''-m'', ''conntrack'', ''--ctstate'', ''ESTABLISHED,RELATED'', ''-j'', ''RETURN'']"

definition filter_port :: "guard_cfg \<Rightarrow> vm_addr \<Rightarrow> string \<Rightarrow> string list" where
  "filter_port g a target = [''-p'', ''tcp'', ''-d'', Gateway a, ''--dport'', Itoa (g_Port g), ''-j'', target]"

definition shares :: "guard_cfg \<Rightarrow> vm_addr \<Rightarrow> share list" where
  "shares g a =
     [\<lparr>sh_table = ''mangle'',
       sh_rules = [replies, filter_port g a ''RETURN'', [''-j'', ''DROP'']],
       sh_hooks = [(''FORWARD'', [''-o'', Bridge a, ''-j'', ''DROP'']),
                   (''FORWARD'', [''-i'', Bridge a, ''-j'', ''DROP'']),
                   (''PREROUTING'', [''-i'', Bridge a, ''-j'', Chain a])]\<rparr>,
      \<lparr>sh_table = '''',
       sh_rules = [replies, filter_port g a ''ACCEPT'', [''-j'', ''DROP'']],
       sh_hooks = [(''INPUT'', [''-i'', Bridge a, ''-j'', Chain a])]\<rparr>]"

text \<open>A list of commands in turn, stopping at the first that fails.\<close>

fun run_all :: "'w machine \<Rightarrow> string \<Rightarrow> string list list \<Rightarrow> 'w \<Rightarrow> run_result \<times> 'w" where
  "run_all m t [] w = (Ok, w)"
| "run_all m t (c # cs) w = (case ipt m t c w of (Ok, w1) \<Rightarrow> run_all m t cs w1 | (e, w1) \<Rightarrow> (e, w1))"

definition holds :: "'w machine \<Rightarrow> share \<Rightarrow> string \<Rightarrow> 'w \<Rightarrow> bool \<times> 'w" where
  "holds m s chain w =
     (case run_all m (sh_table s) (map (\<lambda>r. ''-C'' # chain # r) (sh_rules s)) w of (r, w1) \<Rightarrow> (r = Ok, w1))"

text \<open>Removing a rule: up to sixteen copies of it. The first component says that there is no firewall.\<close>

fun delete_copies :: "nat \<Rightarrow> 'w machine \<Rightarrow> string \<Rightarrow> string list \<Rightarrow> 'w \<Rightarrow> bool \<times> 'w" where
  "delete_copies 0 m t h w = (False, w)"
| "delete_copies (Suc n) m t h w = (case ipt m t (''-D'' # h) w of
       (Ok, w1) \<Rightarrow> delete_copies n m t h w1
     | (NoFirewall, w1) \<Rightarrow> (True, w1)
     | (Failed, w1) \<Rightarrow> (False, w1))"

fun delete_hooks :: "'w machine \<Rightarrow> string \<Rightarrow> (string \<times> string list) list \<Rightarrow> 'w \<Rightarrow> bool \<times> 'w" where
  "delete_hooks m t [] w = (False, w)"
| "delete_hooks m t ((ch, r) # hs) w = (case delete_copies 16 m t (ch # r) w of
       (True, w1) \<Rightarrow> (True, w1)
     | (False, w1) \<Rightarrow> delete_hooks m t hs w1)"

definition drop_chain :: "'w machine \<Rightarrow> string \<Rightarrow> string \<Rightarrow> 'w \<Rightarrow> bool \<times> 'w" where
  "drop_chain m t chain w = (case ipt m t [''-n'', ''-L'', chain] w of
       (Ok, w1) \<Rightarrow> (case ipt m t [''-F'', chain] w1 of
           (Ok, w2) \<Rightarrow> (case ipt m t [''-X'', chain] w2 of (r, w3) \<Rightarrow> (r = Ok, w3))
         | (_, w2) \<Rightarrow> (False, w2))
     | (_, w1) \<Rightarrow> (True, w1))"

fun release_shares :: "'w machine \<Rightarrow> string \<Rightarrow> share list \<Rightarrow> bool \<Rightarrow> 'w \<Rightarrow> bool \<times> 'w" where
  "release_shares m chain [] ok w = (ok, w)"
| "release_shares m chain (s # ss) ok w = (case delete_hooks m (sh_table s) (sh_hooks s) w of
       (True, w1) \<Rightarrow> (True, w1)
     | (False, w1) \<Rightarrow> (case drop_chain m (sh_table s) chain w1 of
         (b, w2) \<Rightarrow> release_shares m chain ss (ok \<and> b) w2))"

text \<open>\<open>guard_release\<close> says whether it returned no error.\<close>

definition guard_release :: "'w machine \<Rightarrow> guard_cfg \<Rightarrow> vm_addr \<Rightarrow> 'w \<Rightarrow> bool \<times> 'w" where
  "guard_release m g a w = release_shares m (Chain a) (shares g a) True w"

text \<open>Filling one chain: \<open>Some True\<close> is an error after which what was made is removed, \<open>Some False\<close>
  one after which it is not.\<close>

definition flush_fill :: "'w machine \<Rightarrow> share \<Rightarrow> string \<Rightarrow> 'w \<Rightarrow> bool option \<times> 'w" where
  "flush_fill m s chain w =
     (case run_all m (sh_table s) ([''-F'', chain] # map (\<lambda>r. ''-A'' # chain # r) (sh_rules s)) w of
        (Ok, w1) \<Rightarrow> (None, w1)
      | (_, w1) \<Rightarrow> (Some True, w1))"

definition fill_share :: "'w machine \<Rightarrow> string \<Rightarrow> share \<Rightarrow> 'w \<Rightarrow> bool option \<times> 'w" where
  "fill_share m chain s w = (case ipt m (sh_table s) [''-N'', chain] w of
       (Ok, w1) \<Rightarrow> flush_fill m s chain w1
     | (NoFirewall, w1) \<Rightarrow> (Some False, w1)
     | (Failed, w1) \<Rightarrow> (case ipt m (sh_table s) [''-n'', ''-L'', chain] w1 of
         (Ok, w2) \<Rightarrow> (case holds m s chain w2 of
             (True, w3) \<Rightarrow> (None, w3)
           | (False, w3) \<Rightarrow> flush_fill m s chain w3)
       | (_, w2) \<Rightarrow> (Some True, w2)))"

fun fill_shares :: "'w machine \<Rightarrow> string \<Rightarrow> share list \<Rightarrow> 'w \<Rightarrow> bool option \<times> 'w" where
  "fill_shares m chain [] w = (None, w)"
| "fill_shares m chain (s # ss) w = (case fill_share m chain s w of
       (None, w1) \<Rightarrow> fill_shares m chain ss w1
     | (e, w1) \<Rightarrow> (e, w1))"

fun add_hooks :: "'w machine \<Rightarrow> string \<Rightarrow> (string \<times> string list) list \<Rightarrow> 'w \<Rightarrow> bool \<times> 'w" where
  "add_hooks m t [] w = (True, w)"
| "add_hooks m t ((ch, r) # hs) w = (case ipt m t (''-C'' # ch # r) w of
       (Ok, w1) \<Rightarrow> add_hooks m t hs w1
     | (_, w1) \<Rightarrow> (case ipt m t (''-I'' # ch # ''1'' # r) w1 of
         (Ok, w2) \<Rightarrow> add_hooks m t hs w2
       | (_, w2) \<Rightarrow> (False, w2)))"

fun hook_shares :: "'w machine \<Rightarrow> share list \<Rightarrow> 'w \<Rightarrow> bool \<times> 'w" where
  "hook_shares m [] w = (True, w)"
| "hook_shares m (s # ss) w = (case add_hooks m (sh_table s) (sh_hooks s) w of
       (True, w1) \<Rightarrow> hook_shares m ss w1
     | (False, w1) \<Rightarrow> (False, w1))"

definition guard_install :: "'w machine \<Rightarrow> guard_cfg \<Rightarrow> vm_addr \<Rightarrow> 'w \<Rightarrow> bool \<times> 'w" where
  "guard_install m g a w = (case fill_shares m (Chain a) (shares g a) w of
       (Some undo, w1) \<Rightarrow> (False, if undo then snd (guard_release m g a w1) else w1)
     | (None, w1) \<Rightarrow> (case hook_shares m (shares g a) w1 of
         (True, w2) \<Rightarrow> (True, w2)
       | (False, w2) \<Rightarrow> (False, snd (guard_release m g a w2))))"

section \<open>IPv6, and the check\<close>

definition ipv6Path :: "guard_cfg \<Rightarrow> vm_addr \<Rightarrow> string" where
  "ipv6Path g a = (if g_ProcSys g = [] then ''/proc/sys'' else g_ProcSys g) @ ''/net/ipv6/conf/'' @ Bridge a @ ''/disable_ipv6''"

definition IPv6Off :: "'w machine \<Rightarrow> guard_cfg \<Rightarrow> vm_addr \<Rightarrow> 'w \<Rightarrow> bool option" where
  "IPv6Off m g a w = (case m_read m (ipv6Path g a) w of
       Content b \<Rightarrow> Some (TrimSpace b = ''1'')
     | Read_error \<Rightarrow> None
     | Read_missing \<Rightarrow>
         Some (\<not> m_stat m ((if g_ProcSys g = [] then ''/proc/sys'' else g_ProcSys g) @ ''/net/ipv6'') w))"

definition NoIPv6 :: "'w machine \<Rightarrow> guard_cfg \<Rightarrow> vm_addr \<Rightarrow> 'w \<Rightarrow> bool \<times> 'w" where
  "NoIPv6 m g a w = (case m_write m (ipv6Path g a) ''1'' w of
       (Write_error, w1) \<Rightarrow> (False, w1)
     | (_, w1) \<Rightarrow> (IPv6Off m g a w1 = Some True, w1))"

text \<open>\<open>tablesWhole\<close>: \<open>None\<close> is its error, a host without iptables.\<close>

fun shares_whole :: "'w machine \<Rightarrow> string \<Rightarrow> share list \<Rightarrow> 'w \<Rightarrow> bool option \<times> 'w" where
  "shares_whole m chain [] w = (Some True, w)"
| "shares_whole m chain (s # ss) w =
     (case run_all m (sh_table s) ([''-C'', chain, ''-j'', ''DROP''] # map (\<lambda>(ch, r). ''-C'' # ch # r) (sh_hooks s)) w of
        (Ok, w1) \<Rightarrow> shares_whole m chain ss w1
      | (NoFirewall, w1) \<Rightarrow> (None, w1)
      | (Failed, w1) \<Rightarrow> (Some False, w1))"

definition tablesWhole :: "'w machine \<Rightarrow> guard_cfg \<Rightarrow> vm_addr \<Rightarrow> 'w \<Rightarrow> bool option \<times> 'w" where
  "tablesWhole m g a w = shares_whole m (Chain a) (shares g a) w"

definition Whole :: "'w machine \<Rightarrow> guard_cfg \<Rightarrow> vm_addr \<Rightarrow> 'w \<Rightarrow> bool option \<times> 'w" where
  "Whole m g a w = (case tablesWhole m g a w of
       (Some True, w1) \<Rightarrow> (IPv6Off m g a w1, w1)
     | (r, w1) \<Rightarrow> (r, w1))"

text \<open>\<open>Ensure\<close>: whether it returned no error.\<close>

definition Ensure :: "'w machine \<Rightarrow> guard_cfg \<Rightarrow> vm_addr \<Rightarrow> 'w \<Rightarrow> bool \<times> 'w" where
  "Ensure m g a w = (case tablesWhole m g a w of
       (None, w1) \<Rightarrow> (False, w1)
     | (Some tables, w1) \<Rightarrow>
         (let v6off = (IPv6Off m g a w1 = Some True) in
          if tables \<and> v6off then (True, w1)
          else (case (if v6off then (True, w1) else NoIPv6 m g a w1) of
              (False, w2) \<Rightarrow> (False, w2)
            | (True, w2) \<Rightarrow> if tables then (True, w2) else guard_install m g a w2)))"

section \<open>Bridge and tap\<close>

record 'w network =
  n_guard :: "guard_cfg option"
  n_tapOwner :: "vm_addr \<Rightarrow> int"
  n_TapOwner :: "(string \<Rightarrow> 'w \<Rightarrow> int option) option"
  n_PerVMNetNS :: bool
  n_netnsExists :: "vm_addr \<Rightarrow> 'w \<Rightarrow> bool"

type_synonym 'w net_state = "'w \<times> (string list \<times> 'w) list"

definition ip :: "'w machine \<Rightarrow> string list \<Rightarrow> 'w net_state \<Rightarrow> bool \<times> 'w net_state" where
  "ip m args = (\<lambda>(w, log). case m_ip m args w of (b, w1) \<Rightarrow> (b, w1, (args, w) # log))"

definition on_world :: "('w \<Rightarrow> bool \<times> 'w) \<Rightarrow> 'w net_state \<Rightarrow> bool \<times> 'w net_state" where
  "on_world f = (\<lambda>(w, log). case f w of (b, w1) \<Rightarrow> (b, w1, log))"

definition exists_dev :: "'w machine \<Rightarrow> string \<Rightarrow> 'w net_state \<Rightarrow> bool \<times> 'w net_state" where
  "exists_dev m dev = ip m [''link'', ''show'', ''dev'', dev]"

text \<open>Calls that end a function when they fail, and one whose result is ignored.\<close>

definition and_then :: "('s \<Rightarrow> bool \<times> 's) \<Rightarrow> ('s \<Rightarrow> bool \<times> 's) \<Rightarrow> 's \<Rightarrow> bool \<times> 's" where
  "and_then f k s = (case f s of (True, s1) \<Rightarrow> k s1 | (False, s1) \<Rightarrow> (False, s1))"

definition ignoring :: "('s \<Rightarrow> bool \<times> 's) \<Rightarrow> 's \<Rightarrow> bool \<times> 's" where
  "ignoring f s = (True, snd (f s))"

definition branch :: "('s \<Rightarrow> bool \<times> 's) \<Rightarrow> ('s \<Rightarrow> bool \<times> 's) \<Rightarrow> ('s \<Rightarrow> bool \<times> 's) \<Rightarrow> 's \<Rightarrow> bool \<times> 's" where
  "branch c f g s = (case c s of (True, s1) \<Rightarrow> f s1 | (False, s1) \<Rightarrow> g s1)"

definition nothing :: "'s \<Rightarrow> bool \<times> 's" where "nothing s = (True, s)"

definition fails :: "'s \<Rightarrow> bool \<times> 's" where "fails s = (False, s)"

fun each_of :: "'a list \<Rightarrow> ('a \<Rightarrow> 's \<Rightarrow> bool \<times> 's) \<Rightarrow> 's \<Rightarrow> bool \<times> 's" where
  "each_of [] f = nothing"
| "each_of (x # xs) f = and_then (f x) (each_of xs f)"

definition net_guard :: "'w machine \<Rightarrow> 'w network \<Rightarrow> vm_addr \<Rightarrow> 'w net_state \<Rightarrow> bool \<times> 'w net_state" where
  "net_guard m n a = (case n_guard n of
       None \<Rightarrow> nothing
     | Some g \<Rightarrow> and_then (on_world (NoIPv6 m g a)) (on_world (guard_install m g a)))"

definition recheck :: "'w machine \<Rightarrow> 'w network \<Rightarrow> vm_addr \<Rightarrow> 'w net_state \<Rightarrow> bool \<times> 'w net_state" where
  "recheck m n a = (case n_guard n of
       None \<Rightarrow> nothing
     | Some g \<Rightarrow> on_world (Ensure m g a))"

text \<open>A command that counts as done when the bridge is there, whatever it returned.\<close>

definition unless_exists :: "'w machine \<Rightarrow> string list \<Rightarrow> string \<Rightarrow> 'w net_state \<Rightarrow> bool \<times> 'w net_state" where
  "unless_exists m args dev = branch (ip m args) nothing (exists_dev m dev)"

definition in_ns :: "string \<Rightarrow> string list \<Rightarrow> string list" where "in_ns ns args = ''-n'' # ns # args"

definition netns_steps :: "vm_addr \<Rightarrow> int \<Rightarrow> string list list" where
  "netns_steps a owner =
     (let ns = NetNS a; host = Tap a; tap = Tap a; br = Bridge a in
      [[''netns'', ''add'', ns],
       [''link'', ''add'', host, ''type'', ''veth'', ''peer'', ''name'', ''eth0'', ''netns'', ns],
       [''link'', ''set'', host, ''master'', br],
       [''link'', ''set'', host, ''up''],
       in_ns ns [''link'', ''add'', ''br0'', ''type'', ''bridge''],
       in_ns ns [''link'', ''set'', ''eth0'', ''master'', ''br0''],
       in_ns ns ([''tuntap'', ''add'', ''dev'', tap, ''mode'', ''tap''] @
         (if owner \<ge> 0 then [''user'', Itoa owner] else [])),
       in_ns ns [''link'', ''set'', tap, ''master'', ''br0'']] @
      concat (map (\<lambda>dev. [in_ns ns [''link'', ''set'', ''dev'', dev, ''addrgenmode'', ''none''],
        in_ns ns [''link'', ''set'', dev, ''up'']]) [''br0'', ''eth0'', tap]))"

definition ensureNetNS :: "'w machine \<Rightarrow> 'w network \<Rightarrow> vm_addr \<Rightarrow> 'w net_state \<Rightarrow> bool \<times> 'w net_state" where
  "ensureNetNS m n a =
     and_then (ignoring (ip m [''netns'', ''del'', NetNS a]))
     (and_then (branch (exists_dev m (Tap a)) (ip m [''link'', ''del'', Tap a]) nothing)
       (branch (each_of (netns_steps a (n_tapOwner n a)) (ip m)) nothing
         (and_then (ignoring (ip m [''netns'', ''del'', NetNS a])) fails)))"

definition wrong_owner :: "'w network \<Rightarrow> vm_addr \<Rightarrow> 'w net_state \<Rightarrow> bool" where
  "wrong_owner n a = (\<lambda>(w, log). n_tapOwner n a \<ge> 0 \<and> (case n_TapOwner n of
       None \<Rightarrow> False
     | Some own \<Rightarrow> (case own (Tap a) w of None \<Rightarrow> False | Some got \<Rightarrow> got \<noteq> n_tapOwner n a)))"

definition attach_tap :: "'w machine \<Rightarrow> 'w network \<Rightarrow> vm_addr \<Rightarrow> 'w net_state \<Rightarrow> bool \<times> 'w net_state" where
  "attach_tap m n a =
     and_then (\<lambda>s. if wrong_owner n a s then ip m [''link'', ''del'', Tap a] s else (True, s))
     (and_then (branch (exists_dev m (Tap a)) nothing
         (ip m ([''tuntap'', ''add'', ''dev'', Tap a, ''mode'', ''tap''] @
           (if n_tapOwner n a \<ge> 0 then [''user'', Itoa (n_tapOwner n a)] else []))))
       (each_of [[''link'', ''set'', Tap a, ''master'', Bridge a], [''link'', ''set'', Tap a, ''up'']] (ip m)))"

definition make_bridge :: "'w machine \<Rightarrow> 'w network \<Rightarrow> vm_addr \<Rightarrow> 'w net_state \<Rightarrow> bool \<times> 'w net_state" where
  "make_bridge m n a =
     and_then (unless_exists m [''link'', ''add'', Bridge a, ''type'', ''bridge''] (Bridge a))
     (and_then (branch (net_guard m n a) nothing (and_then (ignoring (ip m [''link'', ''del'', Bridge a])) fails))
       (each_of [[''addr'', ''add'', Gateway a @ ''/24'', ''dev'', Bridge a], [''link'', ''set'', Bridge a, ''up'']]
         (\<lambda>args. unless_exists m args (Bridge a))))"

definition EnsureTap :: "'w machine \<Rightarrow> 'w network \<Rightarrow> vm_addr \<Rightarrow> 'w net_state \<Rightarrow> bool \<times> 'w net_state" where
  "EnsureTap m n a =
     (if \<not> addr_Valid a then fails
      else and_then (branch (exists_dev m (Bridge a)) (recheck m n a) (make_bridge m n a))
        (if n_PerVMNetNS n then ensureNetNS m n a else attach_tap m n a))"

definition RecheckGuard :: "'w machine \<Rightarrow> 'w network \<Rightarrow> vm_addr \<Rightarrow> 'w net_state \<Rightarrow> bool \<times> 'w net_state" where
  "RecheckGuard m n a =
     (if \<not> addr_Valid a then fails
      else if n_guard n = None then nothing
      else branch (exists_dev m (Bridge a)) (recheck m n a) nothing)"

definition RemoveBridge :: "'w machine \<Rightarrow> 'w network \<Rightarrow> vm_addr \<Rightarrow> 'w net_state \<Rightarrow> bool \<times> 'w net_state" where
  "RemoveBridge m n a =
     and_then (case n_guard n of None \<Rightarrow> nothing | Some g \<Rightarrow> on_world (guard_release m g a))
       (branch (exists_dev m (Bridge a)) (ip m [''link'', ''del'', Bridge a]) nothing)"

definition EnsureGuard :: "'w machine \<Rightarrow> 'w network \<Rightarrow> int \<Rightarrow> 'w net_state \<Rightarrow> bool \<times> 'w net_state" where
  "EnsureGuard m n slot =
     (let a = \<lparr>Slot = slot, Index = 0\<rparr> in
      if n_guard n = None \<or> \<not> addr_Valid a then nothing
      else branch (exists_dev m (Bridge a)) (ignoring (recheck m n a)) nothing)"

definition RemoveTap :: "'w machine \<Rightarrow> 'w network \<Rightarrow> vm_addr \<Rightarrow> 'w net_state \<Rightarrow> bool \<times> 'w net_state" where
  "RemoveTap m n a =
     branch (\<lambda>s. case ip m [''netns'', ''del'', NetNS a] s of (ok, s1) \<Rightarrow>
         (\<not> ok \<and> n_PerVMNetNS n \<and> n_netnsExists n a (fst s1), s1))
       fails (branch (exists_dev m (Tap a)) (ip m [''link'', ''del'', Tap a]) nothing)"

definition GuardWhole :: "'w machine \<Rightarrow> 'w network \<Rightarrow> int \<Rightarrow> 'w \<Rightarrow> bool option \<times> 'w" where
  "GuardWhole m n slot w = (case n_guard n of
       None \<Rightarrow> (Some True, w)
     | Some g \<Rightarrow> Whole m g \<lparr>Slot = slot, Index = 0\<rparr> w)"

section \<open>What is relied on\<close>

type_synonym 'w rule_view = "'w \<Rightarrow> string \<Rightarrow> string \<Rightarrow> string list list option"

definition upd :: "(string \<Rightarrow> string \<Rightarrow> 'a) \<Rightarrow> string \<Rightarrow> string \<Rightarrow> 'a \<Rightarrow> string \<Rightarrow> string \<Rightarrow> 'a" where
  "upd R t ch x = R(t := (R t)(ch := x))"

text \<open>
  The documented behaviour of iptables, on a view of the world that gives the rules of each chain of
  each table: a command that fails changes no rule, and one that succeeds makes, empties, lists or
  deletes a chain, or appends, inserts, finds or deletes a rule of it.
\<close>

definition iptables_ok :: "'w machine \<Rightarrow> 'w rule_view \<Rightarrow> bool" where
  "iptables_ok m rules \<longleftrightarrow>
     (\<forall>t args w. fst (ipt m t args w) \<noteq> Ok \<longrightarrow> rules (snd (ipt m t args w)) = rules w) \<and>
     (\<forall>t ch w. fst (ipt m t [''-N'', ch] w) = Ok \<longrightarrow> rules (snd (ipt m t [''-N'', ch] w)) = upd (rules w) t ch (Some [])) \<and>
     (\<forall>t ch w. fst (ipt m t [''-F'', ch] w) = Ok \<longrightarrow> rules (snd (ipt m t [''-F'', ch] w)) = upd (rules w) t ch (Some [])) \<and>
     (\<forall>t ch w. fst (ipt m t [''-X'', ch] w) = Ok \<longrightarrow> rules (snd (ipt m t [''-X'', ch] w)) = upd (rules w) t ch None) \<and>
     (\<forall>t ch w. fst (ipt m t [''-n'', ''-L'', ch] w) = Ok \<longrightarrow> rules (snd (ipt m t [''-n'', ''-L'', ch] w)) = rules w) \<and>
     (\<forall>t ch r w. fst (ipt m t (''-A'' # ch # r) w) = Ok \<longrightarrow>
        (\<exists>rs. rules w t ch = Some rs \<and> rules (snd (ipt m t (''-A'' # ch # r) w)) = upd (rules w) t ch (Some (rs @ [r])))) \<and>
     (\<forall>t ch r w. fst (ipt m t (''-I'' # ch # ''1'' # r) w) = Ok \<longrightarrow>
        (\<exists>rs. rules w t ch = Some rs \<and> rules (snd (ipt m t (''-I'' # ch # ''1'' # r) w)) = upd (rules w) t ch (Some (r # rs)))) \<and>
     (\<forall>t ch r w. fst (ipt m t (''-C'' # ch # r) w) = Ok \<longrightarrow>
        (\<exists>rs. rules w t ch = Some rs \<and> r \<in> set rs \<and> rules (snd (ipt m t (''-C'' # ch # r) w)) = rules w)) \<and>
     (\<forall>t ch r w. fst (ipt m t (''-D'' # ch # r) w) = Ok \<longrightarrow>
        (\<exists>rs. rules w t ch = Some rs \<and> rules (snd (ipt m t (''-D'' # ch # r) w)) = upd (rules w) t ch (Some (remove1 r rs))))"

lemma iptables_okD:
  assumes "iptables_ok m rules"
  shows ipt_fail: "ipt m t args w = (res, w') \<Longrightarrow> res \<noteq> Ok \<Longrightarrow> rules w' = rules w"
    and ipt_N: "ipt m t [''-N'', ch] w = (Ok, w') \<Longrightarrow> rules w' = upd (rules w) t ch (Some [])"
    and ipt_F: "ipt m t [''-F'', ch] w = (Ok, w') \<Longrightarrow> rules w' = upd (rules w) t ch (Some [])"
    and ipt_X: "ipt m t [''-X'', ch] w = (Ok, w') \<Longrightarrow> rules w' = upd (rules w) t ch None"
    and ipt_L: "ipt m t [''-n'', ''-L'', ch] w = (Ok, w') \<Longrightarrow> rules w' = rules w"
    and ipt_A: "ipt m t (''-A'' # ch # r) w = (Ok, w') \<Longrightarrow>
      \<exists>rs. rules w t ch = Some rs \<and> rules w' = upd (rules w) t ch (Some (rs @ [r]))"
    and ipt_I: "ipt m t (''-I'' # ch # ''1'' # r) w = (Ok, w') \<Longrightarrow>
      \<exists>rs. rules w t ch = Some rs \<and> rules w' = upd (rules w) t ch (Some (r # rs))"
    and ipt_C: "ipt m t (''-C'' # ch # r) w = (Ok, w') \<Longrightarrow>
      \<exists>rs. rules w t ch = Some rs \<and> r \<in> set rs \<and> rules w' = rules w"
    and ipt_D: "ipt m t (''-D'' # ch # r) w = (Ok, w') \<Longrightarrow>
      \<exists>rs. rules w t ch = Some rs \<and> rules w' = upd (rules w) t ch (Some (remove1 r rs))"
  using assms unfolding iptables_ok_def by (metis fst_conv snd_conv)+

lemma ipt_L_any: "iptables_ok m rules \<Longrightarrow> ipt m t [''-n'', ''-L'', ch] w = (res, w') \<Longrightarrow> rules w' = rules w"
  by (cases "res = Ok") (auto dest: ipt_fail ipt_L)

lemma ipt_C_any: "iptables_ok m rules \<Longrightarrow> ipt m t (''-C'' # ch # r) w = (res, w') \<Longrightarrow> rules w' = rules w"
  by (cases "res = Ok") (auto dest: ipt_fail ipt_C)

section \<open>An installed guard is whole\<close>

definition has_rules :: "(string \<Rightarrow> string \<Rightarrow> string list list option) \<Rightarrow> string \<Rightarrow> string \<Rightarrow> string list list \<Rightarrow> bool" where
  "has_rules R t ch rs \<longleftrightarrow> (\<exists>xs. R t ch = Some xs \<and> set rs \<subseteq> set xs)"

definition has_hooks :: "(string \<Rightarrow> string \<Rightarrow> string list list option) \<Rightarrow> share \<Rightarrow> bool" where
  "has_hooks R s \<longleftrightarrow> (\<forall>(ch, r) \<in> set (sh_hooks s). has_rules R (sh_table s) ch [r])"

text \<open>The guard as it is made, and as much of it as is looked for later.\<close>

definition full :: "guard_cfg \<Rightarrow> vm_addr \<Rightarrow> (string \<Rightarrow> string \<Rightarrow> string list list option) \<Rightarrow> bool" where
  "full g a R \<longleftrightarrow> (\<forall>s \<in> set (shares g a). has_rules R (sh_table s) (Chain a) (sh_rules s) \<and> has_hooks R s)"

definition whole :: "guard_cfg \<Rightarrow> vm_addr \<Rightarrow> (string \<Rightarrow> string \<Rightarrow> string list list option) \<Rightarrow> bool" where
  "whole g a R \<longleftrightarrow> (\<forall>s \<in> set (shares g a). has_rules R (sh_table s) (Chain a) [[''-j'', ''DROP'']] \<and> has_hooks R s)"

lemma full_whole: "full g a R \<Longrightarrow> whole g a R"
  by (auto simp: full_def whole_def shares_def has_rules_def)

lemma run_all_append:
  assumes "iptables_ok m rules" "run_all m t (map (\<lambda>r. ''-A'' # ch # r) rs) w = (Ok, w')" "rules w t ch = Some xs"
  shows "rules w' = upd (rules w) t ch (Some (xs @ rs))"
  using assms(2,3)
proof (induction rs arbitrary: w xs)
  case Nil
  then show ?case by (auto simp: upd_def fun_eq_iff)
next
  case (Cons r rs)
  obtain res w1 where ap: "ipt m t (''-A'' # ch # r) w = (res, w1)" by fastforce
  then have "res = Ok" and rest: "run_all m t (map (\<lambda>r. ''-A'' # ch # r) rs) w1 = (Ok, w')"
    using Cons.prems(1) by (auto split: run_result.splits)
  with ipt_A [OF assms(1)] ap Cons.prems(2) have "rules w1 = upd (rules w) t ch (Some (xs @ [r]))" by fastforce
  moreover from this have "rules w1 t ch = Some (xs @ [r])" by (simp add: upd_def)
  ultimately show ?case using Cons.IH [OF rest] by (auto simp: upd_def fun_eq_iff)
qed

lemma run_all_checks:
  assumes "iptables_ok m rules" "run_all m t (map (\<lambda>(ch, r). ''-C'' # ch # r) cs) w = (res, w')"
  shows "rules w' = rules w" and "res = Ok \<Longrightarrow> \<forall>(ch, r) \<in> set cs. has_rules (rules w) t ch [r]"
proof -
  have "rules w' = rules w \<and> (res = Ok \<longrightarrow> (\<forall>(ch, r) \<in> set cs. has_rules (rules w) t ch [r]))"
    using assms(2)
  proof (induction cs arbitrary: w)
    case Nil
    then show ?case by simp
  next
    case (Cons c cs)
    obtain ch r where c: "c = (ch, r)" by (cases c)
    obtain r1 w1 where ck: "ipt m t (''-C'' # ch # r) w = (r1, w1)" by fastforce
    have same: "rules w1 = rules w" using ipt_C_any [OF assms(1) ck] .
    show ?case
    proof (cases "r1 = Ok")
      case True
      then have "has_rules (rules w) t ch [r]" using ipt_C [OF assms(1)] ck by (fastforce simp: has_rules_def)
      moreover have "run_all m t (map (\<lambda>(ch, r). ''-C'' # ch # r) cs) w1 = (res, w')"
        using Cons.prems ck c True by simp
      ultimately show ?thesis using Cons.IH [of w1] same c by simp
    next
      case False
      then show ?thesis using Cons.prems ck c same by (cases r1) auto
    qed
  qed
  then show "rules w' = rules w" "res = Ok \<Longrightarrow> \<forall>(ch, r) \<in> set cs. has_rules (rules w) t ch [r]" by auto
qed

text \<open>What changes of a chain of the guard's own.\<close>

definition same_but :: "string \<Rightarrow> string \<Rightarrow> (string \<Rightarrow> string \<Rightarrow> 'a) \<Rightarrow> (string \<Rightarrow> string \<Rightarrow> 'a) \<Rightarrow> bool" where
  "same_but t ch R R' \<longleftrightarrow> (\<forall>t' ch'. (t', ch') \<noteq> (t, ch) \<longrightarrow> R' t' ch' = R t' ch')"

lemma same_but_upd: "same_but t ch R (upd R t ch x)" "same_but t ch R R"
  by (auto simp: same_but_def upd_def)

lemma same_but_trans: "same_but t ch R S \<Longrightarrow> same_but t ch S T \<Longrightarrow> same_but t ch R T"
  by (simp add: same_but_def)

lemma run_all_own:
  assumes "iptables_ok m rules" "run_all m t (map (\<lambda>r. ''-A'' # ch # r) rs) w = (res, w')"
  shows "same_but t ch (rules w) (rules w')"
  using assms(2)
proof (induction rs arbitrary: w)
  case Nil
  then show ?case by (simp add: same_but_upd)
next
  case (Cons r rs)
  obtain r1 w1 where ap: "ipt m t (''-A'' # ch # r) w = (r1, w1)" by fastforce
  have step: "same_but t ch (rules w) (rules w1)"
    using ipt_A [OF assms(1), of t ch r w w1] ipt_fail [OF assms(1) ap] ap same_but_upd
    by (cases "r1 = Ok") (fastforce, simp add: same_but_upd)
  show ?case
  proof (cases "r1 = Ok")
    case True
    then have "run_all m t (map (\<lambda>r. ''-A'' # ch # r) rs) w1 = (res, w')" using Cons.prems ap by simp
    from same_but_trans [OF step Cons.IH [OF this]] show ?thesis .
  next
    case False
    then show ?thesis using Cons.prems ap step by (cases r1) auto
  qed
qed

lemma flush_fill_spec:
  assumes "iptables_ok m rules" "flush_fill m s ch w = (res, w')"
  shows "same_but (sh_table s) ch (rules w) (rules w')"
    and "res = None \<Longrightarrow> rules w' = upd (rules w) (sh_table s) ch (Some (sh_rules s))"
proof -
  let ?t = "sh_table s"
  obtain r1 w1 where fl: "ipt m ?t [''-F'', ch] w = (r1, w1)" by fastforce
  obtain r2 w2 where ap: "run_all m ?t (map (\<lambda>r. ''-A'' # ch # r) (sh_rules s)) w1 = (r2, w2)" by fastforce
  show "same_but ?t ch (rules w) (rules w')"
  proof (cases "r1 = Ok")
    case True
    then have "rules w1 = upd (rules w) ?t ch (Some [])" using ipt_F [OF assms(1)] fl by simp
    with run_all_own [OF assms(1) ap] have "same_but ?t ch (rules w) (rules w2)"
      by (auto intro: same_but_trans same_but_upd)
    with True fl ap assms(2) show ?thesis by (auto simp: flush_fill_def split: run_result.splits)
  next
    case False
    then show ?thesis using ipt_fail [OF assms(1) fl] assms(2) fl
      by (cases r1) (auto simp: flush_fill_def same_but_upd)
  qed
  show "rules w' = upd (rules w) ?t ch (Some (sh_rules s))" if "res = None"
  proof -
    have ok: "r1 = Ok" "r2 = Ok" "w' = w2"
      using assms(2) that fl ap by (auto simp: flush_fill_def split: run_result.splits)
    then have "rules w1 = upd (rules w) ?t ch (Some [])" using ipt_F [OF assms(1)] fl by simp
    then show ?thesis using run_all_append [OF assms(1), of ?t ch "sh_rules s" w1 w2 "[]"] ap ok by (simp add: upd_def)
  qed
qed

lemma holds_spec:
  assumes "iptables_ok m rules" "holds m s ch w = (b, w')"
  shows "rules w' = rules w" and "b \<Longrightarrow> sh_rules s \<noteq> [] \<Longrightarrow> has_rules (rules w) (sh_table s) ch (sh_rules s)"
proof -
  have m: "map (\<lambda>r. ''-C'' # ch # r) (sh_rules s) = map (\<lambda>(ch, r). ''-C'' # ch # r) (map (Pair ch) (sh_rules s))"
    by simp
  obtain res where run: "run_all m (sh_table s) (map (\<lambda>(ch, r). ''-C'' # ch # r) (map (Pair ch) (sh_rules s))) w = (res, w')"
      "b = (res = Ok)"
    using assms(2) unfolding holds_def m by (auto split: prod.splits)
  note ck = run_all_checks [OF assms(1) run(1)]
  show "rules w' = rules w" by (rule ck(1))
  show "has_rules (rules w) (sh_table s) ch (sh_rules s)" if b "sh_rules s \<noteq> []"
  proof -
    have all: "\<forall>r \<in> set (sh_rules s). has_rules (rules w) (sh_table s) ch [r]" using ck(2) run(2) that by auto
    have "hd (sh_rules s) \<in> set (sh_rules s)" using that by simp
    with all obtain xs where "rules w (sh_table s) ch = Some xs" unfolding has_rules_def by blast
    with all show ?thesis by (auto simp: has_rules_def)
  qed
qed

lemma fill_share_spec:
  assumes "iptables_ok m rules" "fill_share m ch s w = (res, w')"
  shows "same_but (sh_table s) ch (rules w) (rules w')"
    and "res = None \<Longrightarrow> sh_rules s \<noteq> [] \<Longrightarrow> has_rules (rules w') (sh_table s) ch (sh_rules s)"
proof -
  let ?t = "sh_table s" and ?ff = "\<lambda>w1. flush_fill m s ch w1 = (res, w')"
  obtain r1 w1 where N: "ipt m ?t [''-N'', ch] w = (r1, w1)" by fastforce
  obtain r2 w2 where L: "ipt m ?t [''-n'', ''-L'', ch] w1 = (r2, w2)" by fastforce
  obtain b w3 where H: "holds m s ch w2 = (b, w3)" by fastforce
  have w1: "same_but ?t ch (rules w) (rules w1)"
    using ipt_N [OF assms(1), of ?t ch w w1] ipt_fail [OF assms(1) N] N by (cases "r1 = Ok") (simp_all add: same_but_upd)
  have w23: "rules w2 = rules w1" "rules w3 = rules w1"
    using ipt_L_any [OF assms(1) L] holds_spec(1) [OF assms(1) H] by simp_all
  have cases: "(\<exists>w0. ?ff w0 \<and> same_but ?t ch (rules w) (rules w0)) \<or> (res = None \<and> w' = w3 \<and> b) \<or>
      (res \<noteq> None \<and> rules w' = rules w1)"
    using assms(2) N L H w1 w23 by (cases r1; cases r2; cases b) (auto simp: fill_share_def)
  then show "same_but ?t ch (rules w) (rules w')"
    by (auto simp: w1 w23 intro: same_but_trans flush_fill_spec(1) [OF assms(1)])
  show "has_rules (rules w') ?t ch (sh_rules s)" if ok: "res = None" "sh_rules s \<noteq> []"
  proof (cases "\<exists>w0. ?ff w0")
    case True
    then obtain w0 where "?ff w0" ..
    from flush_fill_spec(2) [OF assms(1) this ok(1)] show ?thesis by (simp add: has_rules_def upd_def)
  next
    case False
    then have "w' = w3" b using cases ok by auto
    then show ?thesis using holds_spec(2) [OF assms(1) H _ ok(2)] w23 by simp
  qed
qed

lemma has_rules_other:
  assumes "same_but t ch R R'" "(t', ch') \<noteq> (t, ch)"
  shows "has_rules R' t' ch' rs = has_rules R t' ch' rs"
  using assms by (auto simp: has_rules_def same_but_def)

lemma fill_shares_spec:
  assumes "iptables_ok m rules" "distinct (map sh_table ss)" "\<forall>s \<in> set ss. sh_rules s \<noteq> []"
    and "fill_shares m ch ss w = (None, w')"
  shows "\<forall>s \<in> set ss. has_rules (rules w') (sh_table s) ch (sh_rules s)"
    and "\<forall>t. t \<notin> sh_table ` set ss \<longrightarrow> rules w' t = rules w t"
proof -
  have "(\<forall>s \<in> set ss. has_rules (rules w') (sh_table s) ch (sh_rules s)) \<and>
      (\<forall>t. t \<notin> sh_table ` set ss \<longrightarrow> rules w' t = rules w t)"
    using assms(2-)
  proof (induction ss arbitrary: w)
    case Nil
    then show ?case by simp
  next
    case (Cons s ss)
    obtain r1 w1 where one: "fill_share m ch s w = (r1, w1)" by fastforce
    have ok: "r1 = None" "fill_shares m ch ss w1 = (None, w')" using Cons.prems(3) one by (auto split: option.splits)
    note f = fill_share_spec [OF assms(1) one]
    have IH: "(\<forall>s \<in> set ss. has_rules (rules w') (sh_table s) ch (sh_rules s)) \<and>
        (\<forall>t. t \<notin> sh_table ` set ss \<longrightarrow> rules w' t = rules w1 t)"
      by (rule Cons.IH) (use Cons.prems ok in auto)
    have "rules w' (sh_table s) = rules w1 (sh_table s)" using IH Cons.prems(1) by auto
    with f(2) ok(1) Cons.prems(2) have "has_rules (rules w') (sh_table s) ch (sh_rules s)" by (simp add: has_rules_def)
    moreover have "rules w1 t = rules w t" if "t \<noteq> sh_table s" for t
      using f(1) that by (auto simp: same_but_def fun_eq_iff)
    ultimately show ?case using IH by auto
  qed
  then show "\<forall>s \<in> set ss. has_rules (rules w') (sh_table s) ch (sh_rules s)"
    "\<forall>t. t \<notin> sh_table ` set ss \<longrightarrow> rules w' t = rules w t" by auto
qed

text \<open>Hooks are only added.\<close>

definition grows :: "(string \<Rightarrow> string \<Rightarrow> string list list option) \<Rightarrow> (string \<Rightarrow> string \<Rightarrow> string list list option) \<Rightarrow> bool" where
  "grows R R' \<longleftrightarrow> (\<forall>t ch rs. has_rules R t ch rs \<longrightarrow> has_rules R' t ch rs)"

lemma grows_refl: "grows R R" and grows_trans: "grows R S \<Longrightarrow> grows S T \<Longrightarrow> grows R T"
  by (auto simp: grows_def)

lemma grows_insert: "R t ch = Some rs \<Longrightarrow> grows R (upd R t ch (Some (r # rs)))"
  by (auto simp: grows_def has_rules_def upd_def)

lemma add_hooks_spec:
  assumes "iptables_ok m rules" "add_hooks m t hs w = (b, w')"
  shows "grows (rules w) (rules w')" and "b \<Longrightarrow> \<forall>(ch, r) \<in> set hs. has_rules (rules w') t ch [r]"
proof -
  have "grows (rules w) (rules w') \<and> (b \<longrightarrow> (\<forall>(ch, r) \<in> set hs. has_rules (rules w') t ch [r]))"
    using assms(2)
  proof (induction hs arbitrary: w)
    case Nil
    then show ?case by (simp add: grows_refl)
  next
    case (Cons h hs)
    obtain ch r where h: "h = (ch, r)" by (cases h)
    obtain r1 w1 where C: "ipt m t (''-C'' # ch # r) w = (r1, w1)" by fastforce
    obtain r2 w2 where I: "ipt m t (''-I'' # ch # ''1'' # r) w1 = (r2, w2)" by fastforce
    have w1: "rules w1 = rules w" using ipt_C_any [OF assms(1) C] .
    show ?case
    proof (cases "r1 = Ok")
      case True
      then have "has_rules (rules w) t ch [r]" using ipt_C [OF assms(1)] C by (fastforce simp: has_rules_def)
      moreover have "add_hooks m t hs w1 = (b, w')" using Cons.prems C h True by simp
      ultimately show ?thesis using Cons.IH [of w1] w1 h by (auto simp: grows_def)
    next
      case notC: False
      show ?thesis
      proof (cases "r2 = Ok")
        case True
        then obtain rs where "rules w t ch = Some rs" "rules w2 = upd (rules w) t ch (Some (r # rs))"
          using ipt_I [OF assms(1)] I w1 by fastforce
        then have g: "grows (rules w) (rules w2)" "has_rules (rules w2) t ch [r]"
          by (simp add: grows_insert) (simp add: has_rules_def upd_def \<open>rules w2 = _\<close>)
        have "add_hooks m t hs w2 = (b, w')" using Cons.prems C I h notC True by (cases r1) auto
        with Cons.IH [of w2] g h show ?thesis by (auto simp: grows_def)
      next
        case False
        then have "rules w2 = rules w" using ipt_fail [OF assms(1) I] w1 by simp
        then show ?thesis using Cons.prems C I h notC False by (cases r1; cases r2) (auto simp: grows_refl)
      qed
    qed
  qed
  then show "grows (rules w) (rules w')" "b \<Longrightarrow> \<forall>(ch, r) \<in> set hs. has_rules (rules w') t ch [r]" by auto
qed

lemma hook_shares_spec:
  assumes "iptables_ok m rules" "hook_shares m ss w = (True, w')"
  shows "grows (rules w) (rules w') \<and> (\<forall>s \<in> set ss. has_hooks (rules w') s)"
  using assms(2)
proof (induction ss arbitrary: w)
  case Nil
  then show ?case by (simp add: grows_refl)
next
  case (Cons s ss)
  obtain b w1 where one: "add_hooks m (sh_table s) (sh_hooks s) w = (b, w1)" by fastforce
  have ok: b "hook_shares m ss w1 = (True, w')" using Cons.prems one by (auto split: bool.splits)
  note a = add_hooks_spec [OF assms(1) one]
  from Cons.IH [OF ok(2)] have IH: "grows (rules w1) (rules w')" "\<forall>s \<in> set ss. has_hooks (rules w') s" by auto
  have "has_hooks (rules w') s"
    using a(2) [OF ok(1)] IH(1) by (auto simp: has_hooks_def grows_def)
  with IH a(1) show ?case by (auto intro: grows_trans)
qed

lemma install_full:
  assumes "iptables_ok m rules" "guard_install m g a w = (True, w')"
  shows "full g a (rules w')"
proof -
  obtain r1 w1 where fill: "fill_shares m (Chain a) (shares g a) w = (r1, w1)" by fastforce
  have ok: "r1 = None" and hooks: "hook_shares m (shares g a) w1 = (True, w')"
    using assms(2) fill by (auto simp: guard_install_def split: option.splits prod.splits bool.splits)
  have "\<forall>s \<in> set (shares g a). has_rules (rules w1) (sh_table s) (Chain a) (sh_rules s)"
    by (rule fill_shares_spec [OF assms(1)]) (use fill ok in \<open>auto simp: shares_def\<close>)
  with hook_shares_spec [OF assms(1) hooks] show ?thesis by (auto simp: full_def grows_def)
qed

section \<open>What the guard leaves alone\<close>

text \<open>The commands that the guard of one bridge gives.\<close>

definition own_cmd :: "guard_cfg \<Rightarrow> vm_addr \<Rightarrow> string \<Rightarrow> string list \<Rightarrow> bool" where
  "own_cmd g a t args \<longleftrightarrow> (\<exists>s \<in> set (shares g a). t = sh_table s \<and>
     (args \<in> {[''-N'', Chain a], [''-F'', Chain a], [''-X'', Chain a], [''-n'', ''-L'', Chain a]} \<or>
      (\<exists>r. args = ''-A'' # Chain a # r \<or> args = ''-C'' # Chain a # r) \<or>
      (\<exists>(c, r) \<in> set (sh_hooks s). args \<in> {''-C'' # c # r, ''-I'' # c # ''1'' # r, ''-D'' # c # r})))"

text \<open>A view of the world that none of these commands changes.\<close>

definition blind :: "'w machine \<Rightarrow> (string \<Rightarrow> string list \<Rightarrow> bool) \<Rightarrow> ('w \<Rightarrow> 'v) \<Rightarrow> bool" where
  "blind m C I \<longleftrightarrow> (\<forall>t args w. C t args \<longrightarrow> I (snd (ipt m t args w)) = I w)"

lemma blindD: "blind m C I \<Longrightarrow> ipt m t args w = (r, w') \<Longrightarrow> C t args \<Longrightarrow> I w' = I w"
  unfolding blind_def by (metis snd_conv)

lemma run_all_blind:
  assumes "blind m C I" "\<forall>c \<in> set cs. C t c" "run_all m t cs w = (r, w')"
  shows "I w' = I w"
  using assms(2,3)
proof (induction cs arbitrary: w)
  case (Cons c cs)
  obtain r1 w1 where one: "ipt m t c w = (r1, w1)" by fastforce
  have "I w1 = I w" using blindD [OF assms(1) one] Cons.prems(1) by simp
  with Cons one show ?case by (cases r1) auto
qed simp

lemma delete_copies_blind:
  assumes "blind m C I" "C t (''-D'' # h)" "delete_copies k m t h w = (r, w')"
  shows "I w' = I w"
  using assms(3)
proof (induction k arbitrary: w)
  case (Suc k)
  obtain r1 w1 where one: "ipt m t (''-D'' # h) w = (r1, w1)" by fastforce
  have "I w1 = I w" using blindD [OF assms(1) one assms(2)] .
  with Suc one show ?case by (cases r1) auto
qed simp

lemma delete_hooks_blind:
  assumes "blind m C I" "\<forall>(c, r) \<in> set hs. C t (''-D'' # c # r)" "delete_hooks m t hs w = (b, w')"
  shows "I w' = I w"
  using assms(2,3)
proof (induction hs arbitrary: w)
  case (Cons h hs)
  obtain c r where h: "h = (c, r)" by (cases h)
  obtain b1 w1 where one: "delete_copies 16 m t (c # r) w = (b1, w1)" by fastforce
  have "I w1 = I w" using delete_copies_blind [OF assms(1) _ one] Cons.prems(1) h by simp
  with Cons one h show ?case by (cases b1) auto
qed simp

lemma drop_chain_blind:
  assumes "blind m C I" "C t [''-n'', ''-L'', ch]" "C t [''-F'', ch]" "C t [''-X'', ch]" "drop_chain m t ch w = (b, w')"
  shows "I w' = I w"
proof -
  obtain r1 w1 where 1: "ipt m t [''-n'', ''-L'', ch] w = (r1, w1)" by fastforce
  obtain r2 w2 where 2: "ipt m t [''-F'', ch] w1 = (r2, w2)" by fastforce
  obtain r3 w3 where 3: "ipt m t [''-X'', ch] w2 = (r3, w3)" by fastforce
  have "I w1 = I w" "I w2 = I w1" "I w3 = I w2"
    using blindD [OF assms(1) 1] blindD [OF assms(1) 2] blindD [OF assms(1) 3] assms(2-4) by simp_all
  then show ?thesis using assms(5) 1 2 3 by (cases r1; cases r2) (auto simp: drop_chain_def)
qed

lemma own_cmd_chain:
  assumes "s \<in> set (shares g a)"
  shows "own_cmd g a (sh_table s) [''-N'', Chain a]" "own_cmd g a (sh_table s) [''-F'', Chain a]"
    "own_cmd g a (sh_table s) [''-X'', Chain a]" "own_cmd g a (sh_table s) [''-n'', ''-L'', Chain a]"
    "own_cmd g a (sh_table s) (''-A'' # Chain a # r)" "own_cmd g a (sh_table s) (''-C'' # Chain a # r)"
  unfolding own_cmd_def by (rule bexI [OF _ assms], simp)+

lemma own_cmd_hook:
  assumes "s \<in> set (shares g a)" "(c, r) \<in> set (sh_hooks s)"
  shows "own_cmd g a (sh_table s) (''-C'' # c # r)" "own_cmd g a (sh_table s) (''-I'' # c # ''1'' # r)"
    "own_cmd g a (sh_table s) (''-D'' # c # r)"
  unfolding own_cmd_def
  by (rule bexI [OF _ assms(1)], rule conjI [OF refl], rule disjI2, rule disjI2, rule bexI [OF _ assms(2)], simp)+

lemma release_shares_blind:
  assumes "blind m (own_cmd g a) I" "set ss \<subseteq> set (shares g a)" "release_shares m (Chain a) ss ok w = (b, w')"
  shows "I w' = I w"
  using assms(2,3)
proof (induction ss arbitrary: ok w)
  case (Cons s ss)
  obtain b1 w1 where one: "delete_hooks m (sh_table s) (sh_hooks s) w = (b1, w1)" by fastforce
  obtain b2 w2 where two: "drop_chain m (sh_table s) (Chain a) w1 = (b2, w2)" by fastforce
  have s: "s \<in> set (shares g a)" using Cons.prems(1) by simp
  have "I w1 = I w" by (rule delete_hooks_blind [OF assms(1) _ one]) (auto simp: own_cmd_hook [OF s])
  moreover have "I w2 = I w1" by (rule drop_chain_blind [OF assms(1) _ _ _ two]) (auto simp: own_cmd_chain [OF s])
  ultimately show ?case using Cons one two by (cases b1) auto
qed simp

lemma guard_release_blind:
  "blind m (own_cmd g a) I \<Longrightarrow> guard_release m g a w = (b, w') \<Longrightarrow> I w' = I w"
  unfolding guard_release_def by (rule release_shares_blind) auto

lemma flush_fill_blind:
  assumes "blind m (own_cmd g a) I" "s \<in> set (shares g a)" "flush_fill m s (Chain a) w = (b, w')"
  shows "I w' = I w"
proof -
  obtain r1 w1 where run: "run_all m (sh_table s) ([''-F'', Chain a] # map (\<lambda>r. ''-A'' # Chain a # r) (sh_rules s)) w = (r1, w1)"
    by fastforce
  have "I w1 = I w" by (rule run_all_blind [OF assms(1) _ run]) (auto simp: own_cmd_chain [OF assms(2)])
  moreover have "w' = w1" using assms(3) run unfolding flush_fill_def by (auto split: run_result.splits)
  ultimately show ?thesis by simp
qed

lemma holds_blind:
  assumes "blind m (own_cmd g a) I" "s \<in> set (shares g a)" "holds m s (Chain a) w = (b, w')"
  shows "I w' = I w"
proof -
  obtain r1 where "run_all m (sh_table s) (map (\<lambda>r. ''-C'' # Chain a # r) (sh_rules s)) w = (r1, w')"
    using assms(3) unfolding holds_def by (auto split: prod.splits)
  then show ?thesis by (rule run_all_blind [OF assms(1), rotated]) (auto simp: own_cmd_chain [OF assms(2)])
qed

lemma fill_share_blind:
  assumes "blind m (own_cmd g a) I" "s \<in> set (shares g a)" "fill_share m (Chain a) s w = (b, w')"
  shows "I w' = I w"
proof -
  obtain r1 w1 where N: "ipt m (sh_table s) [''-N'', Chain a] w = (r1, w1)" by fastforce
  obtain r2 w2 where L: "ipt m (sh_table s) [''-n'', ''-L'', Chain a] w1 = (r2, w2)" by fastforce
  obtain h w3 where H: "holds m s (Chain a) w2 = (h, w3)" by fastforce
  have "I w1 = I w" "I w2 = I w1" "I w3 = I w2"
    using blindD [OF assms(1) N] blindD [OF assms(1) L] holds_blind [OF assms(1,2) H] own_cmd_chain [OF assms(2)] by simp_all
  moreover have "w' \<in> {w1, w2, w3} \<or> (\<exists>v. I v = I w \<and> flush_fill m s (Chain a) v = (b, w'))"
    using assms(3) N L H calculation by (cases r1; cases r2; cases h) (auto simp: fill_share_def)
  ultimately show ?thesis using flush_fill_blind [OF assms(1,2)] by auto
qed

lemma fill_shares_blind:
  assumes "blind m (own_cmd g a) I" "set ss \<subseteq> set (shares g a)" "fill_shares m (Chain a) ss w = (b, w')"
  shows "I w' = I w"
  using assms(2,3)
proof (induction ss arbitrary: w)
  case (Cons s ss)
  obtain b1 w1 where one: "fill_share m (Chain a) s w = (b1, w1)" by fastforce
  have "I w1 = I w" using fill_share_blind [OF assms(1) _ one] Cons.prems(1) by simp
  with Cons one show ?case by (cases b1) auto
qed simp

lemma add_hooks_blind:
  assumes "blind m C I" "\<forall>(c, r) \<in> set hs. C t (''-C'' # c # r) \<and> C t (''-I'' # c # ''1'' # r)" "add_hooks m t hs w = (b, w')"
  shows "I w' = I w"
  using assms(2,3)
proof (induction hs arbitrary: w)
  case (Cons h hs)
  obtain c r where h: "h = (c, r)" by (cases h)
  obtain r1 w1 where 1: "ipt m t (''-C'' # c # r) w = (r1, w1)" by fastforce
  obtain r2 w2 where 2: "ipt m t (''-I'' # c # ''1'' # r) w1 = (r2, w2)" by fastforce
  have "I w1 = I w" "I w2 = I w1" using blindD [OF assms(1) 1] blindD [OF assms(1) 2] Cons.prems(1) h by simp_all
  with Cons 1 2 h show ?case by (cases r1; cases r2) auto
qed simp

lemma hook_shares_blind:
  assumes "blind m (own_cmd g a) I" "set ss \<subseteq> set (shares g a)" "hook_shares m ss w = (b, w')"
  shows "I w' = I w"
  using assms(2,3)
proof (induction ss arbitrary: w)
  case (Cons s ss)
  obtain b1 w1 where one: "add_hooks m (sh_table s) (sh_hooks s) w = (b1, w1)" by fastforce
  have s: "s \<in> set (shares g a)" using Cons.prems(1) by simp
  have "I w1 = I w" by (rule add_hooks_blind [OF assms(1) _ one]) (auto simp: own_cmd_hook [OF s])
  with Cons one show ?case by (cases b1) auto
qed simp

lemma guard_install_blind:
  assumes "blind m (own_cmd g a) I" "guard_install m g a w = (b, w')"
  shows "I w' = I w"
proof -
  obtain r1 w1 where fill: "fill_shares m (Chain a) (shares g a) w = (r1, w1)" by fastforce
  obtain r2 w2 where hook: "hook_shares m (shares g a) w1 = (r2, w2)" by fastforce
  have same: "I w1 = I w" "I w2 = I w1"
    using fill_shares_blind [OF assms(1) _ fill] hook_shares_blind [OF assms(1) _ hook] by simp_all
  have rel: "I (snd (guard_release m g a v)) = I v" for v
    using guard_release_blind [OF assms(1)] by (metis prod.collapse)
  show ?thesis using assms(2) fill hook same rel
    by (cases r1; cases r2) (auto simp: guard_install_def split: if_splits)
qed

lemma shares_whole_blind:
  assumes "blind m (own_cmd g a) I" "set ss \<subseteq> set (shares g a)" "shares_whole m (Chain a) ss w = (b, w')"
  shows "I w' = I w"
  using assms(2,3)
proof (induction ss arbitrary: w)
  case (Cons s ss)
  obtain r1 w1 where one: "run_all m (sh_table s) ([''-C'', Chain a, ''-j'', ''DROP''] # map (\<lambda>(ch, r). ''-C'' # ch # r) (sh_hooks s)) w = (r1, w1)"
    by fastforce
  have s: "s \<in> set (shares g a)" using Cons.prems(1) by simp
  have "I w1 = I w" by (rule run_all_blind [OF assms(1) _ one]) (auto simp: own_cmd_hook [OF s] own_cmd_chain [OF s])
  with Cons.IH Cons.prems one show ?case by (cases r1) auto
qed simp

lemma tablesWhole_blind:
  "blind m (own_cmd g a) I \<Longrightarrow> tablesWhole m g a w = (b, w') \<Longrightarrow> I w' = I w"
  unfolding tablesWhole_def by (rule shares_whole_blind) auto

text \<open>The rules that are not the guard's: every chain but its own, without the hooks it puts there.\<close>

definition foreign :: "guard_cfg \<Rightarrow> vm_addr \<Rightarrow> (string \<Rightarrow> string \<Rightarrow> string list list option) \<Rightarrow> string \<Rightarrow> string \<Rightarrow> string list list option" where
  "foreign g a R t ch =
     (if \<exists>s \<in> set (shares g a). t = sh_table s \<and> ch = Chain a then None
      else map_option (filter (\<lambda>r. \<forall>s \<in> set (shares g a). t = sh_table s \<longrightarrow> (ch, r) \<notin> set (sh_hooks s))) (R t ch))"

lemma foreign_chain: "s \<in> set (shares g a) \<Longrightarrow> foreign g a (upd R (sh_table s) (Chain a) x) = foreign g a R"
  by (auto simp: foreign_def upd_def fun_eq_iff)

lemma filter_remove1_other: "\<not> P r \<Longrightarrow> filter P (remove1 r xs) = filter P xs"
  by (induction xs) auto

lemma foreign_hook:
  assumes "s \<in> set (shares g a)" "(c, r) \<in> set (sh_hooks s)" "R (sh_table s) c = Some rs"
  shows "foreign g a (upd R (sh_table s) c (Some (r # rs))) = foreign g a R"
    and "foreign g a (upd R (sh_table s) c (Some (remove1 r rs))) = foreign g a R"
  using assms by (auto simp: foreign_def upd_def fun_eq_iff intro!: filter_remove1_other)

lemma own_cmdE:
  assumes "own_cmd g a t args"
  obtains (chain) s where "s \<in> set (shares g a)" "t = sh_table s"
      "args = [''-N'', Chain a] \<or> args = [''-F'', Chain a] \<or> args = [''-X'', Chain a]"
  | (list) "args = [''-n'', ''-L'', Chain a]"
  | (append) s r where "s \<in> set (shares g a)" "t = sh_table s" "args = ''-A'' # Chain a # r"
  | (check) c r where "args = ''-C'' # c # r"
  | (insert) s c r where "s \<in> set (shares g a)" "t = sh_table s" "(c, r) \<in> set (sh_hooks s)" "args = ''-I'' # c # ''1'' # r"
  | (delete) s c r where "s \<in> set (shares g a)" "t = sh_table s" "(c, r) \<in> set (sh_hooks s)" "args = ''-D'' # c # r"
proof -
  from assms obtain s where s: "s \<in> set (shares g a)" "t = sh_table s"
    and c: "args \<in> {[''-N'', Chain a], [''-F'', Chain a], [''-X'', Chain a], [''-n'', ''-L'', Chain a]} \<or>
      (\<exists>r. args = ''-A'' # Chain a # r \<or> args = ''-C'' # Chain a # r) \<or>
      (\<exists>(c, r) \<in> set (sh_hooks s). args \<in> {''-C'' # c # r, ''-I'' # c # ''1'' # r, ''-D'' # c # r})"
    unfolding own_cmd_def by (elim bexE conjE)
  from c show thesis
  proof (elim disjE exE bexE)
    assume "args \<in> {[''-N'', Chain a], [''-F'', Chain a], [''-X'', Chain a], [''-n'', ''-L'', Chain a]}"
    then show thesis using chain [OF s] list unfolding insert_iff empty_iff by (elim disjE) simp_all
  next
    fix r assume "args = ''-A'' # Chain a # r"
    then show thesis by (rule append [OF s])
  next
    fix r assume "args = ''-C'' # Chain a # r"
    then show thesis by (rule check)
  next
    fix h assume h: "h \<in> set (sh_hooks s)" "case h of (c, r) \<Rightarrow> args \<in> {''-C'' # c # r, ''-I'' # c # ''1'' # r, ''-D'' # c # r}"
    obtain c r where "h = (c, r)" by (cases h)
    with h have m: "(c, r) \<in> set (sh_hooks s)" and a: "args = ''-C'' # c # r \<or> args = ''-I'' # c # ''1'' # r \<or> args = ''-D'' # c # r"
      by simp_all
    from a show thesis using check insert [OF s m] delete [OF s m] by (elim disjE)
  qed
qed

lemma foreign_blind:
  assumes "iptables_ok m rules"
  shows "blind m (own_cmd g a) (\<lambda>w. foreign g a (rules w))"
  unfolding blind_def
proof (intro allI impI)
  fix t args w assume "own_cmd g a t args"
  moreover obtain r1 w1 where i: "ipt m t args w = (r1, w1)" by fastforce
  moreover have "foreign g a (rules w1) = foreign g a (rules w)" if "own_cmd g a t args"
  proof (cases "r1 = Ok")
    case False
    then show ?thesis using ipt_fail [OF assms i] by simp
  next
    case True
    note [simp] = foreign_chain
    from that show ?thesis
    proof (cases rule: own_cmdE)
      case (chain s)
      then show ?thesis using i True ipt_N [OF assms] ipt_F [OF assms] ipt_X [OF assms] by fastforce
    next
      case list
      then show ?thesis using i ipt_L_any [OF assms] by simp
    next
      case (append s r)
      then show ?thesis using i True ipt_A [OF assms] by fastforce
    next
      case (check c r)
      then show ?thesis using i ipt_C_any [OF assms] by simp
    next
      case (insert s c r)
      then obtain rs where "rules w t c = Some rs" "rules w1 = upd (rules w) t c (Some (r # rs))"
        using i True ipt_I [OF assms] by fastforce
      with insert show ?thesis by (simp add: foreign_hook)
    next
      case (delete s c r)
      then obtain rs where "rules w t c = Some rs" "rules w1 = upd (rules w) t c (Some (remove1 r rs))"
        using i True ipt_D [OF assms] by fastforce
      with delete show ?thesis by (simp add: foreign_hook)
    qed
  qed
  ultimately show "foreign g a (rules (snd (ipt m t args w))) = foreign g a (rules w)" by simp
qed

section \<open>No bridge is up without its guard\<close>

text \<open>
  The rest of what is relied on: \<open>ip\<close> and a write to \<open>/proc/sys\<close> change no rule; iptables changes
  nothing under \<open>/proc/sys\<close>; and of the commands of \<open>ip\<close> only making and deleting the bridge changes
  what is read there of its IPv6.
\<close>

definition ipv6_reads :: "'w machine \<Rightarrow> guard_cfg \<Rightarrow> vm_addr \<Rightarrow> 'w \<Rightarrow> read_result \<times> bool" where
  "ipv6_reads m g a w = (m_read m (ipv6Path g a) w,
     m_stat m ((if g_ProcSys g = [] then ''/proc/sys'' else g_ProcSys g) @ ''/net/ipv6'') w)"

definition bridge_change :: "vm_addr \<Rightarrow> string list \<Rightarrow> bool" where
  "bridge_change a args \<longleftrightarrow> args = [''link'', ''add'', Bridge a, ''type'', ''bridge''] \<or> args = [''link'', ''del'', Bridge a]"

definition host_spec :: "'w machine \<Rightarrow> 'w rule_view \<Rightarrow> guard_cfg \<Rightarrow> vm_addr \<Rightarrow> bool" where
  "host_spec m rules g a \<longleftrightarrow> iptables_ok m rules \<and>
     (\<forall>args w. rules (snd (m_ip m args w)) = rules w) \<and>
     (\<forall>p c w. rules (snd (m_write m p c w)) = rules w) \<and>
     (\<forall>args w. ipv6_reads m g a (snd (m_iptables m args w)) = ipv6_reads m g a w) \<and>
     (\<forall>args w. \<not> bridge_change a args \<longrightarrow> ipv6_reads m g a (snd (m_ip m args w)) = ipv6_reads m g a w)"

lemma IPv6Off_reads: "ipv6_reads m g a w' = ipv6_reads m g a w \<Longrightarrow> IPv6Off m g a w' = IPv6Off m g a w"
  unfolding ipv6_reads_def IPv6Off_def prod.inject by (elim conjE) (simp only:)

lemma ipv6_blind: "host_spec m rules g a \<Longrightarrow> blind m C (IPv6Off m g a)"
  by (auto simp: blind_def host_spec_def ipt_def intro!: IPv6Off_reads)

text \<open>The guard is there, and the commands that connect a guest to the host.\<close>

definition guarded :: "'w machine \<Rightarrow> 'w rule_view \<Rightarrow> guard_cfg \<Rightarrow> vm_addr \<Rightarrow> 'w \<Rightarrow> bool" where
  "guarded m rules g a w \<longleftrightarrow> whole g a (rules w) \<and> IPv6Off m g a w = Some True"

definition exposing :: "vm_addr \<Rightarrow> string list \<Rightarrow> bool" where
  "exposing a args \<longleftrightarrow> args = [''link'', ''set'', Bridge a, ''up''] \<or> args = [''link'', ''set'', Tap a, ''master'', Bridge a]"

lemma shares_whole_spec:
  assumes "iptables_ok m rules" "shares_whole m ch ss w = (Some True, w')"
  shows "\<forall>s \<in> set ss. has_rules (rules w) (sh_table s) ch [[''-j'', ''DROP'']] \<and> has_hooks (rules w) s" and "rules w' = rules w"
proof -
  have "(\<forall>s \<in> set ss. has_rules (rules w) (sh_table s) ch [[''-j'', ''DROP'']] \<and> has_hooks (rules w) s) \<and> rules w' = rules w"
    using assms(2)
  proof (induction ss arbitrary: w)
    case (Cons s ss)
    let ?cs = "(ch, [''-j'', ''DROP'']) # sh_hooks s"
    obtain r1 w1 where run: "run_all m (sh_table s) (map (\<lambda>(c, r). ''-C'' # c # r) ?cs) w = (r1, w1)" by fastforce
    have ok: "r1 = Ok" "shares_whole m ch ss w1 = (Some True, w')"
      using Cons.prems run by (auto split: run_result.splits)
    from run_all_checks [OF assms(1) run] ok(1) have "rules w1 = rules w" "\<forall>(c, r) \<in> set ?cs. has_rules (rules w) (sh_table s) c [r]"
      by blast+
    with Cons.IH [OF ok(2)] show ?case by (auto simp: has_hooks_def)
  qed simp
  then show "\<forall>s \<in> set ss. has_rules (rules w) (sh_table s) ch [[''-j'', ''DROP'']] \<and> has_hooks (rules w) s" "rules w' = rules w" by auto
qed

lemma tablesWhole_whole:
  "iptables_ok m rules \<Longrightarrow> tablesWhole m g a w = (Some True, w') \<Longrightarrow> whole g a (rules w')"
  unfolding tablesWhole_def whole_def using shares_whole_spec [of m rules "Chain a" "shares g a" w w'] by simp

lemma NoIPv6_off: "NoIPv6 m g a w = (True, w') \<Longrightarrow> IPv6Off m g a w' = Some True"
  by (auto simp: NoIPv6_def split: prod.splits write_result.splits)

lemma NoIPv6_rules: "host_spec m rules g a \<Longrightarrow> NoIPv6 m g a w = (b, w') \<Longrightarrow> rules w' = rules w"
  unfolding host_spec_def NoIPv6_def by (auto split: prod.splits write_result.splits) (metis snd_conv)+

lemma install_guarded:
  assumes "host_spec m rules g a" "IPv6Off m g a w = Some True" "guard_install m g a w = (True, w')"
  shows "guarded m rules g a w'"
  using full_whole [OF install_full [OF _ assms(3)]] guard_install_blind [OF ipv6_blind [OF assms(1)] assms(3)] assms
  by (auto simp: guarded_def host_spec_def)

lemma Ensure_guarded:
  assumes "host_spec m rules g a" "Ensure m g a w = (True, w')"
  shows "guarded m rules g a w'"
proof -
  have ipt: "iptables_ok m rules" using assms(1) by (simp add: host_spec_def)
  obtain tab w1 where t: "tablesWhole m g a w = (tab, w1)" by fastforce
  then obtain tables where tab: "tab = Some tables" using assms(2) by (cases tab) (auto simp: Ensure_def)
  define v6 where "v6 = (IPv6Off m g a w1 = Some True)"
  obtain b w2 where n: "(if v6 then (True, w1) else NoIPv6 m g a w1) = (b, w2)" by fastforce
  show ?thesis
  proof (cases "tables \<and> v6")
    case True
    then show ?thesis using assms(2) t tab tablesWhole_whole [OF ipt, of g a w w1]
      by (simp add: Ensure_def guarded_def v6_def Let_def)
  next
    case False
    have b: b and rest: "(if tables then (True, w2) else guard_install m g a w2) = (True, w')"
      using assms(2) t tab False n by (auto simp: Ensure_def v6_def [symmetric] Let_def split: bool.splits)
    have off: "IPv6Off m g a w2 = Some True" using n b NoIPv6_off [of m g a w1 w2] by (auto simp: v6_def split: if_splits)
    have same: "rules w2 = rules w1" using n b NoIPv6_rules [OF assms(1)] by (auto split: if_splits)
    show ?thesis
    proof (cases tables)
      case True
      then show ?thesis using rest off same tablesWhole_whole [OF ipt, of g a w w1] t tab by (simp add: guarded_def)
    next
      case False
      then show ?thesis using install_guarded [OF assms(1) off] rest by simp
    qed
  qed
qed


text \<open>Steps with what holds after each outcome.\<close>

definition outcome :: "('s \<Rightarrow> bool) \<Rightarrow> ('s \<Rightarrow> bool \<times> 's) \<Rightarrow> ('s \<Rightarrow> bool) \<Rightarrow> ('s \<Rightarrow> bool) \<Rightarrow> bool" where
  "outcome P f Q R \<longleftrightarrow> (\<forall>s. P s \<longrightarrow> (case f s of (True, s') \<Rightarrow> Q s' | (False, s') \<Rightarrow> R s'))"

lemma outcome_and_then: "outcome P f M R \<Longrightarrow> outcome M k Q R \<Longrightarrow> outcome P (and_then f k) Q R"
  unfolding outcome_def and_then_def by (fastforce split: prod.splits bool.splits)

lemma outcome_branch: "outcome P c M N \<Longrightarrow> outcome M f Q R \<Longrightarrow> outcome N k Q R \<Longrightarrow> outcome P (branch c f k) Q R"
  unfolding outcome_def branch_def by (fastforce split: prod.splits bool.splits)

lemma outcome_ignoring: "outcome P f Q Q \<Longrightarrow> outcome P (ignoring f) Q R"
  unfolding outcome_def ignoring_def by (fastforce split: prod.splits bool.splits)

lemma outcome_nothing: "outcome P nothing P R" and outcome_fails: "outcome P fails Q P"
  by (auto simp: outcome_def nothing_def fails_def)

lemma outcome_weaken:
  assumes "outcome P f Q R" "\<And>s. P' s \<Longrightarrow> P s" "\<And>s. Q s \<Longrightarrow> Q' s" "\<And>s. R s \<Longrightarrow> R' s"
  shows "outcome P' f Q' R'"
  using assms unfolding outcome_def by (fastforce split: prod.splits bool.splits)

lemma outcome_each: "(\<And>x. x \<in> set xs \<Longrightarrow> outcome P (f x) P R) \<Longrightarrow> outcome P (each_of xs f) P R"
  by (induction xs) (auto intro: outcome_nothing outcome_and_then)

lemma outcome_if: "outcome P f Q R \<Longrightarrow> outcome P k Q R \<Longrightarrow> outcome P (\<lambda>s. if c s then f s else k s) Q R"
  by (auto simp: outcome_def)

text \<open>One condition throughout.\<close>

lemmas steady =
  outcome_and_then [where P = P and M = P and Q = P and R = P for P]
  outcome_branch [where P = P and M = P and N = P and Q = P and R = P for P]
  outcome_ignoring [where P = P and Q = P and R = P for P]
  outcome_nothing [where P = P and R = P for P] outcome_fails [where P = P and Q = P for P]
  outcome_each [where P = P and R = P for P] outcome_if [where P = P and Q = P and R = P for P]

text \<open>What was recorded is right: whatever connected a guest was done with the guard in place.\<close>

definition logged :: "'w machine \<Rightarrow> 'w rule_view \<Rightarrow> guard_cfg \<Rightarrow> vm_addr \<Rightarrow> 'w net_state \<Rightarrow> bool" where
  "logged m rules g a s \<longleftrightarrow> (\<forall>(args, w) \<in> set (snd s). exposing a args \<longrightarrow> guarded m rules g a w)"

definition standing :: "'w machine \<Rightarrow> 'w rule_view \<Rightarrow> guard_cfg \<Rightarrow> vm_addr \<Rightarrow> 'w net_state \<Rightarrow> bool" where
  "standing m rules g a s \<longleftrightarrow> logged m rules g a s \<and> guarded m rules g a (fst s)"

lemma standing_logged: "standing m rules g a s \<Longrightarrow> logged m rules g a s"
  by (simp add: standing_def)

lemma ip_standing:
  assumes "host_spec m rules g a" "\<not> bridge_change a args"
  shows "outcome (standing m rules g a) (ip m args) (standing m rules g a) (standing m rules g a)"
proof -
  have "guarded m rules g a (snd (m_ip m args w)) = guarded m rules g a w" for w
    using assms unfolding host_spec_def guarded_def by (metis IPv6Off_reads)
  then show ?thesis
    by (auto simp: outcome_def ip_def standing_def logged_def split: prod.splits bool.splits) (metis snd_conv)+
qed

lemma ip_logged:
  assumes "\<not> exposing a args"
  shows "outcome (logged m rules g a) (ip m args) (logged m rules g a) (logged m rules g a)"
  using assms by (auto simp: outcome_def ip_def logged_def split: prod.splits bool.splits)

lemma on_world_outcome:
  assumes "\<And>w w'. P w \<Longrightarrow> f w = (True, w') \<Longrightarrow> Q w'"
  shows "outcome (\<lambda>s. logged m rules g a s \<and> P (fst s)) (on_world f) (\<lambda>s. logged m rules g a s \<and> Q (fst s)) (logged m rules g a)"
  using assms by (auto simp: outcome_def on_world_def logged_def split: prod.splits bool.splits)

lemma net_guard_outcome:
  assumes "host_spec m rules g a" "n_guard n = Some g"
  shows "outcome (logged m rules g a) (net_guard m n a) (standing m rules g a) (logged m rules g a)"
proof -
  let ?off = "\<lambda>w. IPv6Off m g a w = Some True"
  have "outcome (\<lambda>s. logged m rules g a s \<and> True) (on_world (NoIPv6 m g a)) (\<lambda>s. logged m rules g a s \<and> ?off (fst s)) (logged m rules g a)"
    by (rule on_world_outcome) (rule NoIPv6_off)
  moreover have "outcome (\<lambda>s. logged m rules g a s \<and> ?off (fst s)) (on_world (guard_install m g a))
      (\<lambda>s. logged m rules g a s \<and> guarded m rules g a (fst s)) (logged m rules g a)"
    by (rule on_world_outcome) (rule install_guarded [OF assms(1)])
  ultimately show ?thesis using assms(2) unfolding net_guard_def standing_def [abs_def]
    by (auto intro: outcome_and_then)
qed

lemma recheck_outcome:
  assumes "host_spec m rules g a" "n_guard n = Some g"
  shows "outcome (logged m rules g a) (recheck m n a) (standing m rules g a) (logged m rules g a)"
  using on_world_outcome [of "\<lambda>_. True" "Ensure m g a" "guarded m rules g a" m rules g a] Ensure_guarded [OF assms(1)] assms(2)
  by (simp add: recheck_def standing_def [abs_def])

text \<open>None of the commands given after the guard is in place makes or deletes the bridge, and none of
  those given before it connects anything.\<close>

lemma Tap_Bridge: "Tap a \<noteq> Bridge a"
  by (auto simp: Tap_def Bridge_def)

lemma no_bridge_change:
  "\<not> bridge_change a [''link'', ''show'', ''dev'', d]"
  "\<not> bridge_change a [''link'', ''del'', Tap a]"
  "\<not> bridge_change a [''link'', ''set'', d, ''up'']"
  "\<not> bridge_change a [''link'', ''set'', d, ''master'', e]"
  "\<not> bridge_change a (''tuntap'' # r)" "\<not> bridge_change a (''addr'' # r)" "\<not> bridge_change a (''netns'' # r)"
  "\<not> bridge_change a (in_ns d r)"
  "\<not> bridge_change a [''link'', ''add'', d, ''type'', ''veth'', ''peer'', ''name'', ''eth0'', ''netns'', e]"
  using Tap_Bridge [of a] by (auto simp: bridge_change_def in_ns_def)

lemma no_exposing:
  "\<not> exposing a [''link'', ''show'', ''dev'', d]"
  "\<not> exposing a [''link'', ''add'', d, ''type'', ''bridge'']"
  "\<not> exposing a [''link'', ''del'', d]"
  by (auto simp: exposing_def)

lemma netns_steps_no_change: "args \<in> set (netns_steps a owner) \<Longrightarrow> \<not> bridge_change a args"
  unfolding netns_steps_def Let_def using no_bridge_change by (auto simp del: append_Cons simp: no_bridge_change)

lemma attach_standing:
  assumes "host_spec m rules g a"
  shows "outcome (standing m rules g a) (attach_tap m n a) (standing m rules g a) (logged m rules g a)"
proof -
  note ip = ip_standing [OF assms]
  have "outcome (standing m rules g a) (attach_tap m n a) (standing m rules g a) (standing m rules g a)"
    unfolding attach_tap_def exists_dev_def
    by (intro steady ip no_bridge_change; (auto simp: no_bridge_change outcome_def)?)
  then show ?thesis by (rule outcome_weaken) (auto simp: standing_logged)
qed

lemma netns_standing:
  assumes "host_spec m rules g a"
  shows "outcome (standing m rules g a) (ensureNetNS m n a) (standing m rules g a) (logged m rules g a)"
proof -
  note ip = ip_standing [OF assms]
  have "outcome (standing m rules g a) (ensureNetNS m n a) (standing m rules g a) (standing m rules g a)"
    unfolding ensureNetNS_def exists_dev_def
    by (intro steady ip no_bridge_change netns_steps_no_change)
  then show ?thesis by (rule outcome_weaken) (auto simp: standing_logged)
qed

lemma make_bridge_outcome:
  assumes "host_spec m rules g a" "n_guard n = Some g"
  shows "outcome (logged m rules g a) (make_bridge m n a) (standing m rules g a) (logged m rules g a)"
proof -
  note ip = ip_standing [OF assms(1)] and ipl = ip_logged [of a]
  have add: "outcome (logged m rules g a) (unless_exists m [''link'', ''add'', Bridge a, ''type'', ''bridge''] (Bridge a))
      (logged m rules g a) (logged m rules g a)"
    unfolding unless_exists_def exists_dev_def by (intro steady ipl no_exposing)
  have undo: "outcome (logged m rules g a) (and_then (ignoring (ip m [''link'', ''del'', Bridge a])) fails)
      (standing m rules g a) (logged m rules g a)"
    by (rule outcome_and_then [OF outcome_ignoring [OF ipl] outcome_fails]) (rule no_exposing)
  have "outcome (standing m rules g a)
      (each_of [[''addr'', ''add'', Gateway a @ ''/24'', ''dev'', Bridge a], [''link'', ''set'', Bridge a, ''up'']]
         (\<lambda>args. unless_exists m args (Bridge a))) (standing m rules g a) (standing m rules g a)"
    unfolding unless_exists_def exists_dev_def
    by (intro steady ip no_bridge_change) (auto simp: no_bridge_change)
  then have up: "outcome (standing m rules g a)
      (each_of [[''addr'', ''add'', Gateway a @ ''/24'', ''dev'', Bridge a], [''link'', ''set'', Bridge a, ''up'']]
         (\<lambda>args. unless_exists m args (Bridge a))) (standing m rules g a) (logged m rules g a)"
    by (rule outcome_weaken) (auto simp: standing_logged)
  show ?thesis unfolding make_bridge_def
    by (rule outcome_and_then [OF add outcome_and_then [OF outcome_branch [OF net_guard_outcome [OF assms] outcome_nothing undo] up]])
qed

lemma EnsureTap_outcome:
  assumes "host_spec m rules g a" "n_guard n = Some g"
  shows "outcome (logged m rules g a) (EnsureTap m n a) (standing m rules g a) (logged m rules g a)"
proof -
  have ex: "outcome (logged m rules g a) (exists_dev m (Bridge a)) (logged m rules g a) (logged m rules g a)"
    unfolding exists_dev_def by (rule ip_logged) (rule no_exposing)
  show ?thesis unfolding EnsureTap_def
    using outcome_and_then [OF outcome_branch [OF ex recheck_outcome [OF assms] make_bridge_outcome [OF assms]]]
      netns_standing [OF assms(1)] attach_standing [OF assms(1)] outcome_fails by (auto split: if_splits)
qed

lemma outcomeD: "outcome P f Q R \<Longrightarrow> P s \<Longrightarrow> f s = (b, s') \<Longrightarrow> if b then Q s' else R s'"
  unfolding outcome_def by (cases b) fastforce+

lemma outcome_result:
  assumes "outcome P f P P"
  shows "outcome P (\<lambda>s. case f s of (ok, s1) \<Rightarrow> (c ok s1, s1)) P P"
proof -
  have "P s'" if "P s" "f s = (b, s')" for s b s' using outcomeD [OF assms that] by (cases b) auto
  then show ?thesis unfolding outcome_def by (fastforce split: prod.splits bool.splits)
qed

section \<open>Names and addresses\<close>

lemma Itoa_inj: "int_in_range i \<Longrightarrow> int_in_range j \<Longrightarrow> Itoa i = Itoa j \<longleftrightarrow> i = j"
  by (metis Atoi_Itoa option.inject)

lemma Itoa_no_mark: "0 \<le> i \<Longrightarrow> CHR ''-'' \<notin> set (Itoa i) \<and> CHR ''.'' \<notin> set (Itoa i)"
  using Itoa_digits [of i "CHR ''-''"] Itoa_digits [of i "CHR ''.''"] by (auto simp: isDigit_def)

lemma split_unique:
  fixes xs :: string
  assumes "xs @ c # ys = us @ c # vs" "c \<notin> set xs" "c \<notin> set us"
  shows "xs = us \<and> ys = vs"
proof -
  have "Cut (xs @ c # ys) c = Some (xs, ys)" "Cut (us @ c # vs) c = Some (us, vs)" using assms(2,3) by (simp_all add: Cut_iff)
  then have "Some (xs, ys) = Some (us, vs)" using arg_cong [OF assms(1), of "\<lambda>s. Cut s c"] by (simp only:)
  then show ?thesis by simp
qed

lemma valid_range: "addr_Valid a \<Longrightarrow> int_in_range (Slot a) \<and> int_in_range (Index a) \<and> int_in_range (Index a + 2) \<and> 0 \<le> Slot a \<and> 0 \<le> Index a"
  by (auto simp: addr_Valid_def int_in_range_def)

lemma Itoa_short: "0 \<le> i \<Longrightarrow> i < 1000 \<Longrightarrow> length (Itoa i) \<le> 3"
  by (simp add: Itoa_def itoa_pos.simps [of i] itoa_pos.simps [of "i div 10"] itoa_pos.simps [of "i div 10 div 10"])

lemma Tap_inj:
  assumes "addr_Valid a" "addr_Valid b" "Tap a = Tap b"
  shows "a = b"
proof -
  have "Itoa (Slot a) @ CHR ''-'' # Itoa (Index a) = Itoa (Slot b) @ CHR ''-'' # Itoa (Index b)"
    using assms(3) by (simp add: Tap_def)
  from split_unique [OF this] have "Itoa (Slot a) = Itoa (Slot b)" "Itoa (Index a) = Itoa (Index b)"
    using valid_range [OF assms(1)] valid_range [OF assms(2)] Itoa_no_mark by auto
  then show ?thesis using valid_range [OF assms(1)] valid_range [OF assms(2)] Itoa_inj by (metis vm_addr.equality old.unit.exhaust)
qed

lemma GuestIP_inj:
  assumes "addr_Valid a" "addr_Valid b" "GuestIP a = GuestIP b"
  shows "a = b"
proof -
  have "Itoa (Slot a) @ CHR ''.'' # Itoa (Index a + 2) = Itoa (Slot b) @ CHR ''.'' # Itoa (Index b + 2)"
    using assms(3) by (simp add: GuestIP_def)
  from split_unique [OF this] have "Itoa (Slot a) = Itoa (Slot b)" "Itoa (Index a + 2) = Itoa (Index b + 2)"
    using valid_range [OF assms(1)] valid_range [OF assms(2)] Itoa_no_mark by auto
  then have "Slot a = Slot b" "Index a = Index b"
    using valid_range [OF assms(1)] valid_range [OF assms(2)] Itoa_inj by (metis, metis add_right_cancel)
  then show ?thesis by simp
qed

section \<open>A host to try it on\<close>

text \<open>
  A small host: chains with their rules, devices and which of them are up and have an address, the
  IPv6 setting of one bridge. The commands that \<open>bad\<close> names fail, and so does every command after
  the first \<open>h_left\<close> of them, as they do once the context of a request is cancelled.
\<close>

record host =
  h_rules :: "string \<Rightarrow> string \<Rightarrow> string list list option"
  h_devs :: "string list"
  h_up :: "string list"
  h_addrs :: "string list"
  h_v6 :: "string option"
  h_left :: nat

definition tables_cmd :: "string \<Rightarrow> string list \<Rightarrow> (string \<Rightarrow> string \<Rightarrow> string list list option) \<Rightarrow> (string \<Rightarrow> string \<Rightarrow> string list list option) option" where
  "tables_cmd t args R = (case args of c # ch # r \<Rightarrow>
       if c = ''-N'' then (if R t ch = None then Some (upd R t ch (Some [])) else None)
       else if c = ''-n'' then (case r of [] \<Rightarrow> None | d # r \<Rightarrow> if R t d = None then None else Some R)
       else (case R t ch of None \<Rightarrow> None | Some rs \<Rightarrow>
         if c = ''-F'' then Some (upd R t ch (Some []))
         else if c = ''-X'' then Some (upd R t ch None)
         else if c = ''-A'' then Some (upd R t ch (Some (rs @ [r])))
         else if c = ''-I'' then Some (upd R t ch (Some (tl r # rs)))
         else if c = ''-C'' then (if r \<in> set rs then Some R else None)
         else if c = ''-D'' then (if r \<in> set rs then Some (upd R t ch (Some (remove1 r rs))) else None)
         else None)
     | _ \<Rightarrow> None)"

definition host_iptables :: "(string list \<Rightarrow> bool) \<Rightarrow> string list \<Rightarrow> host \<Rightarrow> run_result \<times> host" where
  "host_iptables bad args h =
     (let (t, c) = (case args of x # y # r \<Rightarrow> if x = ''-t'' then (y, r) else ('''', args) | _ \<Rightarrow> ('''', args)) in
      if bad args \<or> h_left h = 0 then (Failed, h)
      else (case tables_cmd t c (h_rules h) of
          None \<Rightarrow> (Failed, h\<lparr>h_left := h_left h - 1\<rparr>)
        | Some R \<Rightarrow> (Ok, h\<lparr>h_rules := R, h_left := h_left h - 1\<rparr>)))"

definition host_ip :: "string \<Rightarrow> (string list \<Rightarrow> bool) \<Rightarrow> string list \<Rightarrow> host \<Rightarrow> bool \<times> host" where
  "host_ip br bad args h0 =
     (if bad args \<or> h_left h0 = 0 then (False, h0)
      else let h = h0\<lparr>h_left := h_left h0 - 1\<rparr> in
        if take 2 args = [''link'', ''show''] then (last args \<in> set (h_devs h), h)
        else if take 2 args = [''link'', ''add''] then
          (True, h\<lparr>h_devs := args ! 2 # h_devs h, h_v6 := (if args = [''link'', ''add'', br, ''type'', ''bridge''] then Some ''0'' else h_v6 h)\<rparr>)
        else if take 2 args = [''tuntap'', ''add''] then (True, h\<lparr>h_devs := args ! 3 # h_devs h\<rparr>)
        else if take 2 args = [''link'', ''del''] then
          (last args \<in> set (h_devs h), h\<lparr>h_devs := removeAll (last args) (h_devs h), h_up := removeAll (last args) (h_up h),
             h_v6 := (if args = [''link'', ''del'', br] then None else h_v6 h)\<rparr>)
        else if take 2 args = [''link'', ''set''] \<and> last args = ''up'' then (True, h\<lparr>h_up := args ! 2 # h_up h\<rparr>)
        else if take 2 args = [''addr'', ''add''] then (True, h\<lparr>h_addrs := last args # h_addrs h\<rparr>)
        else (True, h))"

definition host_machine :: "string \<Rightarrow> (string list \<Rightarrow> bool) \<Rightarrow> host machine" where
  "host_machine br bad = \<lparr>m_iptables = host_iptables bad, m_ip = host_ip br bad,
     m_write = (\<lambda>p c h. case h_v6 h of None \<Rightarrow> (Write_missing, h) | Some _ \<Rightarrow> (Written, h\<lparr>h_v6 := Some c\<rparr>)),
     m_read = (\<lambda>p h. case h_v6 h of None \<Rightarrow> Read_missing | Some c \<Rightarrow> Content c), m_stat = (\<lambda>p h. True)\<rparr>"

lemma ipt_host:
  assumes "hd args \<noteq> ''-t''" "args \<noteq> []"
  shows "ipt (host_machine br bad) t args h =
     (if bad (if t \<noteq> [] then ''-t'' # t # args else args) \<or> h_left h = 0 then (Failed, h)
      else (case tables_cmd t args (h_rules h) of
          None \<Rightarrow> (Failed, h\<lparr>h_left := h_left h - 1\<rparr>)
        | Some R \<Rightarrow> (Ok, h\<lparr>h_rules := R, h_left := h_left h - 1\<rparr>)))"
  using assms by (cases args; cases "tl args") (auto simp: ipt_def host_machine_def host_iptables_def Let_def)

lemma host_fails: "fst (ipt (host_machine br bad) t args h) \<noteq> Ok \<Longrightarrow> h_rules (snd (ipt (host_machine br bad) t args h)) = h_rules h"
  by (auto simp: ipt_def host_machine_def host_iptables_def Let_def split: prod.splits option.splits list.splits if_splits)

lemma host_iptables_ok: "iptables_ok (host_machine br bad) h_rules"
  unfolding iptables_ok_def
  by (intro conjI allI impI; (rule host_fails, assumption)?; auto simp: ipt_host tables_cmd_def split: if_splits option.splits)


lemma host_ok: "host_spec (host_machine (Bridge a) bad) h_rules g a"
  unfolding host_spec_def
proof (intro conjI allI impI host_iptables_ok)
  fix args h p c
  show "h_rules (snd (m_ip (host_machine (Bridge a) bad) args h)) = h_rules h"
    by (simp add: host_machine_def host_ip_def Let_def)
  show "h_rules (snd (m_write (host_machine (Bridge a) bad) p c h)) = h_rules h"
    by (simp add: host_machine_def split: option.splits)
  have "h_v6 (snd (host_iptables bad args h)) = h_v6 h"
    by (simp add: host_iptables_def split: prod.splits option.splits)
  then show "ipv6_reads (host_machine (Bridge a) bad) g a (snd (m_iptables (host_machine (Bridge a) bad) args h)) =
      ipv6_reads (host_machine (Bridge a) bad) g a h"
    by (simp add: ipv6_reads_def host_machine_def)
next
  fix args h assume "\<not> bridge_change a args"
  then have "h_v6 (snd (host_ip (Bridge a) bad args h)) = h_v6 h"
    by (simp add: host_ip_def Let_def bridge_change_def)
  then show "ipv6_reads (host_machine (Bridge a) bad) g a (snd (m_ip (host_machine (Bridge a) bad) args h)) =
      ipv6_reads (host_machine (Bridge a) bad) g a h"
    by (simp add: ipv6_reads_def host_machine_def)
qed

definition slot3 :: vm_addr where "slot3 = \<lparr>Slot = 3, Index = 0\<rparr>"
definition guard_on :: guard_cfg where "guard_on = \<lparr>g_Port = 3128, g_ProcSys = []\<rparr>"
definition net_on :: "host network" where
  "net_on = \<lparr>n_guard = Some guard_on, n_tapOwner = (\<lambda>_. -1), n_TapOwner = None, n_PerVMNetNS = False, n_netnsExists = (\<lambda>_ _. False)\<rparr>"
definition clean_host :: "nat \<Rightarrow> host" where
  "clean_host k = \<lparr>h_rules = (\<lambda>t ch. if ch \<in> {''INPUT'', ''FORWARD'', ''PREROUTING''} then Some [] else None),
     h_devs = [], h_up = [], h_addrs = [], h_v6 = None, h_left = k\<rparr>"
definition well :: "host machine" where "well = host_machine (Bridge slot3) (\<lambda>_. False)"

text \<open>The same host where one rule cannot be put in.\<close>

definition refuses_input :: "host machine" where
  "refuses_input = host_machine (Bridge slot3) (\<lambda>args. take 2 args = [''-I'', ''INPUT''])"

text \<open>A guarded bridge in use, from whose firewall the hook of INPUT was flushed.\<close>

definition flushed_host :: host where
  "flushed_host = (let h = fst (snd (EnsureTap well net_on slot3 (clean_host 100, [])))
     in h\<lparr>h_rules := upd (h_rules h) [] ''INPUT'' (Some [])\<rparr>)"

lemma flushed_host_mangle:
  "h_rules flushed_host ''mangle'' ''PREROUTING'' = Some [[''-i'', ''sbxfc3'', ''-j'', ''SBX-FC3'']] \<and>
   ''sbxfc3'' \<in> set (h_up flushed_host)"
  by code_simp

lemma failed_repair_strips_guard:
  "case EnsureTap refuses_input net_on slot3 (flushed_host, []) of (b, h, log) \<Rightarrow>
     \<not> b \<and> ''sbxfc3'' \<in> set (h_up h) \<and> h_rules h ''mangle'' ''PREROUTING'' = Some [] \<and>
     h_rules h ''mangle'' ''FORWARD'' = Some [] \<and> h_rules h ''mangle'' ''SBX-FC3'' = None"
  by code_simp

text \<open>An \<open>Install\<close> whose context is cancelled leaves half of the guard, for \<open>release\<close> takes a command
  that failed for a rule that is not there.\<close>

lemma cancelled_install_leaves_half:
  "case guard_install well guard_on slot3 (clean_host 13) of (b, h) \<Rightarrow>
     \<not> b \<and> h_rules h ''mangle'' ''FORWARD'' = Some [[''-o'', ''sbxfc3'', ''-j'', ''DROP'']] \<and>
     h_rules h ''mangle'' ''PREROUTING'' = Some []"
  by code_simp

text \<open>A bridge made by a request that was cancelled before its address was given stays as it is: a
  later \<open>EnsureTap\<close> succeeds, with the bridge down and without an address.\<close>

lemma cancelled_bridge_stays_down:
  "case EnsureTap well net_on slot3 (clean_host 20, []) of (b, h, log) \<Rightarrow> \<not> b \<and>
     (case EnsureTap well net_on slot3 (h\<lparr>h_left := 100\<rparr>, []) of (b', h', log') \<Rightarrow>
        b' \<and> ''sbxfc3'' \<in> set (h_devs h') \<and> ''sbxfc3'' \<notin> set (h_up h') \<and> h_addrs h' = [])"
  by code_simp

text \<open>The check of \<open>sbx doctor\<close> says yes only of a bridge whose guard stands, and changes nothing of it.\<close>

lemma GuardWhole_true:
  assumes "host_spec m rules g \<lparr>Slot = slot, Index = 0\<rparr>" "n_guard n = Some g" "GuardWhole m n slot w = (Some True, w')"
  shows "guarded m rules g \<lparr>Slot = slot, Index = 0\<rparr> w' \<and> rules w' = rules w"
proof -
  let ?a = "\<lparr>Slot = slot, Index = 0\<rparr>"
  have ipt: "iptables_ok m rules" using assms(1) by (simp add: host_spec_def)
  have t: "tablesWhole m g ?a w = (Some True, w')" and off: "IPv6Off m g ?a w' = Some True"
    using assms(2,3) by (auto simp: GuardWhole_def Whole_def split: prod.splits option.splits bool.splits)
  have "rules w' = rules w" using t shares_whole_spec(2) [OF ipt] unfolding tablesWhole_def by blast
  with t off tablesWhole_whole [OF ipt t] show ?thesis by (simp add: guarded_def)
qed

text \<open>A tap is removed, and its namespace, without touching the guard of the bridge.\<close>

lemma RemoveTap_standing:
  assumes "host_spec m rules g a" "standing m rules g a s" "RemoveTap m n a s = (ok, s')"
  shows "standing m rules g a s'"
proof -
  note ip = ip_standing [OF assms(1)]
  have "outcome (standing m rules g a) (\<lambda>s. case ip m [''netns'', ''del'', NetNS a] s of (ok, s1) \<Rightarrow>
      (\<not> ok \<and> n_PerVMNetNS n \<and> n_netnsExists n a (fst s1), s1)) (standing m rules g a) (standing m rules g a)"
    by (rule outcome_result [OF ip]) (rule no_bridge_change)
  then have "outcome (standing m rules g a) (RemoveTap m n a) (standing m rules g a) (standing m rules g a)"
    unfolding RemoveTap_def exists_dev_def by (intro steady ip no_bridge_change)
  from outcomeD [OF this assms(2,3)] show ?thesis by (cases ok) auto
qed

section \<open>Properties\<close>

text \<open>
  (C30) where a guard is configured, whatever fails on the way, \<open>EnsureTap\<close> gives the commands that
  connect a guest to the host (the bridge brought up, the tap or the peer of its namespace put on the
  bridge) only while every hook and the last rule of every chain of the guard stand and IPv6 is off on
  the bridge; and when it returns no error, they still do.\<close>

theorem no_guest_before_its_guard:
  assumes "host_spec m rules g a" "n_guard n = Some g" "EnsureTap m n a (w, []) = (ok, w', log)"
  shows "(\<forall>(args, v) \<in> set log. exposing a args \<longrightarrow> whole g a (rules v) \<and> IPv6Off m g a v = Some True) \<and>
     (ok \<longrightarrow> whole g a (rules w') \<and> IPv6Off m g a w' = Some True)"
proof -
  have "logged m rules g a (w, [])" by (simp add: logged_def)
  from outcomeD [OF EnsureTap_outcome [OF assms(1,2)] this assms(3)]
  have "if ok then standing m rules g a (w', log) else logged m rules g a (w', log)" .
  then show ?thesis by (auto simp: standing_def logged_def guarded_def split: if_splits)
qed

theorem no_guest_before_its_guard_witness:
  "case EnsureTap well net_on slot3 (clean_host 100, []) of (ok, h, log) \<Rightarrow>
     ok \<and> whole guard_on slot3 (h_rules h) \<and> length (filter (exposing slot3) (map fst log)) = 2"
proof -
  let ?e = "EnsureTap well net_on slot3 (clean_host 100, [])"
  have ok: "fst ?e" "length (filter (exposing slot3) (map fst (snd (snd ?e)))) = 2" by code_simp+
  have "host_spec well h_rules guard_on slot3" unfolding well_def by (rule host_ok)
  moreover have "n_guard net_on = Some guard_on" by (simp add: net_on_def)
  moreover have "?e = (fst ?e, fst (snd ?e), snd (snd ?e))" by simp
  ultimately have "fst ?e \<longrightarrow> whole guard_on slot3 (h_rules (fst (snd ?e)))"
    using no_guest_before_its_guard [of well h_rules guard_on slot3 net_on "clean_host 100" "fst ?e" "fst (snd ?e)" "snd (snd ?e)"]
    by blast
  with ok show ?thesis by (simp add: case_prod_beta)
qed

text \<open>
  (C32) installing a guard, removing one, and what is undone after a failure, change no rule that is not
  the guard's: every other chain of every table, and in the chains it hooks every rule but its own
  hooks, is as it was, in the same order, whether the operation succeeded or not. When installing
  succeeds, every rule of every chain and every hook is there.\<close>

theorem guard_touches_only_its_own:
  assumes "iptables_ok m rules"
  shows "foreign g a (rules (snd (guard_release m g a w))) = foreign g a (rules w) \<and>
     (case guard_install m g a w of (ok, w') \<Rightarrow> foreign g a (rules w') = foreign g a (rules w) \<and> (ok \<longrightarrow> full g a (rules w')))"
proof -
  note blind = foreign_blind [OF assms, of g a]
  have "foreign g a (rules (snd (guard_release m g a w))) = foreign g a (rules w)"
    using guard_release_blind [OF blind] by (metis prod.collapse)
  moreover obtain ok w' where i: "guard_install m g a w = (ok, w')" by fastforce
  moreover have "foreign g a (rules w') = foreign g a (rules w)" using guard_install_blind [OF blind i] .
  moreover have "full g a (rules w')" if ok using install_full [OF assms] i that by simp
  ultimately show ?thesis by simp
qed

theorem guard_touches_only_its_own_witness:
  "fst (guard_install well guard_on slot3 (clean_host 100)) \<and> full guard_on slot3 (h_rules (snd (guard_install well guard_on slot3 (clean_host 100))))"
proof -
  have "iptables_ok well h_rules" unfolding well_def by (rule host_iptables_ok)
  moreover have "fst (guard_install well guard_on slot3 (clean_host 100))" by code_simp
  ultimately show ?thesis using guard_touches_only_its_own [of well h_rules guard_on slot3 "clean_host 100"]
    by (auto split: prod.splits)
qed

text \<open>
  (C33) the names and addresses of two valid machines never meet: different ones have different taps and
  different guest addresses, no guest has its gateway's address and no tap the name of any bridge, two
  slots have two bridges and two chains, and every name of a device fits the fifteen bytes the kernel
  allows.\<close>

theorem addresses_do_not_meet:
  assumes "addr_Valid a" "addr_Valid b"
  shows "(Tap a = Tap b \<longleftrightarrow> a = b) \<and> (GuestIP a = GuestIP b \<longleftrightarrow> a = b) \<and> GuestIP a \<noteq> Gateway b \<and> Tap a \<noteq> Bridge b \<and>
     (Bridge a = Bridge b \<longleftrightarrow> Slot a = Slot b) \<and> (Chain a = Chain b \<longleftrightarrow> Slot a = Slot b) \<and>
     length (Tap a) \<le> 15 \<and> length (Bridge a) \<le> 15"
proof (intro conjI)
  note v = valid_range [OF assms(1)] valid_range [OF assms(2)]
  show "Tap a = Tap b \<longleftrightarrow> a = b" "GuestIP a = GuestIP b \<longleftrightarrow> a = b"
    using Tap_inj [OF assms] GuestIP_inj [OF assms] by auto
  show "Bridge a = Bridge b \<longleftrightarrow> Slot a = Slot b" "Chain a = Chain b \<longleftrightarrow> Slot a = Slot b"
    using v Itoa_inj by (auto simp: Bridge_def Chain_def)
  show "Tap a \<noteq> Bridge b"
  proof
    assume "Tap a = Bridge b"
    then have "Itoa (Slot b) = Itoa (Slot a) @ CHR ''-'' # Itoa (Index a)" by (simp add: Tap_def Bridge_def)
    then have "CHR ''-'' \<in> set (Itoa (Slot b))" by simp
    with v Itoa_no_mark show False by blast
  qed
  show "GuestIP a \<noteq> Gateway b"
  proof
    assume "GuestIP a = Gateway b"
    then have "Itoa (Slot a) @ CHR ''.'' # Itoa (Index a + 2) = Itoa (Slot b) @ CHR ''.'' # ''1''"
      by (simp add: GuestIP_def Gateway_def)
    from split_unique [OF this] have "Itoa (Index a + 2) = ''1''" using v Itoa_no_mark by auto
    moreover have "Itoa 1 = ''1''" by code_simp
    ultimately have "Index a + 2 = 1" using v Itoa_inj [of "Index a + 2" 1] by (simp add: int_in_range_def)
    with v show False by simp
  qed
  show "length (Tap a) \<le> 15" "length (Bridge a) \<le> 15"
    using Itoa_short [of "Slot a"] Itoa_short [of "Index a"] assms(1) by (auto simp: Tap_def Bridge_def addr_Valid_def)
qed

theorem addresses_do_not_meet_witness:
  "GuestIP \<lparr>Slot = 3, Index = 0\<rparr> \<noteq> GuestIP \<lparr>Slot = 3, Index = 250\<rparr>"
  using addresses_do_not_meet [of "\<lparr>Slot = 3, Index = 0\<rparr>" "\<lparr>Slot = 3, Index = 250\<rparr>"] by (simp add: addr_Valid_def)

end
