(* ===== verification/Daemon_Wake.thy ===== *)
theory Daemon_Wake
  imports Sbx_Prelude
begin

text \<open>
  How the daemon wakes a service together with what it depends on: \<^verbatim>\<open>wake\<close>, \<^verbatim>\<open>wakeDeps\<close>, \<^verbatim>\<open>wakeAll\<close> and
  \<^verbatim>\<open>visited\<close> of \<^verbatim>\<open>internal/daemon/proxy.go\<close>. The units of one wake are woken by a goroutine each, which
  share the set of visited names; a state gives the phase of every goroutine, and a step is what one of
  them does between two points where another may run.
  \<^item> \<open>deps\<close> is the dependencies of a unit as \<open>peersOf\<close> resolves them.
  \<^item> The outcome of \<open>wakeUnit\<close> on one unit is any of its two; what it does is in \<open>Daemon_Unit\<close>.
\<close>

section \<open>Goroutines of a wake\<close>

text \<open>
  A goroutine is that of the unit it wakes, since a unit is claimed once. It is claimed, then started;
  it claims the dependencies that nobody has, starts them and waits for them; then it wakes its unit,
  unless one of them failed.
\<close>

datatype phase =
    Claimed
  | Entered
  | Claiming "string list"
  | Joining
  | Waking
  | Done bool

record wake_state =
  wk_seen :: "string list"
  wk_phase :: "string \<Rightarrow> phase"
  wk_next :: "string \<Rightarrow> string list"

definition newVisited :: "string \<Rightarrow> wake_state" where
  "newVisited root = \<lparr>wk_seen = [root], wk_phase = (\<lambda>_. Claimed)(root := Entered), wk_next = (\<lambda>_. [])\<rparr>"

definition claim_name :: "string \<Rightarrow> string list \<Rightarrow> bool \<times> string list" where
  "claim_name x seen = (if x \<in> set seen then (False, seen) else (True, seen @ [x]))"

definition set_phase :: "string \<Rightarrow> phase \<Rightarrow> wake_state \<Rightarrow> wake_state" where
  "set_phase n p s = s\<lparr>wk_phase := (wk_phase s)(n := p)\<rparr>"

definition claim_one :: "string \<Rightarrow> string \<Rightarrow> string list \<Rightarrow> wake_state \<Rightarrow> wake_state" where
  "claim_one n x xs s = (case claim_name x (wk_seen s) of
       (False, _) \<Rightarrow> set_phase n (Claiming xs) s
     | (True, seen) \<Rightarrow> (set_phase n (Claiming xs) s)\<lparr>wk_seen := seen, wk_next := (wk_next s)(n := wk_next s n @ [x])\<rparr>)"

definition spawn :: "string \<Rightarrow> wake_state \<Rightarrow> wake_state" where
  "spawn n s = s\<lparr>wk_phase := (\<lambda>m. if m = n then Joining else if m \<in> set (wk_next s n) then Entered else wk_phase s m)\<rparr>"

inductive wake_step :: "(string \<Rightarrow> string list) \<Rightarrow> wake_state \<Rightarrow> wake_state \<Rightarrow> bool" for deps where
  enter: "n \<in> set (wk_seen s) \<Longrightarrow> wk_phase s n = Entered \<Longrightarrow> wake_step deps s (set_phase n (Claiming (deps n)) s)"
| claim: "n \<in> set (wk_seen s) \<Longrightarrow> wk_phase s n = Claiming (x # xs) \<Longrightarrow> wake_step deps s (claim_one n x xs s)"
| start: "n \<in> set (wk_seen s) \<Longrightarrow> wk_phase s n = Claiming [] \<Longrightarrow> wake_step deps s (spawn n s)"
| join: "n \<in> set (wk_seen s) \<Longrightarrow> wk_phase s n = Joining \<Longrightarrow> \<forall>m \<in> set (wk_next s n). wk_phase s m = Done True \<Longrightarrow>
    wake_step deps s (set_phase n Waking s)"
| fail: "n \<in> set (wk_seen s) \<Longrightarrow> wk_phase s n = Joining \<Longrightarrow> \<forall>m \<in> set (wk_next s n). \<exists>b. wk_phase s m = Done b \<Longrightarrow>
    \<exists>m \<in> set (wk_next s n). wk_phase s m = Done False \<Longrightarrow> wake_step deps s (set_phase n (Done False) s)"
| woken: "n \<in> set (wk_seen s) \<Longrightarrow> wk_phase s n = Waking \<Longrightarrow> wake_step deps s (set_phase n (Done ok) s)"

inductive_cases wake_stepE: "wake_step deps s t"

text \<open>A wake of one unit: every state it passes through.\<close>

definition waking :: "(string \<Rightarrow> string list) \<Rightarrow> string \<Rightarrow> wake_state \<Rightarrow> bool" where
  "waking deps root = reach (\<lambda>s. s = newVisited root) (wake_step deps)"

section \<open>The invariant\<close>

definition later :: "'a list \<Rightarrow> 'a \<Rightarrow> 'a \<Rightarrow> bool" where
  "later xs x y \<longleftrightarrow> (\<exists>as bs. xs = as @ x # bs \<and> y \<in> set bs)"

text \<open>
  Who claimed whom is a forest in the order of the claims; what a goroutine has yet to look at and what
  is visited together cover its dependencies; a unit that is only claimed has a parent that still
  claims; and a goroutine that goes on to wake its unit has nothing that failed under it.
\<close>

definition forest :: "string \<Rightarrow> wake_state \<Rightarrow> bool" where
  "forest root s \<longleftrightarrow> distinct (wk_seen s) \<and> hd (wk_seen s) = root \<and> wk_seen s \<noteq> [] \<and>
     (\<forall>n. n \<notin> set (wk_seen s) \<longrightarrow> wk_next s n = []) \<and>
     (\<forall>n x. x \<in> set (wk_next s n) \<longrightarrow> later (wk_seen s) n x) \<and>
     (\<forall>n m x. x \<in> set (wk_next s n) \<longrightarrow> x \<in> set (wk_next s m) \<longrightarrow> n = m) \<and>
     (\<forall>x \<in> set (wk_seen s). x \<noteq> root \<longrightarrow> (\<exists>n. x \<in> set (wk_next s n)))"

definition claimed_of :: "(string \<Rightarrow> string list) \<Rightarrow> wake_state \<Rightarrow> string \<Rightarrow> bool" where
  "claimed_of deps s n \<longleftrightarrow> set (wk_next s n) \<subseteq> set (deps n) \<and>
     (case wk_phase s n of
        Claimed \<Rightarrow> wk_next s n = []
      | Entered \<Rightarrow> wk_next s n = []
      | Claiming xs \<Rightarrow> set xs \<subseteq> set (deps n) \<and> set (deps n) \<subseteq> set xs \<union> set (wk_seen s)
      | _ \<Rightarrow> set (deps n) \<subseteq> set (wk_seen s))"

definition awaited :: "wake_state \<Rightarrow> string \<Rightarrow> bool" where
  "awaited s n \<longleftrightarrow> (\<forall>x \<in> set (wk_next s n).
     (wk_phase s x = Claimed \<longleftrightarrow> (\<exists>xs. wk_phase s n = Claiming xs)) \<and>
     (wk_phase s n \<in> {Waking, Done True} \<longrightarrow> wk_phase s x = Done True))"

definition wake_inv :: "(string \<Rightarrow> string list) \<Rightarrow> string \<Rightarrow> wake_state \<Rightarrow> bool" where
  "wake_inv deps root s \<longleftrightarrow> forest root s \<and> wk_phase s root \<noteq> Claimed \<and>
     (\<forall>n \<in> set (wk_seen s). claimed_of deps s n \<and> awaited s n) \<and> (\<forall>n. n \<notin> set (wk_seen s) \<longrightarrow> wk_phase s n = Claimed)"

lemma set_phase_sel [simp]:
  "wk_seen (set_phase n p s) = wk_seen s" "wk_next (set_phase n p s) = wk_next s"
  "wk_phase (set_phase n p s) = (wk_phase s)(n := p)"
  by (simp_all add: set_phase_def)

lemma later_mem: "later xs x y \<Longrightarrow> x \<in> set xs \<and> y \<in> set xs"
  by (auto simp: later_def)

lemma later_neq: "distinct xs \<Longrightarrow> later xs x y \<Longrightarrow> x \<noteq> y"
  by (auto simp: later_def)

lemma later_append: "later xs x y \<Longrightarrow> later (xs @ ys) x y"
  unfolding later_def by (metis Un_iff append_Cons append_assoc set_append)

lemma later_new: "x \<in> set xs \<Longrightarrow> later (xs @ [y]) x y"
  unfolding later_def by (metis append_Cons append_assoc in_set_conv_decomp list.set_intros(1) Un_iff set_append)

lemma wake_inv_next: "wake_inv deps root s \<Longrightarrow> x \<in> set (wk_next s n) \<Longrightarrow> n \<in> set (wk_seen s) \<and> x \<in> set (wk_seen s) \<and> n \<noteq> x"
  unfolding wake_inv_def forest_def by (meson later_mem later_neq)

lemma next_later:
  assumes "wake_inv deps root s" "x \<in> set (wk_next s n)"
  obtains as bs where "wk_seen s = as @ n # bs" "x \<in> set bs"
proof -
  have "later (wk_seen s) n x" using assms by (simp add: wake_inv_def forest_def)
  then show thesis using that by (auto simp: later_def)
qed

lemma claimed_of_mono:
  assumes "claimed_of deps s n" "wk_next t n = wk_next s n" "wk_phase t n = wk_phase s n" "set (wk_seen s) \<subseteq> set (wk_seen t)"
  shows "claimed_of deps t n"
  using assms by (cases "wk_phase s n") (auto simp: claimed_of_def)

text \<open>A goroutine that moves on by itself.\<close>

lemma set_phase_inv:
  assumes inv: "wake_inv deps root s" and n: "n \<in> set (wk_seen s)"
    and old: "wk_phase s n \<noteq> Claimed" "\<And>b. wk_phase s n \<noteq> Done b" and p: "p \<noteq> Claimed"
    and own: "claimed_of deps (set_phase n p s) n"
    and kids: "\<And>x. x \<in> set (wk_next s n) \<Longrightarrow> wk_phase s x = Claimed \<longleftrightarrow> (\<exists>xs. p = Claiming xs)"
      "\<And>x. x \<in> set (wk_next s n) \<Longrightarrow> p \<in> {Waking, Done True} \<Longrightarrow> wk_phase s x = Done True"
  shows "wake_inv deps root (set_phase n p s)"
proof -
  have f: "forest root (set_phase n p s)" using inv by (simp add: wake_inv_def forest_def)
  have c: "claimed_of deps (set_phase n p s) m" if "m \<in> set (wk_seen s)" for m
    using inv own that claimed_of_mono [of deps s m "set_phase n p s"] by (cases "m = n") (auto simp: wake_inv_def)
  have a: "awaited (set_phase n p s) m" if m: "m \<in> set (wk_seen s)" for m
  proof (cases "m = n")
    case True
    have "x \<noteq> n" if "x \<in> set (wk_next s n)" for x using wake_inv_next [OF inv that] by blast
    with kids True show ?thesis by (auto simp: awaited_def)
  next
    case False
    have am: "awaited s m" using inv m by (simp add: wake_inv_def)
    have "(\<nexists>xs. wk_phase s m = Claiming xs) \<and> wk_phase s m \<notin> {Waking, Done True}" if "n \<in> set (wk_next s m)"
      using am that old unfolding awaited_def by blast
    with am False p show ?thesis unfolding awaited_def by auto
  qed
  show ?thesis using f c a inv n p by (auto simp: wake_inv_def)
qed

lemma wake_inv_at:
  assumes "wake_inv deps root s" "n \<in> set (wk_seen s)"
  shows "claimed_of deps s n" "awaited s n"
  using assms by (simp_all add: wake_inv_def)

lemma spawn_sel [simp]:
  "wk_seen (spawn n s) = wk_seen s" "wk_next (spawn n s) = wk_next s"
  "wk_phase (spawn n s) m = (if m = n then Joining else if m \<in> set (wk_next s n) then Entered else wk_phase s m)"
  by (simp_all add: spawn_def)

lemma spawn_inv:
  assumes inv: "wake_inv deps root s" and n: "n \<in> set (wk_seen s)" "wk_phase s n = Claiming []"
  shows "wake_inv deps root (spawn n s)"
proof -
  have kid: "x \<noteq> n \<and> wk_phase s x = Claimed \<and> x \<in> set (wk_seen s)" if "x \<in> set (wk_next s n)" for x
    using wake_inv_next [OF inv that] wake_inv_at(2) [OF inv n(1)] n(2) that by (auto simp: awaited_def)
  have own: "x \<in> set (wk_next s m) \<Longrightarrow> x \<in> set (wk_next s n) \<Longrightarrow> m = n" for x m
    using inv by (auto simp: wake_inv_def forest_def)
  have "claimed_of deps (spawn n s) m" if "m \<in> set (wk_seen s)" for m
    using wake_inv_at(1) [OF inv that] n(2) kid [of m] claimed_of_mono [of deps s m "spawn n s"]
    by (cases "m = n \<or> m \<in> set (wk_next s n)") (auto simp: claimed_of_def [of deps s] claimed_of_def [of deps "spawn n s" m])
  moreover have "awaited (spawn n s) m" if m: "m \<in> set (wk_seen s)" for m
    using wake_inv_at(2) [OF inv m] n(2) kid own kid [of m] unfolding awaited_def by auto
  ultimately show ?thesis using inv kid n by (auto simp: wake_inv_def forest_def spawn_def)
qed

lemma claim_inv:
  assumes inv: "wake_inv deps root s" and n: "n \<in> set (wk_seen s)" "wk_phase s n = Claiming (x # xs)"
  shows "wake_inv deps root (claim_one n x xs s)"
proof (cases "x \<in> set (wk_seen s)")
  case True
  then show ?thesis using wake_inv_at [OF inv n(1)] n
    by (auto simp: claim_one_def claim_name_def awaited_def claimed_of_def intro!: set_phase_inv [OF inv])
next
  case new: False
  let ?t = "claim_one n x xs s"
  have t: "wk_seen ?t = wk_seen s @ [x]" "wk_phase ?t = (wk_phase s)(n := Claiming xs)"
      "wk_next ?t = (wk_next s)(n := wk_next s n @ [x])"
    using new by (simp_all add: claim_one_def claim_name_def set_phase_def)
  have x: "wk_phase s x = Claimed" "x \<noteq> n" "wk_next s x = []"
    using inv new n(1) by (auto simp: wake_inv_def forest_def)
  have x4: "x \<notin> set (wk_next s m)" for m using wake_inv_next [OF inv, of x m] new by blast
  have f: "forest root ?t"
    unfolding forest_def t
  proof (intro conjI allI impI ballI)
    fix m y assume "y \<in> set (((wk_next s)(n := wk_next s n @ [x])) m)"
    then have "y \<in> set (wk_next s m) \<or> y = x \<and> m = n" by (auto split: if_splits)
    then show "later (wk_seen s @ [x]) m y" using inv n(1) by (auto simp: wake_inv_def forest_def intro: later_append later_new)
  next
    fix m m' y assume "y \<in> set (((wk_next s)(n := wk_next s n @ [x])) m)" "y \<in> set (((wk_next s)(n := wk_next s n @ [x])) m')"
    then have "(y \<in> set (wk_next s m) \<and> y \<in> set (wk_next s m')) \<or> m = m'" using x4 by (auto split: if_splits)
    then show "m = m'" using inv by (auto simp: wake_inv_def forest_def)
  next
    fix y assume "y \<in> set (wk_seen s @ [x])" "y \<noteq> root"
    then have "(\<exists>m. y \<in> set (wk_next s m)) \<or> y = x" using inv by (auto simp: wake_inv_def forest_def)
    then show "\<exists>m. y \<in> set (((wk_next s)(n := wk_next s n @ [x])) m)" by (auto intro: exI [of _ n])
  qed (use inv new n(1) in \<open>auto simp: wake_inv_def forest_def\<close>)
  have "claimed_of deps ?t m" if m: "m \<in> set (wk_seen s)" for m
    using wake_inv_at(1) [OF inv m] n(2) unfolding claimed_of_def t by (auto split: phase.splits)
  moreover have "awaited ?t m" if m: "m \<in> set (wk_seen s)" for m
    using wake_inv_at(2) [OF inv m] wake_inv_at(2) [OF inv n(1)] n(2) x x4 unfolding awaited_def t by auto
  moreover have "claimed_of deps ?t x" "awaited ?t x" using x by (simp_all add: claimed_of_def awaited_def t)
  ultimately show ?thesis using f inv n x by (auto simp: wake_inv_def t)
qed

lemma wake_step_inv: "wake_inv deps root s \<Longrightarrow> wake_step deps s t \<Longrightarrow> wake_inv deps root t"
proof (erule wake_stepE)
  fix n assume inv: "wake_inv deps root s" and n: "n \<in> set (wk_seen s)" "wk_phase s n = Entered" and t: "t = set_phase n (Claiming (deps n)) s"
  show "wake_inv deps root t" unfolding t
    using wake_inv_at [OF inv n(1)] n by (intro set_phase_inv [OF inv]) (auto simp: claimed_of_def awaited_def)
next
  fix n x xs assume inv: "wake_inv deps root s" and n: "n \<in> set (wk_seen s)" "wk_phase s n = Claiming (x # xs)" and t: "t = claim_one n x xs s"
  show "wake_inv deps root t" unfolding t by (rule claim_inv [OF inv n])
next
  fix n assume inv: "wake_inv deps root s" and n: "n \<in> set (wk_seen s)" "wk_phase s n = Claiming []" and t: "t = spawn n s"
  show "wake_inv deps root t" unfolding t by (rule spawn_inv [OF inv n])
next
  fix n assume inv: "wake_inv deps root s" and n: "n \<in> set (wk_seen s)" "wk_phase s n = Joining" and t: "t = set_phase n Waking s"
    and k: "\<forall>m \<in> set (wk_next s n). wk_phase s m = Done True"
  show "wake_inv deps root t" unfolding t
    using wake_inv_at [OF inv n(1)] n k by (intro set_phase_inv [OF inv]) (auto simp: claimed_of_def awaited_def)
next
  fix n assume inv: "wake_inv deps root s" and n: "n \<in> set (wk_seen s)" "wk_phase s n = Joining" and t: "t = set_phase n (Done False) s"
  show "wake_inv deps root t" unfolding t
    using wake_inv_at [OF inv n(1)] n by (intro set_phase_inv [OF inv]) (auto simp: claimed_of_def awaited_def)
next
  fix n ok assume inv: "wake_inv deps root s" and n: "n \<in> set (wk_seen s)" "wk_phase s n = Waking" and t: "t = set_phase n (Done ok) s"
  show "wake_inv deps root t" unfolding t
    using wake_inv_at [OF inv n(1)] n by (intro set_phase_inv [OF inv]) (auto simp: claimed_of_def awaited_def)
qed

interpretation wk: invariant_system "\<lambda>s. s = newVisited root" "wake_step deps" "wake_inv deps root" for deps root
proof
  show "wake_inv deps root s" if "s = newVisited root" for s
    using that by (auto simp: wake_inv_def newVisited_def forest_def claimed_of_def awaited_def)
qed (rule wake_step_inv)

lemma waking_inv: "waking deps root s \<Longrightarrow> wake_inv deps root s"
  unfolding waking_def by (rule wk.reach_inv)

section \<open>A wake comes to an end\<close>

definition weight :: "(string \<Rightarrow> string list) \<Rightarrow> wake_state \<Rightarrow> string \<Rightarrow> nat" where
  "weight deps s n = (if n \<notin> set (wk_seen s) then length (deps n) + 6 else (case wk_phase s n of
       Claimed \<Rightarrow> length (deps n) + 5
     | Entered \<Rightarrow> length (deps n) + 4
     | Claiming xs \<Rightarrow> length xs + 3
     | Joining \<Rightarrow> 2
     | Waking \<Rightarrow> 1
     | Done _ \<Rightarrow> 0))"

definition remaining :: "(string \<Rightarrow> string list) \<Rightarrow> string set \<Rightarrow> wake_state \<Rightarrow> nat" where
  "remaining deps V s = (\<Sum>n \<in> V. weight deps s n)"

lemma remaining_less:
  assumes "finite V" "n \<in> V" "weight deps t n < weight deps s n" "\<And>m. m \<in> V \<Longrightarrow> weight deps t m \<le> weight deps s m"
  shows "remaining deps V t < remaining deps V s"
  unfolding remaining_def using assms by (intro sum_strict_mono_ex1) auto

lemma set_phase_less:
  assumes "finite V" "set (wk_seen s) \<subseteq> V" "n \<in> set (wk_seen s)" "weight deps (set_phase n p s) n < weight deps s n"
  shows "remaining deps V (set_phase n p s) < remaining deps V s"
  using assms by (intro remaining_less [of V n]) (auto simp: weight_def)

lemma step_less:
  assumes "finite V" "set (wk_seen s) \<subseteq> V" "\<And>n. n \<in> V \<Longrightarrow> set (deps n) \<subseteq> V" "wake_inv deps root s" "wake_step deps s t"
  shows "remaining deps V t < remaining deps V s"
  using assms(5)
proof (cases rule: wake_step.cases)
  case (claim n x xs)
  show ?thesis
  proof (cases "x \<in> set (wk_seen s)")
    case True
    then have "t = set_phase n (Claiming xs) s" using claim by (simp add: claim_one_def claim_name_def)
    moreover have "weight deps (set_phase n (Claiming xs) s) n < weight deps s n" using claim by (simp add: weight_def)
    ultimately show ?thesis using set_phase_less [OF assms(1,2) claim(2)] by simp
  next
    case False
    then have x: "wk_phase s x = Claimed" using assms(4) by (simp add: wake_inv_def)
    have t: "wk_seen t = wk_seen s @ [x]" "wk_phase t = (wk_phase s)(n := Claiming xs)"
      using claim False by (simp_all add: claim_one_def claim_name_def set_phase_def)
    show ?thesis
      by (rule remaining_less [of V n]) (use assms(1,2) claim t x in \<open>auto simp: weight_def\<close>)
  qed
next
  case (start n)
  have kid: "wk_phase s x = Claimed \<and> x \<noteq> n \<and> x \<in> set (wk_seen s)" if "x \<in> set (wk_next s n)" for x
    using wake_inv_next [OF assms(4) that] wake_inv_at(2) [OF assms(4), of n] start that by (auto simp: awaited_def)
  show ?thesis unfolding start(1)
    by (rule remaining_less [of V n]) (use assms(1,2) start kid in \<open>auto simp: weight_def\<close>)
qed (use set_phase_less [OF assms(1,2)] in \<open>auto simp: weight_def\<close>)

text \<open>While the unit asked for is not done, some goroutine can move.\<close>

lemma not_stuck:
  assumes inv: "wake_inv deps root s" and root: "\<And>b. wk_phase s root \<noteq> Done b"
  shows "\<exists>t. wake_step deps s t"
proof (rule ccontr)
  assume stuck: "\<nexists>t. wake_step deps s t"
  let ?open = "filter (\<lambda>n. \<forall>b. wk_phase s n \<noteq> Done b) (wk_seen s)"
  have "root \<in> set ?open" using inv root by (auto simp: wake_inv_def forest_def)
  then have ne: "?open \<noteq> []" by (metis empty_iff empty_set)
  define n where "n = last ?open"
  have n: "n \<in> set (wk_seen s)" "\<And>b. wk_phase s n \<noteq> Done b" using last_in_set [OF ne] by (auto simp: n_def)
  have kids_done: "\<exists>b. wk_phase s x = Done b" if x: "x \<in> set (wk_next s n)" for x
  proof (rule ccontr)
    assume o: "\<nexists>b. wk_phase s x = Done b"
    obtain as bs where sp: "wk_seen s = as @ n # bs" "x \<in> set bs" by (rule next_later [OF inv x])
    let ?rest = "filter (\<lambda>n. \<forall>b. wk_phase s n \<noteq> Done b) bs"
    have "x \<in> set ?rest" using sp(2) o by simp
    then have re: "?rest \<noteq> []" by (metis empty_iff empty_set)
    have "last ?open = last ?rest" using sp(1) re by (simp add: last_append)
    then have "last ?open \<in> set bs" using last_in_set [OF re] by simp
    moreover have "n \<notin> set bs" using inv sp(1) by (auto simp: wake_inv_def forest_def)
    ultimately show False by (simp add: n_def)
  qed
  show False
  proof (cases "wk_phase s n")
    case Claimed
    then have "n \<noteq> root" using inv by (auto simp: wake_inv_def)
    then obtain m where m: "n \<in> set (wk_next s m)" using inv n(1) by (auto simp: wake_inv_def forest_def)
    then have ms: "m \<in> set (wk_seen s)" using wake_inv_next [OF inv] by blast
    obtain xs where "wk_phase s m = Claiming xs" using wake_inv_at(2) [OF inv ms] m Claimed by (auto simp: awaited_def)
    with ms stuck show False by (cases xs) (auto intro: wake_step.intros)
  next
    case (Claiming xs)
    with n(1) stuck show False by (cases xs) (auto intro: wake_step.intros)
  next
    case Joining
    with n(1) stuck kids_done show False by (metis wake_step.fail wake_step.join)
  qed (use n stuck in \<open>auto intro: wake_step.intros\<close>)
qed

section \<open>What a wake has done\<close>

text \<open>Induction along the claims.\<close>

lemma seen_induct:
  assumes inv: "wake_inv deps root s" and root: "P root" and x: "x \<in> set (wk_seen s)"
    and step: "\<And>m y. m \<in> set (wk_seen s) \<Longrightarrow> P m \<Longrightarrow> y \<in> set (wk_next s m) \<Longrightarrow> P y"
  shows "P x"
proof -
  have "\<forall>x \<in> set (take k (wk_seen s)). P x" for k
  proof (induction k)
    case (Suc k)
    show ?case
    proof (cases "k < length (wk_seen s)")
      case True
      define y where "y = wk_seen s ! k"
      have "P y"
      proof (cases "y = root")
        case False
        have "y \<in> set (wk_seen s)" using True by (simp add: y_def)
        then obtain m where m: "y \<in> set (wk_next s m)" using inv False by (auto simp: wake_inv_def forest_def)
        obtain as bs where sp: "wk_seen s = as @ m # bs" "y \<in> set bs" by (rule next_later [OF inv m])
        obtain j where j: "j < length bs" "bs ! j = y" using sp(2) by (auto simp: in_set_conv_nth)
        have "wk_seen s ! (length as + Suc j) = y" "length as + Suc j < length (wk_seen s)" using sp(1) j by (simp_all add: nth_append)
        then have "length as + Suc j = k" using inv True by (auto simp: y_def wake_inv_def forest_def nth_eq_iff_index_eq)
        then have "m \<in> set (take k (wk_seen s))" using sp(1) by auto
        then have "P m" "m \<in> set (wk_seen s)" using Suc by (blast, blast dest: in_set_takeD)
        then show ?thesis using step m by blast
      qed (use root in simp)
      then show ?thesis using Suc True by (simp add: take_Suc_conv_app_nth y_def)
    qed (use Suc in simp)
  qed simp
  from this [of "length (wk_seen s)"] x show ?thesis by simp
qed

lemma all_woken:
  assumes inv: "wake_inv deps root s" and root: "wk_phase s root = Done True" and x: "x \<in> set (wk_seen s)"
  shows "wk_phase s x = Done True"
proof (rule seen_induct [OF inv _ x])
  fix m y assume "m \<in> set (wk_seen s)" "wk_phase s m = Done True" "y \<in> set (wk_next s m)"
  then show "wk_phase s y = Done True" using wake_inv_at(2) [OF inv, of m] by (simp add: awaited_def)
qed (rule root)

text \<open>The services a unit needs, directly or not.\<close>

inductive needs :: "(string \<Rightarrow> string list) \<Rightarrow> string \<Rightarrow> string \<Rightarrow> bool" for deps root where
  needs_root: "needs deps root root"
| needs_dep: "needs deps root n \<Longrightarrow> x \<in> set (deps n) \<Longrightarrow> needs deps root x"

lemma seen_needed:
  assumes inv: "wake_inv deps root s" and x: "x \<in> set (wk_seen s)"
  shows "needs deps root x"
proof (rule seen_induct [OF inv needs_root x])
  fix m y assume "m \<in> set (wk_seen s)" "needs deps root m" "y \<in> set (wk_next s m)"
  then show "needs deps root y" using wake_inv_at(1) [OF inv, of m] by (auto simp: claimed_of_def intro: needs_dep)
qed

lemma needs_seen:
  assumes inv: "wake_inv deps root s" and root: "wk_phase s root = Done True" and "needs deps root x"
  shows "x \<in> set (wk_seen s)"
  using assms(3)
proof (induction rule: needs.induct)
  case needs_root
  then show ?case using inv by (auto simp: wake_inv_def forest_def)
next
  case (needs_dep n x)
  then have "wk_phase s n = Done True" using all_woken [OF inv root] by blast
  then show ?case using wake_inv_at(1) [OF inv needs_dep.IH] needs_dep.hyps(2) by (auto simp: claimed_of_def)
qed


section \<open>A shared dependency\<close>

lemma waking_start: "waking deps root (newVisited root)"
  by (simp add: waking_def reach_init)

lemma waking_step: "waking deps root s \<Longrightarrow> wake_step deps s t \<Longrightarrow> waking deps root t"
  unfolding waking_def by (rule reach_step)

text \<open>A sandbox of three services, two of which need the third.\<close>

definition stack :: "string \<Rightarrow> string list" where
  "stack n = (if n = ''app'' then [''db'', ''api''] else if n = ''api'' then [''db''] else [])"

text \<open>
  The goroutine of \<open>api\<close> finds \<open>db\<close> claimed by the one of \<open>app\<close>, does not wait for it, and wakes \<open>api\<close>
  while \<open>db\<close> has not even been asked to start.
\<close>

lemma shared_dependency_not_awaited:
  "\<exists>s. waking stack ''app'' s \<and> ''db'' \<in> set (stack ''api'') \<and> wk_phase s ''api'' = Waking \<and> wk_phase s ''db'' = Entered"
proof -
  note [simp] = stack_def claim_one_def claim_name_def newVisited_def
  define s1 where "s1 = set_phase ''app'' (Claiming (stack ''app'')) (newVisited ''app'')"
  define s2 where "s2 = claim_one ''app'' ''db'' [''api''] s1"
  define s3 where "s3 = claim_one ''app'' ''api'' [] s2"
  define s4 where "s4 = spawn ''app'' s3"
  define s5 where "s5 = set_phase ''api'' (Claiming (stack ''api'')) s4"
  define s6 where "s6 = claim_one ''api'' ''db'' [] s5"
  define s7 where "s7 = spawn ''api'' s6"
  define s8 where "s8 = set_phase ''api'' Waking s7"
  have "waking stack ''app'' s1" unfolding s1_def by (rule waking_step [OF waking_start enter]) simp_all
  then have "waking stack ''app'' s2" unfolding s2_def by (rule waking_step [OF _ claim]) (simp_all add: s1_def)
  then have "waking stack ''app'' s3" unfolding s3_def by (rule waking_step [OF _ claim]) (simp_all add: s2_def s1_def)
  then have "waking stack ''app'' s4" unfolding s4_def by (rule waking_step [OF _ start]) (simp_all add: s3_def s2_def s1_def)
  then have "waking stack ''app'' s5" unfolding s5_def by (rule waking_step [OF _ enter]) (simp_all add: s4_def s3_def s2_def s1_def)
  then have "waking stack ''app'' s6" unfolding s6_def by (rule waking_step [OF _ claim]) (simp_all add: s5_def s4_def s3_def s2_def s1_def)
  then have "waking stack ''app'' s7" unfolding s7_def by (rule waking_step [OF _ start]) (simp_all add: s6_def s5_def s4_def s3_def s2_def s1_def)
  then have "waking stack ''app'' s8" unfolding s8_def
    by (rule waking_step [OF _ join]) (simp_all add: s7_def s6_def s5_def s4_def s3_def s2_def s1_def)
  moreover have "wk_phase s8 ''api'' = Waking" "wk_phase s8 ''db'' = Entered"
    by (simp_all add: s8_def s7_def s6_def s5_def s4_def s3_def s2_def s1_def)
  ultimately show ?thesis by (intro exI [of _ s8]) simp
qed

text \<open>And one in which each needs the next.\<close>

definition chain :: "string \<Rightarrow> string list" where
  "chain n = (if n = ''app'' then [''db''] else [])"

lemma chain_runs:
  "\<exists>s. waking chain ''app'' s \<and> ''app'' \<in> set (wk_seen s) \<and> wk_phase s ''app'' = Waking"
  "\<exists>s. waking chain ''app'' s \<and> wk_phase s ''app'' = Done True"
proof -
  note [simp] = chain_def claim_one_def claim_name_def newVisited_def
  define s1 where "s1 = set_phase ''app'' (Claiming (chain ''app'')) (newVisited ''app'')"
  define s2 where "s2 = claim_one ''app'' ''db'' [] s1"
  define s3 where "s3 = spawn ''app'' s2"
  define s4 where "s4 = set_phase ''db'' (Claiming (chain ''db'')) s3"
  define s5 where "s5 = spawn ''db'' s4"
  define s6 where "s6 = set_phase ''db'' Waking s5"
  define s7 where "s7 = set_phase ''db'' (Done True) s6"
  define s8 where "s8 = set_phase ''app'' Waking s7"
  define s9 where "s9 = set_phase ''app'' (Done True) s8"
  note defs = s8_def s7_def s6_def s5_def s4_def s3_def s2_def s1_def
  have "waking chain ''app'' s1" unfolding s1_def by (rule waking_step [OF waking_start enter]) simp_all
  then have "waking chain ''app'' s2" unfolding s2_def by (rule waking_step [OF _ claim]) (simp_all add: defs)
  then have "waking chain ''app'' s3" unfolding s3_def by (rule waking_step [OF _ start]) (simp_all add: defs)
  then have "waking chain ''app'' s4" unfolding s4_def by (rule waking_step [OF _ enter]) (simp_all add: defs)
  then have "waking chain ''app'' s5" unfolding s5_def by (rule waking_step [OF _ start]) (simp_all add: defs)
  then have "waking chain ''app'' s6" unfolding s6_def by (rule waking_step [OF _ join]) (simp_all add: defs)
  then have "waking chain ''app'' s7" unfolding s7_def by (rule waking_step [OF _ woken]) (simp_all add: defs)
  then have 8: "waking chain ''app'' s8" unfolding s8_def by (rule waking_step [OF _ join]) (simp_all add: defs)
  then have 9: "waking chain ''app'' s9" unfolding s9_def by (rule waking_step [OF _ woken]) (simp_all add: defs)
  from 8 show "\<exists>s. waking chain ''app'' s \<and> ''app'' \<in> set (wk_seen s) \<and> wk_phase s ''app'' = Waking"
    by (intro exI [of _ s8]) (simp add: defs)
  from 9 show "\<exists>s. waking chain ''app'' s \<and> wk_phase s ''app'' = Done True"
    by (intro exI [of _ s9]) (simp add: s9_def)
qed

section \<open>Properties\<close>

lemma seen_within:
  assumes "waking deps root s" "root \<in> V" "\<And>n. n \<in> V \<Longrightarrow> set (deps n) \<subseteq> V"
  shows "set (wk_seen s) \<subseteq> V"
proof
  fix x assume "x \<in> set (wk_seen s)"
  then have "needs deps root x" using seen_needed [OF waking_inv [OF assms(1)]] by blast
  then show "x \<in> V" using assms(2,3) by (induction rule: needs.induct) auto
qed

text \<open>
  (C8) A wake never hangs, whatever the dependencies are, cycles included: in every state it can reach,
  every step brings it nearer to its end by a measure, and as long as the unit asked for has neither
  been woken nor failed, some goroutine can take a step.\<close>

theorem wake_never_hangs:
  assumes "finite V" "root \<in> V" "\<forall>n \<in> V. set (deps n) \<subseteq> V" "waking deps root s"
  shows "(\<forall>t. wake_step deps s t \<longrightarrow> remaining deps V t < remaining deps V s) \<and>
    ((\<exists>ok. wk_phase s root = Done ok) \<or> (\<exists>t. wake_step deps s t))"
  using step_less [OF assms(1) seen_within [OF assms(4,2)] _ waking_inv [OF assms(4)]] not_stuck [OF waking_inv [OF assms(4)]] assms(3)
  by blast

text \<open>Two services that declare each other.\<close>

definition cycle :: "string \<Rightarrow> string list" where
  "cycle n = (if n = ''a'' then [''b''] else if n = ''b'' then [''a''] else [])"

theorem wake_never_hangs_witness:
  "\<exists>t. wake_step cycle (newVisited ''a'') t \<and> remaining cycle {''a'', ''b''} t < remaining cycle {''a'', ''b''} (newVisited ''a'')"
  using wake_never_hangs [of "{''a'', ''b''}" "''a''" cycle "newVisited ''a''", OF _ _ _ waking_start]
  by (auto simp: cycle_def newVisited_def)

text \<open>
  (C11) When the wake of a unit succeeds, every service it needs, directly or through others, has been woken
  successfully, also where services share one; and a wake never touches a service it does not need.\<close>

theorem woken_with_all_it_needs:
  assumes "waking deps root s"
  shows "(wk_phase s root = Done True \<longrightarrow> (\<forall>x. needs deps root x \<longrightarrow> wk_phase s x = Done True)) \<and>
    distinct (wk_seen s) \<and> (\<forall>x. x \<in> set (wk_seen s) \<longrightarrow> needs deps root x) \<and> (\<forall>x. x \<notin> set (wk_seen s) \<longrightarrow> wk_phase s x = Claimed)"
proof -
  note inv = waking_inv [OF assms]
  have "wk_phase s x = Done True" if "wk_phase s root = Done True" "needs deps root x" for x
    using all_woken [OF inv that(1) needs_seen [OF inv that]] .
  moreover have "distinct (wk_seen s)" "x \<notin> set (wk_seen s) \<Longrightarrow> wk_phase s x = Claimed" for x
    using inv by (simp_all add: wake_inv_def forest_def)
  ultimately show ?thesis using seen_needed [OF inv] by blast
qed

theorem woken_with_all_it_needs_witness:
  "\<exists>s. waking chain ''app'' s \<and> wk_phase s ''app'' = Done True \<and> wk_phase s ''db'' = Done True"
proof -
  obtain s where s: "waking chain ''app'' s" "wk_phase s ''app'' = Done True" using chain_runs(2) by blast
  have "needs chain ''app'' ''db''" by (rule needs_dep [OF needs_root]) (simp add: chain_def)
  with woken_with_all_it_needs [OF s(1)] s show ?thesis by blast
qed



end
