(* ===== verification/Daemon_Unit.thy ===== *)
theory Daemon_Unit
  imports Daemon_Wake
begin

text \<open>
  The daemon that wakes and sleeps services: the unit of \<^verbatim>\<open>internal/daemon/proxy.go\<close>, the reaper and the
  discovery of \<^verbatim>\<open>serve.go\<close>, and the pauses of \<^verbatim>\<open>freeze.go\<close> and \<^verbatim>\<open>pin.go\<close>.
  \<^item> The provider is an argument: calls on a world of any type, each of which may fail. What is relied
    on of it is the predicate \<open>provider_ok\<close> on a view of the world that says which workloads run.
  \<^item> Clocks are arguments, in nanoseconds as Go has them; a poll for readiness is the list of answers
    the probe gives before the deadline.
  \<^item> What runs under the lock of one unit (\<open>waking\<close>) or of the daemon is one step; \<open>d_op\<close> lists the steps,
    and the theorems speak of every sequence of them, which is every interleaving.
\<close>

section \<open>Units and providers\<close>

record dunit =
  u_sandbox :: string
  u_service :: string
  u_ref :: string
  u_dependsOn :: "string list"
  u_lastByte :: int
  u_live :: "nat list"
  u_awake :: bool
  u_keepAwake :: bool
  u_idle :: int
  u_pinned :: bool
  u_stopping :: bool
  u_served :: bool
  u_healthAsked :: "int option"
  u_freezeOnIdle :: bool
  u_frozen :: bool
  u_held :: bool

text \<open>What the provider lists of a workload.\<close>

record listed =
  f_Sandbox :: string
  f_Service :: string
  f_Ref :: string
  f_Running :: bool
  f_Paused :: bool
  f_Idle :: string
  f_DependsOn :: "string list"
  f_OnIdle :: string

datatype pause_result = Pause_ok | Pause_not_running | Pause_error
datatype stop_result = Stop_ok | Stop_still_running | Stop_error

record 'w pauser =
  pa_Pause :: "string \<Rightarrow> 'w \<Rightarrow> pause_result \<times> 'w"
  pa_Unpause :: "string \<Rightarrow> 'w \<Rightarrow> bool \<times> 'w"

record 'w provider =
  p_Start :: "string \<Rightarrow> 'w \<Rightarrow> bool \<times> 'w"
  p_Stop :: "string \<Rightarrow> 'w \<Rightarrow> stop_result \<times> 'w"
  p_Pauser :: "'w pauser option"
  p_List :: "string \<Rightarrow> 'w \<Rightarrow> listed list option"
  p_Healthy :: "string \<Rightarrow> 'w \<Rightarrow> bool \<times> bool"

definition one_second :: int where "one_second = 1000000000"

definition touch :: "int \<Rightarrow> dunit \<Rightarrow> dunit" where "touch now u = u\<lparr>u_lastByte := now\<rparr>"

definition idleFor :: "int \<Rightarrow> dunit \<Rightarrow> int" where "idleFor now u = now - u_lastByte u"

text \<open>\<open>idlePolicy\<close>: \<open>parse\<close> is \<open>time.ParseDuration\<close>.\<close>

definition idlePolicy :: "(string \<Rightarrow> int option) \<Rightarrow> string \<Rightarrow> bool \<times> int" where
  "idlePolicy parse s =
     (if s = [] then (False, 0)
      else if s = ''never'' \<or> s = ''0'' then (True, 0)
      else (case parse s of None \<Rightarrow> (False, 0) | Some d \<Rightarrow> (False, d)))"

section \<open>Waking one unit\<close>

definition confirmRunning :: "'w provider \<Rightarrow> dunit \<Rightarrow> 'w \<Rightarrow> bool" where
  "confirmRunning p u w = (case p_List p (u_sandbox u) w of
       None \<Rightarrow> True
     | Some fs \<Rightarrow> (case find (\<lambda>f. f_Ref f = u_ref u) fs of None \<Rightarrow> True | Some f \<Rightarrow> f_Running f))"

text \<open>Each answer of the probe is whether it serves and whether a check is declared. \<open>Some True\<close> is a
  verified wake, \<open>Some False\<close> an unverified one, \<open>None\<close> the deadline.\<close>

fun poll :: "(bool \<times> bool) list \<Rightarrow> bool option" where
  "poll [] = None"
| "poll ((serving, declared) # as) = (if \<not> declared then Some False else if serving then Some True else poll as)"

definition try_thaw :: "'w provider \<Rightarrow> int \<Rightarrow> dunit \<Rightarrow> 'w \<Rightarrow> bool \<times> dunit \<times> 'w" where
  "try_thaw p now u w =
     (if \<not> u_frozen u then (False, u, w)
      else let u1 = u\<lparr>u_frozen := False\<rparr> in
        (case p_Pauser p of
           None \<Rightarrow> (False, u1, w)
         | Some pa \<Rightarrow> (case pa_Unpause pa (u_ref u) w of
             (True, w1) \<Rightarrow> (True, touch now (u1\<lparr>u_awake := True, u_served := True\<rparr>), w1)
           | (False, w1) \<Rightarrow> (False, u1, w1))))"

datatype wake_error = Held | Start_failed | Not_ready

definition start_unit :: "'w provider \<Rightarrow> (bool \<times> bool) list \<Rightarrow> int \<Rightarrow> dunit \<Rightarrow> 'w \<Rightarrow> wake_error option \<times> dunit \<times> 'w" where
  "start_unit p polls now u w = (case p_Start p (u_ref u) w of
       (False, w1) \<Rightarrow> (Some Start_failed, u, w1)
     | (True, w1) \<Rightarrow> (case poll polls of
         None \<Rightarrow> (Some Not_ready, u, w1)
       | Some verified \<Rightarrow> (None, touch now (u\<lparr>u_awake := True, u_served := (verified \<or> u_served u)\<rparr>), w1)))"

definition wakeUnit :: "'w provider \<Rightarrow> (bool \<times> bool) list \<Rightarrow> int \<Rightarrow> bool \<Rightarrow> dunit \<Rightarrow> 'w \<Rightarrow> wake_error option \<times> dunit \<times> 'w" where
  "wakeUnit p polls now verify u w =
     (if u_held u then (Some Held, u, w)
      else if u_awake u \<and> (\<not> verify \<or> confirmRunning p u w) then (None, touch now u, w)
      else (case try_thaw p now (u\<lparr>u_awake := False\<rparr>) w of
          (True, u1, w1) \<Rightarrow> (None, u1, w1)
        | (False, u1, w1) \<Rightarrow> start_unit p polls now u1 w1))"

section \<open>Sleeping one unit\<close>

definition sleep :: "'w provider \<Rightarrow> int \<Rightarrow> int \<Rightarrow> dunit \<Rightarrow> 'w \<Rightarrow> dunit \<times> 'w" where
  "sleep p now idle u w =
     (if idleFor now u < idle then (u, w)
      else let u1 = u\<lparr>u_live := [], u_awake := False\<rparr> in
        (case (if u_freezeOnIdle u then p_Pauser p else None) of
           Some pa \<Rightarrow> (case pa_Pause pa (u_ref u) w of
               (Pause_ok, w1) \<Rightarrow> (u1\<lparr>u_frozen := True\<rparr>, w1)
             | (_, w1) \<Rightarrow> (u1\<lparr>u_awake := True\<rparr>, w1))
         | None \<Rightarrow> (case p_Stop p (u_ref u) w of
               (Stop_still_running, w1) \<Rightarrow> (u1\<lparr>u_awake := True\<rparr>, w1)
             | (_, w1) \<Rightarrow> (u1, w1))))"

text \<open>A pause on request, of one unit.\<close>

definition freeze_unit :: "'w pauser \<Rightarrow> dunit \<Rightarrow> 'w \<Rightarrow> bool \<times> dunit \<times> 'w" where
  "freeze_unit pa u w =
     (let u1 = u\<lparr>u_live := []\<rparr> in
      if u_frozen u then (True, u1, w)
      else (case pa_Pause pa (u_ref u) w of
          (Pause_ok, w1) \<Rightarrow> (True, u1\<lparr>u_awake := False, u_frozen := True\<rparr>, w1)
        | (Pause_not_running, w1) \<Rightarrow> (True, u1\<lparr>u_awake := False\<rparr>, w1)
        | (Pause_error, w1) \<Rightarrow> (False, u1, w1)))"

section \<open>The daemon\<close>

text \<open>\<open>d_building\<close> is the unit that a discovery pass is making and has not registered yet: one at most,
  since passes are serialised.\<close>

record daemon =
  d_units :: "dunit list"
  d_heldSet :: "string list"
  d_pinnedSet :: "string list"
  d_idle :: int
  d_building :: "dunit option"

definition on_units :: "(dunit \<Rightarrow> dunit) \<Rightarrow> daemon \<Rightarrow> daemon" where
  "on_units f d = d\<lparr>d_units := map f (d_units d)\<rparr>"

definition isHeld :: "daemon \<Rightarrow> string \<Rightarrow> bool" where "isHeld d s \<longleftrightarrow> s \<in> set (d_heldSet d)"

definition isPinned :: "daemon \<Rightarrow> string \<Rightarrow> bool" where "isPinned d s \<longleftrightarrow> s \<in> set (d_pinnedSet d)"

definition Hold :: "string \<Rightarrow> bool \<Rightarrow> daemon \<Rightarrow> daemon" where
  "Hold s held d = on_units (\<lambda>u. if u_sandbox u = s then u\<lparr>u_held := held\<rparr> else u)
     (d\<lparr>d_heldSet := (if held then List.insert s (d_heldSet d) else removeAll s (d_heldSet d))\<rparr>)"

definition Pin :: "string \<Rightarrow> bool \<Rightarrow> int \<Rightarrow> daemon \<Rightarrow> daemon" where
  "Pin s pinned now d = on_units (\<lambda>u. if u_sandbox u = s
         then (if pinned then u\<lparr>u_pinned := True\<rparr> else touch now (u\<lparr>u_pinned := False\<rparr>)) else u)
     (d\<lparr>d_pinnedSet := (if pinned then List.insert s (d_pinnedSet d) else removeAll s (d_pinnedSet d))\<rparr>)"

definition newUnit :: "(string \<Rightarrow> int option) \<Rightarrow> int \<Rightarrow> listed \<Rightarrow> daemon \<Rightarrow> dunit" where
  "newUnit parse now f d =
     \<lparr>u_sandbox = f_Sandbox f, u_service = f_Service f, u_ref = f_Ref f, u_dependsOn = f_DependsOn f,
      u_lastByte = now, u_live = [], u_awake = f_Running f, u_keepAwake = fst (idlePolicy parse (f_Idle f)),
      u_idle = snd (idlePolicy parse (f_Idle f)), u_pinned = isPinned d (f_Sandbox f), u_stopping = False,
      u_served = False, u_healthAsked = None, u_freezeOnIdle = (f_OnIdle f = ''freeze''),
      u_frozen = f_Paused f, u_held = isHeld d (f_Sandbox f)\<rparr>"

definition unit_at :: "string \<Rightarrow> daemon \<Rightarrow> dunit option" where
  "unit_at ref d = find (\<lambda>u. u_ref u = ref) (d_units d)"

definition put_unit :: "dunit \<Rightarrow> daemon \<Rightarrow> daemon" where
  "put_unit u = on_units (\<lambda>v. if u_ref v = u_ref u then u else v)"

definition register :: "daemon \<Rightarrow> daemon" where
  "register d = (case d_building d of
       None \<Rightarrow> d
     | Some u \<Rightarrow> d\<lparr>d_building := None, d_units := filter (\<lambda>v. u_ref v \<noteq> u_ref u) (d_units d) @ [u]\<rparr>)"

definition forget :: "string \<Rightarrow> daemon \<Rightarrow> daemon" where
  "forget ref d = d\<lparr>d_units := filter (\<lambda>u. u_ref u \<noteq> ref) (d_units d)\<rparr>"

definition peersOf :: "daemon \<Rightarrow> string \<Rightarrow> string list \<Rightarrow> dunit list" where
  "peersOf d sandbox services =
     List.map_filter (\<lambda>want. find (\<lambda>u. u_sandbox u = sandbox \<and> u_service u = want) (d_units d)) services"

definition refHeld :: "daemon \<Rightarrow> string \<Rightarrow> string \<times> bool" where
  "refHeld d ref = (case unit_at ref d of None \<Rightarrow> ([], False) | Some u \<Rightarrow> (u_sandbox u, u_held u \<or> isHeld d (u_sandbox u)))"

section \<open>The reaper\<close>

definition healthEvery :: "int \<Rightarrow> int" where
  "healthEvery idle = (let every = idle div 3 in
     if (if every < one_second then one_second else every) > 30 * one_second then 30 * one_second
     else if every < one_second then one_second else every)"

definition sleepable :: "'w provider \<Rightarrow> int \<Rightarrow> int \<Rightarrow> dunit \<Rightarrow> 'w \<Rightarrow> bool \<times> dunit" where
  "sleepable p now every u w =
     (if u_served u then (True, u)
      else if (case u_healthAsked u of None \<Rightarrow> False | Some t \<Rightarrow> now - t < every) then (False, u)
      else let u1 = u\<lparr>u_healthAsked := Some now\<rparr> in
        (case p_Healthy p (u_ref u) w of (serving, declared) \<Rightarrow>
           if \<not> serving \<and> declared then (False, u1) else (False, touch now (u1\<lparr>u_served := True\<rparr>))))"

definition needed :: "daemon \<Rightarrow> string \<Rightarrow> string \<Rightarrow> bool" where
  "needed d sandbox service \<longleftrightarrow> list_ex (\<lambda>u. (u_awake u \<or> u_stopping u) \<and> u_sandbox u = sandbox \<and> service \<in> set (u_dependsOn u)) (d_units d)"

definition window :: "daemon \<Rightarrow> dunit \<Rightarrow> int" where
  "window d u = (if u_idle u > 0 then u_idle u else d_idle d)"

text \<open>One unit of a tick: the unit as the tick leaves it, and marked when its sleep is started.\<close>

definition reap_one :: "'w provider \<Rightarrow> (string \<Rightarrow> bool) \<Rightarrow> int \<Rightarrow> daemon \<Rightarrow> 'w \<Rightarrow> dunit \<Rightarrow> dunit" where
  "reap_one p snapshotting now d w u =
     (if u_keepAwake u \<or> u_pinned u then u
      else if needed d (u_sandbox u) (u_service u) then u
      else if \<not> u_awake u then u
      else (case sleepable p now (healthEvery (window d u)) u w of
          (False, u1) \<Rightarrow> u1
        | (True, u1) \<Rightarrow>
            if idleFor now u1 < window d u then u1
            else if snapshotting (u_ref u) then u1
            else if u_stopping u1 then u1
            else u1\<lparr>u_stopping := True\<rparr>))"

definition reap :: "'w provider \<Rightarrow> (string \<Rightarrow> bool) \<Rightarrow> int \<Rightarrow> daemon \<Rightarrow> 'w \<Rightarrow> daemon" where
  "reap p snapshotting now d w = on_units (reap_one p snapshotting now d w) d"

section \<open>Discovery and its corrections\<close>

definition relist :: "'w provider \<Rightarrow> listed \<Rightarrow> 'w \<Rightarrow> listed option" where
  "relist p f w = (case p_List p (f_Sandbox f) w of
       None \<Rightarrow> None
     | Some fs \<Rightarrow> find (\<lambda>g. f_Ref g = f_Ref f) fs)"

definition correctAwake :: "'w provider \<Rightarrow> (string \<Rightarrow> bool) \<Rightarrow> listed \<Rightarrow> daemon \<Rightarrow> 'w \<Rightarrow> daemon" where
  "correctAwake p snapshotting f d w =
     (if f_Running f then d
      else if f_Paused f \<and> snapshotting (f_Ref f) then d
      else (case unit_at (f_Ref f) d of
          None \<Rightarrow> d
        | Some u \<Rightarrow>
            if f_Paused f = u_frozen u \<and> \<not> u_awake u then d
            else (case relist p f w of
                None \<Rightarrow> d
              | Some g \<Rightarrow> if f_Running g then d else put_unit (u\<lparr>u_frozen := f_Paused g, u_awake := False\<rparr>) d)))"

section \<open>Steps\<close>

text \<open>
  A connection that arrives (\<open>Op_connect\<close>, refused where held), a wake of a unit for it or for a dependent, a
  dial that failed, bytes, the end of a connection; a tick of the reaper and the sleep it starts; a
  unit being made and registered or dropped by discovery, and a correction; and what the API asks:
  hold and release, pin, and the pause of one unit, which is held again first.
\<close>

datatype d_op =
    Op_connect string int
  | Op_track string nat
  | Op_wake string "(bool \<times> bool) list" bool int
  | Op_revoke string
  | Op_byte string int
  | Op_untrack string nat int
  | Op_reap int
  | Op_sleep string int
  | Op_build string string int
  | Op_register
  | Op_forget string
  | Op_correct listed
  | Op_hold string bool
  | Op_pin string bool int
  | Op_freeze string

record 'w system =
  s_daemon :: daemon
  s_world :: 'w

definition on_unit :: "string \<Rightarrow> (dunit \<Rightarrow> 'w \<Rightarrow> dunit \<times> 'w) \<Rightarrow> 'w system \<Rightarrow> 'w system" where
  "on_unit ref f s = (case unit_at ref (s_daemon s) of
       None \<Rightarrow> s
     | Some u \<Rightarrow> (case f u (s_world s) of (u1, w1) \<Rightarrow> s\<lparr>s_daemon := put_unit u1 (s_daemon s), s_world := w1\<rparr>))"

definition on_daemon :: "(daemon \<Rightarrow> daemon) \<Rightarrow> 'w system \<Rightarrow> 'w system" where
  "on_daemon f s = s\<lparr>s_daemon := f (s_daemon s)\<rparr>"

record 'w env =
  e_provider :: "'w provider"
  e_parse :: "string \<Rightarrow> int option"
  e_snapshotting :: "string \<Rightarrow> bool"

text \<open>A pass of discovery that finds a workload it has no unit for.\<close>

definition build_unit :: "'w env \<Rightarrow> string \<Rightarrow> string \<Rightarrow> int \<Rightarrow> 'w \<Rightarrow> daemon \<Rightarrow> daemon" where
  "build_unit e sb ref now w d = (case p_List (e_provider e) sb w of
       None \<Rightarrow> d
     | Some fs \<Rightarrow> (case find (\<lambda>f. f_Ref f = ref) fs of
         None \<Rightarrow> d
       | Some f \<Rightarrow> if unit_at ref d = None then d\<lparr>d_building := Some (newUnit (e_parse e) now f d)\<rparr> else d))"

definition d_step :: "'w env \<Rightarrow> d_op \<Rightarrow> 'w system \<Rightarrow> 'w system" where
  "d_step e op s =
     (let p = e_provider e in case op of
        Op_connect ref now \<Rightarrow> on_unit ref (\<lambda>u w. (if u_held u then u else touch now u, w)) s
      | Op_track ref c \<Rightarrow> on_unit ref (\<lambda>u w. (u\<lparr>u_live := c # u_live u\<rparr>, w)) s
      | Op_wake ref polls verify now \<Rightarrow> on_unit ref (\<lambda>u w. snd (wakeUnit p polls now verify u w)) s
      | Op_revoke ref \<Rightarrow> on_unit ref (\<lambda>u w. (u\<lparr>u_awake := False\<rparr>, w)) s
      | Op_byte ref now \<Rightarrow> on_unit ref (\<lambda>u w. (touch now u, w)) s
      | Op_untrack ref c now \<Rightarrow> on_unit ref (\<lambda>u w. (touch now (u\<lparr>u_live := removeAll c (u_live u)\<rparr>), w)) s
      | Op_reap now \<Rightarrow> on_daemon (\<lambda>d. reap p (e_snapshotting e) now d (s_world s)) s
      | Op_sleep ref now \<Rightarrow> on_unit ref (\<lambda>u w. if u_stopping u
            then (case sleep p now (window (s_daemon s) u) u w of (u1, w1) \<Rightarrow> (u1\<lparr>u_stopping := False\<rparr>, w1)) else (u, w)) s
      | Op_build sb ref now \<Rightarrow> on_daemon (build_unit e sb ref now (s_world s)) s
      | Op_register \<Rightarrow> on_daemon register s
      | Op_forget ref \<Rightarrow> on_daemon (forget ref) s
      | Op_correct f \<Rightarrow> on_daemon (\<lambda>d. correctAwake p (e_snapshotting e) f d (s_world s)) s
      | Op_hold sb held \<Rightarrow> on_daemon (Hold sb held) s
      | Op_pin sb pinned now \<Rightarrow> on_daemon (Pin sb pinned now) s
      | Op_freeze ref \<Rightarrow> on_unit ref (\<lambda>u w. case p_Pauser p of
            None \<Rightarrow> (u, w)
          | Some pa \<Rightarrow> snd (freeze_unit pa (u\<lparr>u_held := True\<rparr>) w)) s)"

definition run_daemon :: "'w env \<Rightarrow> d_op list \<Rightarrow> 'w system \<Rightarrow> 'w system" where
  "run_daemon e ops s = fold (d_step e) ops s"

text \<open>\<open>Freeze\<close> as a whole, on the units known: it holds the sandbox and freezes its units in turn, and a
  failure releases the hold. \<open>Thaw\<close> is a release followed by wakes.\<close>

fun freeze_all :: "'w pauser \<Rightarrow> string \<Rightarrow> string list \<Rightarrow> 'w system \<Rightarrow> bool \<times> 'w system" where
  "freeze_all pa sb [] s = (True, s)"
| "freeze_all pa sb (r # rs) s = (case unit_at r (s_daemon s) of
       None \<Rightarrow> freeze_all pa sb rs s
     | Some u \<Rightarrow> (case freeze_unit pa (u\<lparr>u_held := True\<rparr>) (s_world s) of
         (True, u1, w1) \<Rightarrow> freeze_all pa sb rs (s\<lparr>s_daemon := put_unit u1 (s_daemon s), s_world := w1\<rparr>)
       | (False, u1, w1) \<Rightarrow> (False, s\<lparr>s_daemon := Hold sb False (put_unit u1 (s_daemon s)), s_world := w1\<rparr>)))"

definition refs_of :: "string \<Rightarrow> daemon \<Rightarrow> string list" where
  "refs_of sb d = map u_ref (filter (\<lambda>u. u_sandbox u = sb) (d_units d))"

definition Freeze :: "'w provider \<Rightarrow> string \<Rightarrow> 'w system \<Rightarrow> bool \<times> 'w system" where
  "Freeze p sb s = (case p_Pauser p of
       None \<Rightarrow> (False, s)
     | Some pa \<Rightarrow> (case refs_of sb (s_daemon s) of
         [] \<Rightarrow> (False, s)
       | rs \<Rightarrow> freeze_all pa sb rs (on_daemon (Hold sb True) s)))"

section \<open>What is relied on\<close>

text \<open>
  The documented behaviour of a provider, on a view of the world that says which workloads run:
  a call changes no workload but its own; stopping or pausing makes none run, and a pause that succeeds,
  or says that the workload is not running, leaves it not running; a listing names the sandbox a workload
  belongs to, and one listed as paused does not run.
\<close>

definition pauser_ok :: "'w pauser \<Rightarrow> ('w \<Rightarrow> string \<Rightarrow> bool) \<Rightarrow> bool" where
  "pauser_ok pa run \<longleftrightarrow>
     (\<forall>r w x. run (snd (pa_Pause pa r w)) x \<longrightarrow> run w x) \<and>
     (\<forall>r w x. run w x \<longrightarrow> run (snd (pa_Pause pa r w)) x \<or> x = r) \<and>
     (\<forall>r w. fst (pa_Pause pa r w) \<noteq> Pause_error \<longrightarrow> \<not> run (snd (pa_Pause pa r w)) r) \<and>
     (\<forall>r w x. x \<noteq> r \<longrightarrow> run (snd (pa_Unpause pa r w)) x = run w x)"

definition provider_ok :: "'w provider \<Rightarrow> ('w \<Rightarrow> string \<Rightarrow> bool) \<Rightarrow> (string \<Rightarrow> string) \<Rightarrow> bool" where
  "provider_ok p run sb_of \<longleftrightarrow>
     (\<forall>r w x. x \<noteq> r \<longrightarrow> run (snd (p_Start p r w)) x = run w x) \<and>
     (\<forall>r w x. run (snd (p_Stop p r w)) x \<longrightarrow> run w x) \<and>
     (\<forall>r w x. run w x \<longrightarrow> run (snd (p_Stop p r w)) x \<or> x = r) \<and>
     (\<forall>pa. p_Pauser p = Some pa \<longrightarrow> pauser_ok pa run) \<and>
     (\<forall>sb w fs f. p_List p sb w = Some fs \<longrightarrow> f \<in> set fs \<longrightarrow>
        f_Sandbox f = sb_of (f_Ref f) \<and> (f_Paused f \<longrightarrow> \<not> run w (f_Ref f)))"




section \<open>Moves of one unit\<close>



lemma provider_okD:
  assumes "provider_ok p run sb_of"
  shows p_Start_other: "p_Start p r w = (b, w1) \<Longrightarrow> run w1 x \<Longrightarrow> run w x \<or> x = r"
    and p_Stop_none: "p_Stop p r w = (sr, w1) \<Longrightarrow> run w1 x \<Longrightarrow> run w x"
    and p_Stop_own: "p_Stop p r w = (sr, w1) \<Longrightarrow> run w x \<Longrightarrow> run w1 x \<or> x = r"
    and p_Pauser_ok: "p_Pauser p = Some pa \<Longrightarrow> pauser_ok pa run"
    and p_List_ok: "p_List p sb w = Some fs \<Longrightarrow> f \<in> set fs \<Longrightarrow> f_Sandbox f = sb_of (f_Ref f) \<and> (f_Paused f \<longrightarrow> \<not> run w (f_Ref f))"
  using assms unfolding provider_ok_def by (metis snd_conv)+

lemma pauser_okD:
  assumes "pauser_ok pa run"
  shows pa_Pause_none: "pa_Pause pa r w = (pr, w1) \<Longrightarrow> run w1 x \<Longrightarrow> run w x"
    and pa_Pause_own: "pa_Pause pa r w = (pr, w1) \<Longrightarrow> run w x \<Longrightarrow> run w1 x \<or> x = r"
    and pa_Pause_stops: "pa_Pause pa r w = (pr, w1) \<Longrightarrow> pr \<noteq> Pause_error \<Longrightarrow> \<not> run w1 r"
    and pa_Unpause_other: "pa_Unpause pa r w = (b, w1) \<Longrightarrow> run w1 x \<Longrightarrow> run w x \<or> x = r"
  using assms unfolding pauser_ok_def by (metis fst_conv snd_conv)+






section \<open>Moves of the daemon\<close>

lemma unit_at_Some: "unit_at ref d = Some u \<Longrightarrow> u \<in> set (d_units d) \<and> u_ref u = ref"
  unfolding unit_at_def by (auto simp: find_Some_iff)



lemma put_unit_sel [simp]: "d_building (put_unit u d) = d_building d" "d_heldSet (put_unit u d) = d_heldSet d"
  by (simp_all add: put_unit_def on_units_def)























section \<open>A pause\<close>




section \<open>A provider to try it on\<close>

datatype box = Up | Frozen_box | Down

definition list_box :: "(string \<Rightarrow> box) \<Rightarrow> string \<Rightarrow> string \<Rightarrow> listed" where
  "list_box w svc ref = \<lparr>f_Sandbox = ''box'', f_Service = svc, f_Ref = ref, f_Running = (w ref = Up), f_Paused = (w ref = Frozen_box),
     f_Idle = [], f_DependsOn = [], f_OnIdle = []\<rparr>"

definition boxes :: "bool \<Rightarrow> (string \<Rightarrow> box) provider" where
  "boxes stops = \<lparr>p_Start = (\<lambda>r w. if w r = Frozen_box then (False, w) else (True, w(r := Up))),
     p_Stop = (\<lambda>r w. if stops then (Stop_ok, w(r := Down)) else (Stop_error, w)),
     p_Pauser = Some \<lparr>pa_Pause = (\<lambda>r w. if w r = Up then (Pause_ok, w(r := Frozen_box)) else if w r = Down then (Pause_not_running, w) else (Pause_ok, w)),
       pa_Unpause = (\<lambda>r w. if w r = Frozen_box then (True, w(r := Up)) else (True, w))\<rparr>,
     p_List = (\<lambda>sb w. Some [list_box w ''db'' ''box-db'', list_box w ''web'' ''box-web'']),
     p_Healthy = (\<lambda>r w. (True, True))\<rparr>"

definition up :: "(string \<Rightarrow> box) \<Rightarrow> string \<Rightarrow> bool" where "up w r \<longleftrightarrow> w r = Up"

lemma boxes_ok: "provider_ok (boxes stops) up (\<lambda>_. ''box'')"
  by (auto simp: provider_ok_def pauser_ok_def boxes_def up_def list_box_def split: if_splits)

definition box_env :: "bool \<Rightarrow> (string \<Rightarrow> box) env" where
  "box_env stops = \<lparr>e_provider = boxes stops, e_parse = (\<lambda>_. None), e_snapshotting = (\<lambda>_. False)\<rparr>"

definition fresh_daemon :: "int \<Rightarrow> 'w \<Rightarrow> 'w system" where
  "fresh_daemon idle w = \<lparr>s_daemon = \<lparr>d_units = [], d_heldSet = [], d_pinnedSet = [], d_idle = idle, d_building = None\<rparr>, s_world = w\<rparr>"


section \<open>What goes wrong\<close>

text \<open>
  A unit that discovery made before the sandbox was held, and registers after, is not held: a connection
  to it wakes a workload of a sandbox whose pause was answered with success.
\<close>

lemma pause_misses_unit_in_the_making:
  "let s = run_daemon (box_env True) [Op_build ''box'' ''box-db'' 0, Op_register, Op_build ''box'' ''box-web'' 0] (fresh_daemon 5 (\<lambda>_. Down));
       (ok, t) = Freeze (boxes True) ''box'' s
   in ok \<and> \<not> up (s_world t) ''box-web'' \<and>
      up (s_world (run_daemon (box_env True) [Op_register, Op_connect ''box-web'' 1, Op_wake ''box-web'' [(True, True)] False 2] t)) ''box-web''"
  by code_simp

text \<open>A stop that fails for any reason but one leaves a workload that runs, is believed asleep, and that no
  tick of the reaper looks at again.\<close>

lemma failed_stop_is_forgotten:
  "let s = run_daemon (box_env False) [Op_build ''box'' ''box-db'' 0, Op_register, Op_reap 1, Op_reap 9, Op_sleep ''box-db'' 9] (fresh_daemon 5 (\<lambda>_. Up));
       later = run_daemon (box_env True) [Op_reap 100, Op_sleep ''box-db'' 100] s
   in up (s_world s) ''box-db'' \<and> map u_awake (d_units (s_daemon s)) = [False] \<and> up (s_world later) ''box-db''"
  by code_simp

text \<open>A unit first seen while \<open>sbx snapshot\<close> has its workload paused is taken for frozen; once the snapshot
  has thawed it, a pause of the sandbox succeeds and pauses nothing.\<close>

lemma snapshot_pause_taken_for_freeze:
  "let s = run_daemon (box_env True) [Op_build ''box'' ''box-db'' 0, Op_register] (fresh_daemon 5 (\<lambda>_. Frozen_box));
       thawed = s\<lparr>s_world := (s_world s)(''box-db'' := Up)\<rparr>;
       (ok, t) = Freeze (boxes True) ''box'' thawed
   in ok \<and> up (s_world t) ''box-db''"
  by code_simp

section \<open>Properties\<close>




text \<open>
  (C10) The reaper takes away only what is idle. It decides on a unit only when that is awake, has served, is
  neither kept awake nor pinned nor being copied, has had no byte for its window, and no unit of its
  sandbox that is awake or on its way down depends on it; and the sleep it starts stops nothing but that
  unit's workload, and only if the window is still over when it holds the unit's lock.\<close>

theorem sleeps_only_what_is_idle:
  assumes "provider_ok (e_provider e) run sb_of"
  shows "(\<not> u_stopping u \<longrightarrow> u_stopping (reap_one p sn now d w u) \<longrightarrow>
      u_awake u \<and> u_served u \<and> \<not> u_keepAwake u \<and> \<not> u_pinned u \<and> \<not> sn (u_ref u) \<and> window d u \<le> now - u_lastByte u \<and>
      (\<forall>v \<in> set (d_units d). u_sandbox v = u_sandbox u \<longrightarrow> u_service u \<in> set (u_dependsOn v) \<longrightarrow> \<not> u_awake v \<and> \<not> u_stopping v)) \<and>
    (run (s_world s) r \<longrightarrow> \<not> run (s_world (d_step e (Op_sleep ref now) s)) r \<longrightarrow>
      r = ref \<and> (\<exists>v. unit_at ref (s_daemon s) = Some v \<and> u_stopping v \<and> window (s_daemon s) v \<le> now - u_lastByte v))"
proof (intro conjI impI)
  assume st: "\<not> u_stopping u" "u_stopping (reap_one p sn now d w u)"
  have pre: "\<not> u_keepAwake u \<and> \<not> u_pinned u \<and> \<not> needed d (u_sandbox u) (u_service u) \<and> u_awake u"
    using st by (auto simp: reap_one_def split: if_splits)
  have "u_served u \<and> \<not> sn (u_ref u) \<and> window d u \<le> now - u_lastByte u"
    using st pre by (auto simp: reap_one_def sleepable_def idleFor_def touch_def Let_def split: if_splits prod.splits bool.splits option.splits)
  then show "u_awake u" "u_served u" "\<not> u_keepAwake u" "\<not> u_pinned u" "\<not> sn (u_ref u)" "window d u \<le> now - u_lastByte u"
    "\<forall>v \<in> set (d_units d). u_sandbox v = u_sandbox u \<longrightarrow> u_service u \<in> set (u_dependsOn v) \<longrightarrow> \<not> u_awake v \<and> \<not> u_stopping v"
    using pre by (auto simp: needed_def list_ex_iff)
next
  let ?p = "e_provider e"
  assume r: "run (s_world s) r" "\<not> run (s_world (d_step e (Op_sleep ref now) s)) r"
  then obtain v where v: "unit_at ref (s_daemon s) = Some v" by (cases "unit_at ref (s_daemon s)") (auto simp: d_step_def on_unit_def)
  obtain u1 w1 where sl: "sleep ?p now (window (s_daemon s) v) v (s_world s) = (u1, w1)" by fastforce
  have stop: "u_stopping v" using r v by (auto simp: d_step_def on_unit_def split: if_splits)
  then have w1: "s_world (d_step e (Op_sleep ref now) s) = w1" using v sl by (simp add: d_step_def on_unit_def)
  have idle: "\<not> idleFor now v < window (s_daemon s) v" using sl r w1 by (auto simp: sleep_def)
  then have "(\<exists>sr. p_Stop ?p (u_ref v) (s_world s) = (sr, w1)) \<or> (\<exists>pa pr. p_Pauser ?p = Some pa \<and> pa_Pause pa (u_ref v) (s_world s) = (pr, w1))"
    using sl by (auto simp: sleep_def Let_def split: if_splits option.splits prod.splits pause_result.splits stop_result.splits)
  then have "r = u_ref v" using r w1 p_Stop_own [OF assms] pa_Pause_own [OF p_Pauser_ok [OF assms]] by blast
  with v stop idle show "r = ref" "\<exists>v. unit_at ref (s_daemon s) = Some v \<and> u_stopping v \<and> window (s_daemon s) v \<le> now - u_lastByte v"
    using unit_at_Some [OF v] by (auto simp: idleFor_def)
qed

definition due :: "(string \<Rightarrow> box) system" where
  "due = run_daemon (box_env True) [Op_build ''box'' ''box-db'' 0, Op_register, Op_reap 1, Op_reap 9] (fresh_daemon 5 (\<lambda>_. Up))"

theorem sleeps_only_what_is_idle_witness:
  "up (s_world due) ''box-db'' \<and> \<not> up (s_world (d_step (box_env True) (Op_sleep ''box-db'' 9) due)) ''box-db'' \<and>
   (\<exists>v. unit_at ''box-db'' (s_daemon due) = Some v \<and> u_stopping v \<and> window (s_daemon due) v \<le> 9 - u_lastByte v)"
proof -
  have run: "up (s_world due) ''box-db''" "\<not> up (s_world (d_step (box_env True) (Op_sleep ''box-db'' 9) due)) ''box-db''" by code_simp+
  have "provider_ok (e_provider (box_env True)) up (\<lambda>_. ''box'')" using boxes_ok by (simp add: box_env_def)
  from sleeps_only_what_is_idle [OF this, THEN conjunct2, rule_format, OF run] run show ?thesis by simp
qed

section \<open>A connection\<close>











end
