(* ===== verification/Spec2Isabelle.thy ===== *)
theory Spec2Isabelle
  imports Egress_Control Spec_Load Slot_Lock Ws_Frame Osb_Slots Osb_Coalesce Osb_Pool Vault_Effects
    Execd_Rekey Execd_Output Fc_Extract Fc_Guard Daemon_Unit
begin

text \<open>
  \<^bold>\<open>Verification of sbx.\<close> sbx runs sandboxes, groups of services, on docker, firecracker or kubernetes,
  wakes them on connect and confines what they reach. This library models the parts of it that decide
  something: what a spec means, which ports a sandbox gets, who may reach what, whose credential a
  request carries, who holds a lock, how messages are framed, who may use a restored machine, and what
  a guest can reach or overwrite on its host. Every definition translates Go code
  under \<^verbatim>\<open>src/internal\<close>; calls of the operating system, of engines and of third parties are arguments
  or steps of an environment.

  \<^bold>\<open>How the parts interact.\<close> A spec (\<open>Spec_Model\<close>, \<open>Spec_Order\<close>, \<open>Spec_Load\<close>) is loaded, checked and laid
  out; a sandbox gets a slot under a machine-wide lock (\<open>Slot_Lock\<close>, \<open>Osb_Slots\<close>, \<open>Osb_Coalesce\<close>), and slot
  and ordinals give its ports (this theory), or it is taken from a pool of warm ones (\<open>Osb_Pool\<close>). A daemon answers on those ports, wakes what a connection needs
  and takes away what is idle (\<open>Daemon_Wake\<close>, \<open>Daemon_Unit\<close>). Its outgoing traffic passes a filter (\<open>Egress_Filter\<close>) that
  asks the policy (\<open>Egress_Policy\<close>) and the refused sets (\<open>Egress_Doors\<close>); the policy is changed over a
  control API (\<open>Egress_Control\<close>). Where the filter ends TLS for a bound host, the vault (\<open>Vault_Match\<close>,
  \<open>Vault_Authority\<close>, \<open>Cred_Vault\<close>, \<open>Vault_Effects\<close>) adds the credential, and a binding is accepted only for a
  host the policy allows. Terminals and tunnels run over web sockets (\<open>Ws_Frame\<close>). The agent in a sandbox
  is sealed before its machine is copied and given a new identity afterwards (\<open>Execd_Rekey\<close>), and shows the
  output of what it runs (\<open>Execd_Output\<close>). A microVM gets its file system from an image (\<open>Fc_Extract\<close>) and a
  place on a bridge that the host is closed to (\<open>Fc_Guard\<close>).

  \<^bold>\<open>Theories.\<close>
  \<^item> \<open>Sbx_Prelude\<close>: results \<open>('e, 'a) res\<close> for Go's \<open>(T, error)\<close>, loops that stop at an error, the locale
    \<open>invariant_system\<close> of a transition system, which every component with state interprets.
  \<^item> \<open>Go_Strings\<close>, \<open>Go_Netip\<close>: what is used of \<^verbatim>\<open>strings\<close>, \<^verbatim>\<open>strconv\<close>, \<^verbatim>\<open>net\<close> and \<^verbatim>\<open>net/netip\<close>, on bytes and
    words. Text is ASCII where case or white space matters.
  \<^item> \<open>First_Match\<close>, \<open>Egress_Policy\<close>: \<^verbatim>\<open>egress/policy.go\<close>. The compiled index decides as first match does; merge,
    normal forms, address rules, port grants.
  \<^item> \<open>Egress_Filter\<close>: \<^verbatim>\<open>egress/filter.go\<close>. Only admitted addresses are dialled; a refusal opens nothing; a
    credential source sees only permitted requests.
  \<^item> \<open>Egress_Doors\<close>: \<^verbatim>\<open>egress/local.go\<close>, \<^verbatim>\<open>doors.go\<close>. What a filter refuses whatever the policy says.
  \<^item> \<open>Egress_Control\<close>: \<^verbatim>\<open>egress/control.go\<close> and the persistence of \<^verbatim>\<open>standalone_main.go.txt\<close>. The policy in force
    changes only by an accepted PUT, and a restart reads it back over any failures of the disk.
  \<^item> \<open>Spec_Model\<close>, \<open>Spec_Order\<close>, \<open>Spec_Load\<close>: \<^verbatim>\<open>spec/*.go\<close>. Creation order is topological exactly when there is no
    cycle; ordinals; expansion of variables; what a loaded spec guarantees.
  \<^item> \<open>Slot_Lock\<close>: \<^verbatim>\<open>slotlock/slotlock.go\<close>, \<^verbatim>\<open>procid/procid.go\<close>. The file lock as interleaved steps of processes that
    may die: exclusive when the check for a stale file is one step, not when it is two.
  \<^item> \<open>Osb_Slots\<close>, \<open>Osb_Coalesce\<close>: \<^verbatim>\<open>osb/slots.go\<close>, \<^verbatim>\<open>osb/coalesce.go\<close>, the slot part of
    \<^verbatim>\<open>provider/docker_provider.go\<close>. Two creates never share a slot; every caller of a list is served, freshly.
  \<^item> \<open>Osb_Pool\<close>: \<^verbatim>\<open>osb/pool.go\<close>, the sandboxes made before anyone asks. Each is given to one create, whose token its
    agent accepts, also over failures and restarts; the pool is bounded, unseen and of one shape.
  \<^item> \<open>Daemon_Wake\<close>: the wake of a service with its dependencies, \<^verbatim>\<open>wakeAll\<close> of \<^verbatim>\<open>daemon/proxy.go\<close>, as interleaved steps of
    goroutines. It never hangs, and what it wakes is what is needed.
  \<^item> \<open>Daemon_Unit\<close>: \<^verbatim>\<open>daemon/proxy.go\<close>, \<^verbatim>\<open>freeze.go\<close>, \<^verbatim>\<open>pin.go\<close>, the reaper and discovery of \<^verbatim>\<open>serve.go\<close>. A pause lasts
    until it is released, only what is idle is put to sleep, and a connection is served.
  \<^item> \<open>Ws_Frame\<close>: \<^verbatim>\<open>wsserver/wsserver.go\<close>, \<^verbatim>\<open>wsclient/wsclient.go\<close>. What one side writes the other reads.
  \<^item> \<open>Vault_Match\<close>, \<open>Vault_Authority\<close>, \<open>Cred_Vault\<close>, \<open>Vault_Effects\<close>: \<^verbatim>\<open>credvault/*.go\<close>. One binding per request, writes
    that refine an update of a map, secrets that no answer depends on, an authority that signs only
    under its constraints.
  \<^item> \<open>Execd_Rekey\<close>: \<^verbatim>\<open>execd/rekey.go\<close>, \<^verbatim>\<open>claim.go\<close> and the guard of \<^verbatim>\<open>server.go\<close>. A sealed agent answers nobody until it
    is given a new identity, after which the old credentials are dead.
  \<^item> \<open>Execd_Output\<close>: \<^verbatim>\<open>execd/replay.go\<close>, \<^verbatim>\<open>lines.go\<close>, the viewer of \<^verbatim>\<open>pty.go\<close>. The ring buffer refines the whole history of
    a terminal (locale \<open>scrollback\<close>), a viewer sees it truly, and line events are the lines of the output.
  \<^item> \<open>Fc_Extract\<close>: \<^verbatim>\<open>fc/extract.go\<close> on a file system with symbolic and hard links. Unpacking stays inside its
    root, unless two entries have one path.
  \<^item> \<open>Fc_Guard\<close>: \<^verbatim>\<open>fc/network.go\<close>, \<^verbatim>\<open>fc/guard.go\<close>. No guest is connected before its guard stands, the guard touches
    no rule but its own, and addresses do not meet.

  \<^bold>\<open>State and operations.\<close> A struct is a \<open>record\<close> with the fields the modelled code reads or writes, a Go map an
  association list in some iteration order or a function, a method a function that returns its result
  and the new state. Concurrent code is a step relation (\<open>lock_step\<close>, \<open>slot_step\<close>, \<open>co_step\<close>, \<open>wake_step\<close>, \<open>pool_step\<close>) or a list of steps (\<open>run_daemon\<close>) whose steps
  are the stretches the code runs under a mutex, and its theorems speak of every reachable state.
  Interfaces are locales: \<open>policy_store\<close>, \<open>slot_picker\<close>, \<open>ws_half\<close>, \<open>ws_keeps\<close>, \<open>scrollback\<close>, \<open>invariant_system\<close>, each interpreted
  on the model's own definitions.

  \<^bold>\<open>Fuel and bounds.\<close> \<open>CreationOrder\<close> recurses with fuel \<open>order_fuel\<close>, one more than the number of services: a
  service is entered once, and the theorems show that the answer is never \<open>None\<close>. \<open>read_loop\<close> of
  \<open>Ws_Frame\<close> has fuel for the bytes of its input plus one, since every frame takes at least two; that it
  never runs out is part of \<open>server_delivers_bounded\<close>. Addresses are words of their width; port numbers,
  durations and revisions are \<open>int\<close>, whose Go widths the checked ranges keep them in.

  \<^bold>\<open>Arguments.\<close> JSON decoders and encoders, hashes, DNS, dialling, the interface list, the disk with its failures,
  clocks, the container engine, keys and signatures, and the programs \<open>ip\<close> and \<open>iptables\<close> are arguments of the
  definitions that use them. What is relied on of them is a named predicate (\<open>iptables_ok\<close>, \<open>host_spec\<close>,
  \<open>provider_ok\<close>) with an instance that meets it.

  \<^bold>\<open>Not modelled.\<close> The providers (they drive docker, firecracker and kubernetes), jails and machine processes
  of the microVM host, the command line and the user interfaces (rendering and glue), the splicing of
  live connections, timeouts and logging: their work is I/O on systems outside the program. The HTTP API
  of the osb server, the commands and files of the agent and the scopes and the remote control
  of the daemon hold further decisions that are not modelled yet.
\<close>

section \<open>Ports of sandboxes\<close>

text \<open>
  A sandbox of slot \<open>i\<close> with spec \<open>s\<close> publishes the ports of its service \<open>n\<close> from the service's first
  ordinal, as \<^verbatim>\<open>internal/cli/cli.go\<close> asks \<open>Endpoints\<close> for them.
\<close>

lemma Endpoints_set:
  "p \<in> set (Endpoints i st ps) \<longleftrightarrow> (\<exists>k < length ps. p = publicBase + int i * blockSize + int (st + k))"
  by (auto simp: Endpoints_def image_iff)

text \<open>A port determines the slot and the ordinal, as long as ordinals stay below the block size.\<close>

lemma port_slot:
  assumes "publicBase + int i * blockSize + int x = publicBase + int k * blockSize + int y"
    and "x < MaxOrdinals" "y < MaxOrdinals"
  shows "i = k \<and> x = y"
proof -
  have e: "20 * i + x = 20 * k + y" using assms(1) by (simp add: blockSize_def)
  have "i = (20 * i + x) div 20" "k = (20 * k + y) div 20" using assms(2,3) by (simp_all add: MaxOrdinals_def)
  then have "i = k" using e by metis
  then show ?thesis using e by simp
qed

lemma service_ports:
  assumes "wf_spec s" "declares s n" "Assign s = Inr layout" "StartIndex layout n = Some st"
    "p \<in> set (Endpoints i st (svc_Ports (svc_of s n)))"
  obtains x where "p = publicBase + int i * blockSize + int x" "ports_before s n \<le> x"
    "x < ports_before s n + length (svc_Ports (svc_of s n))" "x < MaxOrdinals"
proof -
  from assms(5) obtain k where k: "k < length (svc_Ports (svc_of s n))" "p = publicBase + int i * blockSize + int (st + k)"
    by (auto simp: Endpoints_set)
  then have "svc_Ports (svc_of s n) \<noteq> []" by auto
  then have "st = ports_before s n" using StartIndex_before [OF assms(1,2) _ assms(3)] assms(4) by simp
  then show thesis using that [of "st + k"] k ports_before_all [OF assms(1-3)] by simp
qed

text \<open>
  (C24) No two services share a public port: for the endpoints of service \<open>m\<close> of a sandbox in slot \<open>i\<close> and
  service \<open>n\<close> of a sandbox in slot \<open>k\<close>, a common port means the same slot and, within one spec, the same
  service; and every port lies in the half-open range \<open>PortRanges\<close> announces as public.
\<close>

theorem sandbox_ports_disjoint:
  assumes s: "wf_spec s" "declares s m" "Assign s = Inr ls" "StartIndex ls m = Some a"
    and t: "wf_spec t" "declares t n" "Assign t = Inr lt" "StartIndex lt n = Some b"
    and i: "i < maxSlots"
    and p: "p \<in> set (Endpoints i a (svc_Ports (svc_of s m)))"
  shows "fst PortRanges \<le> p \<and> p < fst (snd PortRanges) \<and>
    (p \<in> set (Endpoints k b (svc_Ports (svc_of t n))) \<longrightarrow> i = k \<and> (s = t \<longrightarrow> m = n))"
proof (intro conjI impI)
  obtain x where x: "p = publicBase + int i * blockSize + int x" "ports_before s m \<le> x"
    "x < ports_before s m + length (svc_Ports (svc_of s m))" "x < MaxOrdinals"
    by (rule service_ports [OF s p])
  show "fst PortRanges \<le> p" by (simp add: x blockSize_def PortRanges_def)
  show "p < fst (snd PortRanges)" using x(4) i by (simp add: x(1) PortRanges_def blockSize_def maxSlots_def MaxOrdinals_def)
  assume q: "p \<in> set (Endpoints k b (svc_Ports (svc_of t n)))"
  obtain y where y: "p = publicBase + int k * blockSize + int y" "ports_before t n \<le> y"
    "y < ports_before t n + length (svc_Ports (svc_of t n))" "y < MaxOrdinals"
    by (rule service_ports [OF t q])
  have eq: "i = k \<and> x = y" by (rule port_slot [OF _ x(4) y(4)]) (simp only: x(1) [symmetric] y(1) [symmetric])
  then show "i = k" by simp
  assume st: "s = t"
  show "m = n"
  proof (rule ccontr)
    assume "m \<noteq> n"
    then have "m < n \<or> n < m" by (simp add: neq_iff)
    then show False
      using ports_before_less [OF s(1,2), of n] ports_before_less [OF t(1,2), of m] x y eq st by auto
  qed
qed

theorem sandbox_ports_disjoint_witness:
  "let s = demo_spec [(''web'', demo_svc [80, 443] []), (''api'', demo_svc [8080] [''web''])] in
   Endpoints 3 1 (svc_Ports (svc_of s ''web'')) = [20061, 20062] \<and>
   fst PortRanges \<le> 20062 \<and> 20062 < fst (snd PortRanges) \<and>
   20062 \<notin> set (Endpoints 3 0 (svc_Ports (svc_of s ''api'')))"
proof -
  let ?s = "demo_spec [(''web'', demo_svc [80, 443] []), (''api'', demo_svc [8080] [''web''])]"
  let ?l = "map slot_at [(0, ''api'', 8080), (1, ''web'', 80), (2, ''web'', 443)]"
  have 1: "wf_spec ?s" "declares ?s ''web''" "Assign ?s = Inr ?l" "StartIndex ?l ''web'' = Some 1" by code_simp+
  have 2: "declares ?s ''api''" "StartIndex ?l ''api'' = Some 0" by code_simp+
  have 3: "Endpoints 3 1 (svc_Ports (svc_of ?s ''web'')) = [20061, 20062]" by code_simp
  have 4: "(3::nat) < maxSlots" by (simp add: maxSlots_def)
  have 5: "20062 \<in> set (Endpoints 3 1 (svc_Ports (svc_of ?s ''web'')))" unfolding 3 by simp
  show ?thesis unfolding Let_def
    using sandbox_ports_disjoint [OF 1 1(1) 2(1) 1(3) 2(2) 4 5, of 3] 3 by simp
qed

end
